(* ===== verification/Legion_Prelude.thy ===== *)
theory Legion_Prelude
  imports Main "HOL-Library.Word"
begin

text \<open>
  Shared vocabulary of the development: the failures a C++ routine can end in, the
  ordered map that stands for \<^verbatim>\<open>std::map\<close>, byte ranges, and a locale for step
  systems with an inductive invariant.  Nothing in this theory is about one component;
  the lemmas are declared to the simplifier or to a named collection so that the component
  proofs can stay short.
\<close>

named_theorems om_simps \<open>rewrite rules for the ordered-map operations\<close>
named_theorems span_simps \<open>rewrite rules for byte ranges\<close>

section \<open>Failures and results\<close>

text \<open>
  A C++ routine of the runtime either returns, stops in an \<^verbatim>\<open>assert\<close>, calls
  \<^verbatim>\<open>exit\<close>, or does something the language leaves undefined (dereferencing an end
  iterator or a null pointer, indexing out of range).  Each of the last three is a value of
  \<open>am_error\<close>; a result is a sum whose left side is the failure.
\<close>

datatype am_error =
    Assert_Failed
  | Undefined_Behaviour
  | Exit_Process int

type_synonym 'a outcome = "am_error + 'a"

fun obind :: "'a outcome \<Rightarrow> ('a \<Rightarrow> 'b outcome) \<Rightarrow> 'b outcome" where
  "obind (Inl e) f = Inl e"
| "obind (Inr x) f = f x"

definition cassert :: "bool \<Rightarrow> unit outcome" where
  "cassert b = (if b then Inr () else Inl Assert_Failed)"

lemma obind_Inr_iff: "obind r f = Inr y \<longleftrightarrow> (\<exists>x. r = Inr x \<and> f x = Inr y)"
  by (cases r) auto

lemma obind_InrE [elim!]:
  assumes "obind r f = Inr y"
  obtains x where "r = Inr x" "f x = Inr y"
  using assms by (auto simp: obind_Inr_iff)

lemma cassert_Inr [simp]: "cassert b = Inr u \<longleftrightarrow> b"
  by (simp add: cassert_def)

lemma cassert_True [simp]: "cassert True = Inr ()"
  by (simp add: cassert_def)

lemma cassert_False [simp]: "cassert False = Inl Assert_Failed"
  by (simp add: cassert_def)

type_synonym addr = nat
type_synonym byte = "8 word"
type_synonym size_t = "64 word"
type_synonym msgptr = nat
type_synonym node_id = nat

section \<open>Ordered maps\<close>

text \<open>
  \<^verbatim>\<open>std::map\<close> keeps its entries in increasing key order, and the allocators walk them
  in that order.  An ordered map is the list of its entries, keys strictly increasing.
  \<open>om_put\<close> is the assignment \<^verbatim>\<open>m[k] = v\<close>, \<open>om_del\<close> is \<^verbatim>\<open>erase\<close>,
  \<open>map_of\<close> is \<^verbatim>\<open>find\<close>; \<open>om_below\<close> and \<open>om_from\<close> are the entries before and
  from the iterator that \<^verbatim>\<open>lower_bound\<close> returns.
\<close>

type_synonym ('k, 'v) omap = "('k \<times> 'v) list"

abbreviation om_ok :: "('k::linorder, 'v) omap \<Rightarrow> bool" where
  "om_ok m \<equiv> sorted_wrt (<) (map fst m)"

definition om_below :: "'k::linorder \<Rightarrow> ('k, 'v) omap \<Rightarrow> ('k, 'v) omap" where
  "om_below k m = takeWhile (\<lambda>e. fst e < k) m"

definition om_from :: "'k::linorder \<Rightarrow> ('k, 'v) omap \<Rightarrow> ('k, 'v) omap" where
  "om_from k m = dropWhile (\<lambda>e. fst e < k) m"

definition om_del :: "'k \<Rightarrow> ('k, 'v) omap \<Rightarrow> ('k, 'v) omap" where
  "om_del k m = filter (\<lambda>e. fst e \<noteq> k) m"

definition om_put :: "'k::linorder \<Rightarrow> 'v \<Rightarrow> ('k, 'v) omap \<Rightarrow> ('k, 'v) omap" where
  "om_put k v m = om_below k m @ (k, v) # om_del k (om_from k m)"

lemma om_split: "om_below k m @ om_from k m = m"
  by (simp add: om_below_def om_from_def)

lemma om_below_less: "e \<in> set (om_below k m) \<Longrightarrow> fst e < k"
  by (auto simp: om_below_def dest: set_takeWhileD)

lemma om_from_ge:
  assumes "om_ok m" and "e \<in> set (om_from k m)"
  shows "k \<le> fst e"
  using assms
proof (induction m)
  case (Cons x xs)
  show ?case
  proof (cases "fst x < k")
    case True
    with Cons show ?thesis by (simp add: om_from_def)
  next
    case False
    with Cons.prems show ?thesis
      by (force simp: om_from_def sorted_wrt_map)
  qed
qed (simp add: om_from_def)

lemma set_om_del [om_simps]: "set (om_del k m) = {e \<in> set m. fst e \<noteq> k}"
  by (auto simp: om_del_def)

lemma set_om_split: "set m = set (om_below k m) \<union> set (om_from k m)"
  by (metis om_split set_append)

lemma set_om_put [om_simps]:
  assumes "om_ok m"
  shows "set (om_put k v m) = insert (k, v) {e \<in> set m. fst e \<noteq> k}"
  using set_om_split [of m k] om_below_less [of _ k m]
  by (fastforce simp: om_put_def set_om_del)

lemma om_ok_del [intro, simp]: "om_ok m \<Longrightarrow> om_ok (om_del k m)"
  by (simp add: om_del_def sorted_wrt_map sorted_wrt_filter)

lemma om_ok_append:
  "om_ok (xs @ ys) \<longleftrightarrow> om_ok xs \<and> om_ok ys \<and> (\<forall>x \<in> set xs. \<forall>y \<in> set ys. fst x < fst y)"
  by (auto simp: sorted_wrt_append)

lemma om_ok_parts:
  assumes "om_ok m"
  shows "om_ok (om_below k m)" "om_ok (om_from k m)"
  using assms om_split [of k m] by (metis om_ok_append)+

lemma om_ok_put [intro, simp]:
  assumes "om_ok m"
  shows "om_ok (om_put k v m)"
proof -
  have "\<forall>x \<in> set (om_below k m). fst x < k"
    by (auto dest: om_below_less)
  moreover have "\<forall>y \<in> set (om_del k (om_from k m)). k < fst y"
    using om_from_ge [OF assms] by (fastforce simp: set_om_del)
  ultimately show ?thesis
    using om_ok_parts [OF assms, of k]
    by (force simp: om_put_def sorted_wrt_append)
qed

lemma om_ok_distinct: "om_ok m \<Longrightarrow> distinct (map fst m)"
  by (simp add: strict_sorted_iff)

lemma om_find_iff: "om_ok m \<Longrightarrow> map_of m k = Some v \<longleftrightarrow> (k, v) \<in> set m"
  by (simp add: om_ok_distinct)

lemma om_key_unique: "om_ok m \<Longrightarrow> (k, v) \<in> set m \<Longrightarrow> (k, w) \<in> set m \<Longrightarrow> v = w"
  by (metis om_find_iff option.inject)

lemma om_find_del [om_simps]: "map_of (om_del k m) = (map_of m)(k := None)"
  by (induction m) (auto simp: om_del_def fun_eq_iff)

lemma om_find_put [om_simps]:
  assumes "om_ok m"
  shows "map_of (om_put k v m) = (map_of m)(k := Some v)"
proof
  fix j
  have ok: "om_ok (om_put k v m)"
    using assms by simp
  show "map_of (om_put k v m) j = ((map_of m)(k := Some v)) j"
  proof (cases "j = k")
    case True
    with ok show ?thesis by (simp add: om_find_iff set_om_put assms)
  next
    case False
    then have "\<And>w. map_of (om_put k v m) j = Some w \<longleftrightarrow> map_of m j = Some w"
      by (simp add: om_find_iff [OF ok] om_find_iff [OF assms] set_om_put assms)
    with False show ?thesis by (metis fun_upd_other not_Some_eq)
  qed
qed

text \<open>
  The interface the allocators use of \<^verbatim>\<open>std::map\<close>: \<^verbatim>\<open>find\<close>, assignment through
  \<^verbatim>\<open>operator[]\<close> and \<^verbatim>\<open>erase\<close>, with the two lookup laws.
\<close>

locale std_map =
  fixes ok :: "'m \<Rightarrow> bool"
    and find :: "'m \<Rightarrow> 'k \<Rightarrow> 'v option"
    and assign :: "'k \<Rightarrow> 'v \<Rightarrow> 'm \<Rightarrow> 'm"
    and erase :: "'k \<Rightarrow> 'm \<Rightarrow> 'm"
  assumes ok_assign: "ok m \<Longrightarrow> ok (assign k v m)"
    and ok_erase: "ok m \<Longrightarrow> ok (erase k m)"
    and find_assign: "ok m \<Longrightarrow> find (assign k v m) = (find m)(k := Some v)"
    and find_erase: "ok m \<Longrightarrow> find (erase k m) = (find m)(k := None)"
begin

lemma erase_assign_find: "ok m \<Longrightarrow> find (erase k (assign k v m)) = (find m)(k := None)"
  by (simp add: find_erase find_assign ok_assign)

lemma assign_erase_find: "ok m \<Longrightarrow> find m k = Some v \<Longrightarrow> find (assign k v (erase k m)) = find m"
  by (auto simp: find_erase find_assign ok_erase)

lemma dom_assign: "ok m \<Longrightarrow> dom (find (assign k v m)) = insert k (dom (find m))"
  by (simp add: find_assign)

lemma dom_erase: "ok m \<Longrightarrow> dom (find (erase k m)) = dom (find m) - {k}"
  by (simp add: find_erase)

end

interpretation omi: std_map om_ok map_of om_put om_del
  by unfold_locales (simp_all add: om_simps)

section \<open>Byte ranges\<close>

text \<open>A span is a start address and a length; a span map is an ordered map of spans.\<close>

type_synonym span_map = "(addr, nat) omap"

definition span :: "addr \<times> nat \<Rightarrow> addr set" where
  "span x = {fst x ..< fst x + snd x}"

definition bytes_of :: "span_map \<Rightarrow> addr set" where
  "bytes_of m = (\<Union>x \<in> set m. span x)"

text \<open>
  \<open>gapped\<close>: positive spans in increasing order, no two of which touch.  This is a free
  list in which adjacent ranges have been merged.
\<close>

definition gapped :: "span_map \<Rightarrow> bool" where
  "gapped m \<longleftrightarrow> sorted_wrt (\<lambda>x y. fst x + snd x < fst y) m \<and> (\<forall>x \<in> set m. 0 < snd x)"

text \<open>\<open>apart\<close>: increasing keys, positive and pairwise disjoint spans (they may touch).\<close>

definition apart :: "span_map \<Rightarrow> bool" where
  "apart m \<longleftrightarrow> om_ok m \<and> (\<forall>x \<in> set m. 0 < snd x) \<and>
     (\<forall>x \<in> set m. \<forall>y \<in> set m. x \<noteq> y \<longrightarrow> span x \<inter> span y = {})"

lemma span_pair [span_simps]: "span (p, s) = {p ..< p + s}"
  by (simp add: span_def)

lemma bytes_of_Nil [simp]: "bytes_of [] = {}"
  by (simp add: bytes_of_def)

lemma bytes_of_Cons [simp]: "bytes_of (x # m) = span x \<union> bytes_of m"
  by (simp add: bytes_of_def)

lemma bytes_of_append [simp]: "bytes_of (m @ n) = bytes_of m \<union> bytes_of n"
  by (simp add: bytes_of_def)

lemma bytes_of_rev [simp]: "bytes_of (rev m) = bytes_of m"
  by (simp add: bytes_of_def)

lemma span_subset_bytes: "x \<in> set m \<Longrightarrow> span x \<subseteq> bytes_of m"
  by (auto simp: bytes_of_def)

lemma bytes_of_empty_iff: "\<forall>x \<in> set m. 0 < snd x \<Longrightarrow> bytes_of m = {} \<longleftrightarrow> m = []"
  by (cases m) (auto simp: span_def)

lemma gapped_om_ok: "gapped m \<Longrightarrow> om_ok m"
  unfolding gapped_def sorted_wrt_map by (auto elim: sorted_wrt_mono_rel [rotated])

lemma gapped_apart:
  assumes "gapped m"
  shows "apart m"
proof -
  have "span x \<inter> span y = {}" if "x \<in> set m" "y \<in> set m" "x \<noteq> y" for x y
  proof -
    from that obtain i j where ij: "i < length m" "j < length m" "m ! i = x" "m ! j = y" "i \<noteq> j"
      by (metis in_set_conv_nth)
    then consider "i < j" | "j < i" by linarith
    then show ?thesis
    proof cases
      case 1
      with assms ij have "fst x + snd x < fst y"
        by (auto simp: gapped_def sorted_wrt_iff_nth_less)
      then show ?thesis by (auto simp: span_def)
    next
      case 2
      with assms ij have "fst y + snd y < fst x"
        by (auto simp: gapped_def sorted_wrt_iff_nth_less)
      then show ?thesis by (auto simp: span_def)
    qed
  qed
  with gapped_om_ok [OF assms] assms show ?thesis
    by (simp add: apart_def gapped_def)
qed

lemma set_om_del_entry:
  assumes "om_ok m" and "(p, s) \<in> set m"
  shows "set (om_del p m) = set m - {(p, s)}"
proof -
  have "fst x \<noteq> p" if "x \<in> set m" "x \<noteq> (p, s)" for x
    using om_key_unique [OF assms(1,2), of "snd x"] that by (cases x) auto
  then show ?thesis by (auto simp: set_om_del)
qed

lemma bytes_of_del:
  assumes "apart m" and "(p, s) \<in> set m"
  shows "bytes_of (om_del p m) = bytes_of m - {p ..< p + s}"
proof -
  have ok: "om_ok m" using assms(1) by (simp add: apart_def)
  have "span x \<inter> {p ..< p + s} = {}" if "x \<in> set m - {(p, s)}" for x
  proof -
    from that assms have "span x \<inter> span (p, s) = {}"
      unfolding apart_def by blast
    then show ?thesis by (simp add: span_pair)
  qed
  then have "bytes_of (om_del p m) \<inter> {p ..< p + s} = {}"
    unfolding bytes_of_def set_om_del_entry [OF ok assms(2)] by blast
  moreover have "bytes_of m = bytes_of (om_del p m) \<union> span (p, s)"
    unfolding bytes_of_def set_om_del_entry [OF ok assms(2)] using assms(2) by blast
  ultimately show ?thesis unfolding span_pair by blast
qed

lemma bytes_of_put_fresh:
  assumes "om_ok m" and "p \<notin> fst ` set m"
  shows "bytes_of (om_put p s m) = bytes_of m \<union> {p ..< p + s}"
proof -
  have "set (om_put p s m) = insert (p, s) (set m)"
    using assms by (force simp: set_om_put)
  then show ?thesis
    by (auto simp: bytes_of_def span_pair)
qed

lemma apart_del: "apart m \<Longrightarrow> apart (om_del p m)"
  by (auto simp: apart_def set_om_del)

lemma apart_key_in_bytes: "apart m \<Longrightarrow> (p, s) \<in> set m \<Longrightarrow> p \<in> bytes_of m"
  by (force simp: apart_def bytes_of_def span_def)

lemma apart_put:
  assumes "apart m" and "0 < s" and "bytes_of m \<inter> {p ..< p + s} = {}"
  shows "apart (om_put p s m)" "p \<notin> fst ` set m"
proof -
  from assms show fresh: "p \<notin> fst ` set m"
    using apart_key_in_bytes [OF assms(1)] by fastforce
  have set: "set (om_put p s m) = insert (p, s) (set m)"
    using assms(1) fresh by (force simp: set_om_put apart_def)
  have "span x \<inter> span (p, s) = {}" if "x \<in> set m" for x
    using span_subset_bytes [OF that] assms(3) unfolding span_pair by blast
  then have "\<forall>x \<in> set (om_put p s m). \<forall>y \<in> set (om_put p s m). x \<noteq> y \<longrightarrow> span x \<inter> span y = {}"
    using assms(1) unfolding set apart_def by (simp add: Int_commute)
  with assms(1,2) show "apart (om_put p s m)"
    unfolding apart_def by (simp add: set)
qed

text \<open>The order-free form of \<open>gapped\<close>, over the set of entries.\<close>

lemma gapped_gap:
  assumes "gapped m" and "x \<in> set m" and "y \<in> set m" and "fst x < fst y"
  shows "fst x + snd x < fst y"
proof -
  from assms obtain i j where ij: "i < length m" "j < length m" "m ! i = x" "m ! j = y"
    by (metis in_set_conv_nth)
  have "i < j"
  proof (rule ccontr)
    assume "\<not> i < j"
    then have "fst y \<le> fst x"
      using ij gapped_om_ok [OF assms(1)]
      by (cases "i = j") (auto simp: sorted_wrt_iff_nth_less nat_neq_iff intro: less_imp_le)
    with assms(4) show False by simp
  qed
  with assms(1) ij show ?thesis by (auto simp: gapped_def sorted_wrt_iff_nth_less)
qed

lemma gapped_iff:
  "gapped m \<longleftrightarrow> om_ok m \<and> (\<forall>x \<in> set m. 0 < snd x) \<and>
     (\<forall>x \<in> set m. \<forall>y \<in> set m. fst x < fst y \<longrightarrow> fst x + snd x < fst y)"
proof
  assume "gapped m"
  then show "om_ok m \<and> (\<forall>x \<in> set m. 0 < snd x) \<and>
     (\<forall>x \<in> set m. \<forall>y \<in> set m. fst x < fst y \<longrightarrow> fst x + snd x < fst y)"
    using gapped_gap [of m] gapped_om_ok [of m] by (simp add: gapped_def)
next
  assume "om_ok m \<and> (\<forall>x \<in> set m. 0 < snd x) \<and>
     (\<forall>x \<in> set m. \<forall>y \<in> set m. fst x < fst y \<longrightarrow> fst x + snd x < fst y)"
  then show "gapped m"
    by (auto simp: gapped_def sorted_wrt_iff_nth_less)
qed

lemma gapped_insert:
  assumes "gapped m" and "0 < s" and "\<forall>x \<in> set m. fst x + snd x < p \<or> p + s < fst x"
  shows "gapped (om_put p s m)" "p \<notin> fst ` set m"
proof -
  have ok: "om_ok m" using assms(1) by (rule gapped_om_ok)
  show fresh: "p \<notin> fst ` set m" using assms(3) by force
  have set: "set (om_put p s m) = insert (p, s) (set m)"
    using ok fresh by (force simp: set_om_put)
  have "fst x + snd x < fst y"
    if "x \<in> set (om_put p s m)" "y \<in> set (om_put p s m)" "fst x < fst y" for x y
    using that gapped_gap [OF assms(1), of x y] assms(3) unfolding set by fastforce
  with ok assms(1,2) show "gapped (om_put p s m)"
    unfolding gapped_iff by (simp add: set)
qed

lemma gapped_append:
  "gapped (m @ n) \<longleftrightarrow>
     gapped m \<and> gapped n \<and> (\<forall>x \<in> set m. \<forall>y \<in> set n. fst x + snd x < fst y)"
  by (auto simp: gapped_def sorted_wrt_append)

lemma gapped_del: "gapped m \<Longrightarrow> gapped (om_del p m)"
  by (auto simp: gapped_def om_del_def sorted_wrt_filter)

text \<open>A coalesced map that covers an interval is one entry.\<close>

lemma gapped_next_byte:
  assumes "gapped m" and "x \<in> set m"
  shows "fst x + snd x \<notin> bytes_of m"
proof
  assume "fst x + snd x \<in> bytes_of m"
  then obtain y where y: "y \<in> set m" "fst y \<le> fst x + snd x" "fst x + snd x < fst y + snd y"
    by (auto simp: bytes_of_def span_def)
  have pos: "0 < snd x" using assms by (simp add: gapped_def)
  have "snd x = snd y" if "fst x = fst y"
    using that om_key_unique [OF gapped_om_ok [OF assms(1)], of "fst x" "snd x" "snd y"] assms(2) y(1)
    by (metis prod.collapse)
  then show False
    using pos gapped_gap [OF assms y(1)] gapped_gap [OF assms(1) y(1) assms(2)] y(2,3)
    by (cases "fst x = fst y") (auto simp: nat_neq_iff)
qed

lemma gapped_interval:
  assumes g: "gapped m" and b: "bytes_of m = {a ..< c}" and ac: "a < c"
  shows "m = [(a, c - a)]"
proof -
  from b ac have "a \<in> bytes_of m" by simp
  then obtain x where x: "x \<in> set m" "fst x \<le> a" "a < fst x + snd x"
    by (auto simp: bytes_of_def span_def)
  have "span x \<subseteq> {a ..< c}" using span_subset_bytes [OF x(1)] b by simp
  with x have fx: "fst x = a" "fst x + snd x \<le> c" by (auto simp: span_def)
  have "\<not> fst x + snd x < c" using gapped_next_byte [OF g x(1)] b fx by auto
  with fx have xe: "x = (a, c - a)" by (cases x) auto
  have "y = x" if y: "y \<in> set m" for y
  proof (rule ccontr)
    assume "y \<noteq> x"
    with gapped_apart [OF g] x(1) y have "span x \<inter> span y = {}" by (auto simp: apart_def)
    moreover have "span y \<subseteq> {a ..< c}" using span_subset_bytes [OF y] b by simp
    moreover have "fst y \<in> span y" using g y by (simp add: gapped_def span_def)
    moreover have "span x = {a ..< c}" using xe ac by (simp add: span_def)
    ultimately show False by auto
  qed
  moreover have "distinct m" using om_ok_distinct [OF gapped_om_ok [OF g]] by (simp add: distinct_map)
  ultimately have "set m = {x}" "distinct m" using x(1) by blast+
  then have "m = [x]" by (cases m; cases "tl m") auto
  with xe show ?thesis by simp
qed

lemma gapped_shrink:
  assumes "gapped m" and "(p, s) \<in> set m" and "0 < t" and "t \<le> s"
  shows "gapped (om_put p t m)"
    and "bytes_of (om_put p t m) = bytes_of m - {p + t ..< p + s}"
    and "set (om_put p t m) = insert (p, t) (set m - {(p, s)})"
proof -
  have ok: "om_ok m" using assms(1) by (rule gapped_om_ok)
  show set: "set (om_put p t m) = insert (p, t) (set m - {(p, s)})"
    using set_om_put [OF ok, of p t] set_om_del_entry [OF ok assms(2)] by (simp add: set_om_del)
  have ok': "om_ok (om_put p t m)" using ok by simp
  have "fst x + snd x < fst y"
    if "x \<in> set (om_put p t m)" "y \<in> set (om_put p t m)" "fst x < fst y" for x y
    using that gapped_gap [OF assms(1), of x y] gapped_gap [OF assms(1), of "(p, s)" y]
      gapped_gap [OF assms(1), of x "(p, s)"] assms(2,4) unfolding set by auto
  with ok' assms(1,3) show "gapped (om_put p t m)"
    unfolding gapped_iff by (simp add: set)
  have "bytes_of (om_put p t m) = bytes_of (om_del p m) \<union> {p ..< p + t}"
    using set_om_del_entry [OF ok assms(2)] by (auto simp: bytes_of_def set span_pair)
  with bytes_of_del [OF gapped_apart [OF assms(1)] assms(2)]
  have "bytes_of (om_put p t m) = (bytes_of m - {p ..< p + s}) \<union> {p ..< p + t}"
    by simp
  moreover have "{p ..< p + s} \<subseteq> bytes_of m"
    using span_subset_bytes [OF assms(2)] by (simp add: span_pair)
  ultimately show "bytes_of (om_put p t m) = bytes_of m - {p + t ..< p + s}"
    using assms(4) by auto
qed

lemma gapped_grow:
  assumes g: "gapped m" and b: "(b, t) \<in> set m" and n: "\<forall>x \<in> set m. b < fst x \<longrightarrow> b + t + n < fst x"
  shows "gapped (om_put b (t + n) m)"
    and "bytes_of (om_put b (t + n) m) = bytes_of m \<union> {b + t ..< b + t + n}"
proof -
  have ok: "om_ok m" using g by (rule gapped_om_ok)
  have set: "set (om_put b (t + n) m) = insert (b, t + n) (set m - {(b, t)})"
    using set_om_put [OF ok, of b "t + n"] set_om_del_entry [OF ok b] by (simp add: set_om_del)
  have t: "0 < t" using g b by (auto simp: gapped_def)
  have "fst x + snd x < fst y"
    if "x \<in> set (om_put b (t + n) m)" "y \<in> set (om_put b (t + n) m)" "fst x < fst y" for x y
  proof -
    note xy = that
    consider "x = (b, t + n)" "y \<in> set m" | "x \<in> set m" "y = (b, t + n)" | "x \<in> set m" "y \<in> set m"
      using xy unfolding set by auto
    then show ?thesis
    proof cases
      case 1
      with n xy(3) have "b + t + n < fst y" by simp
      with 1 show ?thesis by simp
    next
      case 2
      with gapped_gap [OF g 2(1) b] xy(3) show ?thesis by simp
    qed (use gapped_gap [OF g] xy(3) in blast)
  qed
  with ok g t show "gapped (om_put b (t + n) m)" unfolding gapped_iff by (simp add: set)
  have "bytes_of (om_put b (t + n) m) = bytes_of (om_del b m) \<union> {b ..< b + (t + n)}"
    unfolding bytes_of_def set set_om_del_entry [OF ok b] UN_insert span_pair by (rule Un_commute)
  moreover have "bytes_of m = bytes_of (om_del b m) \<union> {b ..< b + t}"
    unfolding bytes_of_def set_om_del_entry [OF ok b] span_pair [symmetric] using b by blast
  moreover have "{b ..< b + (t + n)} = {b ..< b + t} \<union> {b + t ..< b + t + n}" by auto
  ultimately show "bytes_of (om_put b (t + n) m) = bytes_of m \<union> {b + t ..< b + t + n}" by blast
qed

text \<open>The entries on either side of a range that is not covered.\<close>

lemma gapped_sides:
  assumes g: "gapped m" and d: "bytes_of m \<inter> {p ..< p + s} = {}" and s: "0 < s"
  shows "\<forall>x \<in> set (om_below p m). fst x + snd x \<le> p"
    and "\<forall>x \<in> set (om_from p m). p + s \<le> fst x"
proof -
  have ok: "om_ok m" using g by (rule gapped_om_ok)
  show "\<forall>x \<in> set (om_below p m). fst x + snd x \<le> p"
  proof (rule ballI, rule ccontr)
    fix x assume "x \<in> set (om_below p m)"
    then have x: "x \<in> set m" "fst x < p"
      using set_om_split [of m p] om_below_less [of x p m] by auto
    assume "\<not> fst x + snd x \<le> p"
    with x s have "p \<in> span x \<inter> {p ..< p + s}" by (auto simp: span_def)
    with x(1) d show False by (auto simp: bytes_of_def)
  qed
  show "\<forall>x \<in> set (om_from p m). p + s \<le> fst x"
  proof (rule ballI, rule ccontr)
    fix x assume x: "x \<in> set (om_from p m)"
    then have x': "x \<in> set m" "p \<le> fst x" "0 < snd x"
      using set_om_split [of m p] om_from_ge [OF ok x] g by (auto simp: gapped_def)
    assume "\<not> p + s \<le> fst x"
    with x' have "fst x \<in> span x \<inter> {p ..< p + s}" by (auto simp: span_def)
    with x'(1) d show False by (auto simp: bytes_of_def)
  qed
qed

text \<open>A coalesced map is determined by the bytes it covers.\<close>

lemma gapped_entry_iff:
  assumes g: "gapped m"
  shows "(p, s) \<in> set m \<longleftrightarrow>
    0 < s \<and> {p ..< p + s} \<subseteq> bytes_of m \<and> p + s \<notin> bytes_of m \<and> (p = 0 \<or> p - 1 \<notin> bytes_of m)"
proof
  assume e: "(p, s) \<in> set m"
  have "p - 1 \<notin> bytes_of m" if "p \<noteq> 0"
  proof
    assume "p - 1 \<in> bytes_of m"
    then obtain y where y: "y \<in> set m" "fst y \<le> p - 1" "p - 1 < fst y + snd y"
      by (auto simp: bytes_of_def span_def)
    then have "fst y < p" "p \<le> fst y + snd y" using that by linarith+
    with gapped_gap [OF g y(1) e] show False by simp
  qed
  with e g gapped_next_byte [OF g e] span_subset_bytes [OF e]
  show "0 < s \<and> {p ..< p + s} \<subseteq> bytes_of m \<and> p + s \<notin> bytes_of m \<and> (p = 0 \<or> p - 1 \<notin> bytes_of m)"
    by (auto simp: gapped_def span_pair)
next
  assume r: "0 < s \<and> {p ..< p + s} \<subseteq> bytes_of m \<and> p + s \<notin> bytes_of m \<and> (p = 0 \<or> p - 1 \<notin> bytes_of m)"
  then have "p \<in> bytes_of m" by auto
  then obtain x where x: "x \<in> set m" "fst x \<le> p" "p < fst x + snd x"
    by (auto simp: bytes_of_def span_def)
  have sub: "span x \<subseteq> bytes_of m" using x(1) by (rule span_subset_bytes)
  have "fst x = p"
  proof (rule ccontr)
    assume "fst x \<noteq> p"
    with x have "p - 1 \<in> span x" "p \<noteq> 0" by (auto simp: span_def)
    with sub r show False by blast
  qed
  moreover have "\<not> p + s < fst x + snd x"
  proof
    assume "p + s < fst x + snd x"
    then have "p + s \<in> span x" using x(2) by (simp add: span_def)
    with sub r show False by blast
  qed
  moreover have "\<not> fst x + snd x < p + s"
  proof
    assume "fst x + snd x < p + s"
    then have "fst x + snd x \<in> {p ..< p + s}" using x(3) by simp
    with gapped_next_byte [OF g x(1)] r show False by blast
  qed
  ultimately have "x = (p, s)" by (cases x) auto
  with x(1) show "(p, s) \<in> set m" by simp
qed

lemma om_ok_unique:
  assumes "om_ok m" and "om_ok n" and "set m = set n"
  shows "m = n"
proof -
  have k: "map fst m = map fst n"
    using assms by (intro sorted_distinct_set_unique) (simp_all add: strict_sorted_iff flip: image_set)
  have "map_of m = map_of n"
    using assms om_ok_distinct map_of_inject_set by blast
  then have "map snd m = map snd n"
    using k assms om_ok_distinct by (metis (no_types, lifting) map_fst_zip map_of_zip_inject length_map zip_map_fst_snd)
  with k show ?thesis by (metis zip_map_fst_snd)
qed

lemma gapped_unique:
  assumes "gapped m" and "gapped n" and "bytes_of m = bytes_of n"
  shows "m = n"
proof (rule om_ok_unique)
  show "set m = set n"
    using gapped_entry_iff [OF assms(1)] gapped_entry_iff [OF assms(2)] assms(3) by auto
qed (simp_all add: gapped_om_ok assms)

section \<open>Range allocators\<close>

text \<open>
  The contract the pool of source data and the memories share: an allocator hands out ranges that
  are disjoint from the live ones, and every live range can be given back.  \<open>ok s live\<close> says that
  state \<open>s\<close> is well formed when \<open>live\<close> are the ranges that clients hold.
\<close>

inductive range_run ::
  "('s \<Rightarrow> nat \<Rightarrow> ('s \<times> addr \<times> nat) option) \<Rightarrow> ('s \<Rightarrow> addr \<Rightarrow> nat \<Rightarrow> 's option) \<Rightarrow>
     's \<times> span_map \<Rightarrow> 's \<times> span_map \<Rightarrow> bool" for alloc release where
  run_nil: "range_run alloc release x x"
| run_alloc: "range_run alloc release x (s, live) \<Longrightarrow> alloc s n = Some (s', p, k)
     \<Longrightarrow> range_run alloc release x (s', om_put p k live)"
| run_release: "range_run alloc release x (s, live) \<Longrightarrow> (p, k) \<in> set live \<Longrightarrow> release s p k = Some s'
     \<Longrightarrow> range_run alloc release x (s', om_del p live)"

locale range_allocator =
  fixes ok :: "'s \<Rightarrow> span_map \<Rightarrow> bool"
    and region :: "'s \<Rightarrow> addr set"
    and alloc :: "'s \<Rightarrow> nat \<Rightarrow> ('s \<times> addr \<times> nat) option"
    and release :: "'s \<Rightarrow> addr \<Rightarrow> nat \<Rightarrow> 's option"
  assumes ok_apart: "ok s live \<Longrightarrow> apart live"
    and ok_inside: "ok s live \<Longrightarrow> bytes_of live \<subseteq> region s"
    and alloc_ok: "ok s live \<Longrightarrow> alloc s n = Some (s', p, k) \<Longrightarrow>
          n \<le> k \<and> bytes_of live \<inter> {p ..< p + k} = {} \<and> ok s' (om_put p k live) \<and> region s' = region s"
    and release_ok: "ok s live \<Longrightarrow> (p, k) \<in> set live \<Longrightarrow>
          \<exists>s'. release s p k = Some s' \<and> ok s' (om_del p live) \<and> region s' = region s"
begin

lemma run_ok:
  assumes "range_run alloc release (s, live) (s', live')" and "ok s live"
  shows "ok s' live' \<and> region s' = region s"
  using assms
proof (induction "(s, live)" "(s', live')" arbitrary: s' live' rule: range_run.induct)
  case (run_alloc t lv n t' p k)
  then show ?case using alloc_ok [of t lv n t' p k] by simp
next
  case (run_release t lv p k t')
  then show ?case using release_ok [of t lv p k] by auto
qed simp

lemma run_disjoint:
  assumes "range_run alloc release (s, live) (s', live')" and "ok s live"
    and "x \<in> set live'" and "y \<in> set live'" and "x \<noteq> y"
  shows "span x \<inter> span y = {} \<and> span x \<subseteq> region s"
proof -
  have k: "ok s' live'" "region s' = region s" using run_ok [OF assms(1,2)] by auto
  have "span x \<inter> span y = {}" using ok_apart [OF k(1)] assms(3-5) by (simp add: apart_def)
  moreover have "span x \<subseteq> region s" using span_subset_bytes [OF assms(3)] ok_inside [OF k(1)] k(2) by blast
  ultimately show ?thesis ..
qed

lemma run_release_all:
  assumes "range_run alloc release (s, live) (s', live')" and "ok s live"
  shows "\<exists>s''. range_run alloc release (s, live) (s'', []) \<and> ok s'' []"
  using assms
proof (induction "length live'" arbitrary: s' live')
  case 0
  then show ?case using run_ok [OF 0(2,3)] by auto
next
  case (Suc n)
  then obtain p k rest where l: "live' = (p, k) # rest" by (cases live') auto
  have k: "ok s' live'" using run_ok [OF Suc(3,4)] by auto
  obtain s1 where s1: "release s' p k = Some s1" using release_ok [OF k, of p k] l by auto
  have "p \<notin> fst ` set rest" using ok_apart [OF k] l by (auto simp: apart_def)
  then have "om_del p live' = rest" using l by (force simp: om_del_def filter_id_conv)
  moreover have "range_run alloc release (s, live) (s1, om_del p live')"
    using Suc(3) _ s1 by (rule run_release) (simp add: l)
  ultimately show ?case using Suc(1) [of rest s1] Suc(2,4) l by simp
qed

lemma live_total_le:
  assumes "ok s live" and "finite (region s)"
  shows "(\<Sum>x \<in> set live. snd x) \<le> card (region s)"
proof -
  have "(\<Sum>x \<in> set live. snd x) = (\<Sum>x \<in> set live. card (span x))" by (simp add: span_def)
  also have "\<dots> = card (bytes_of live)"
  proof -
    have "finite (span x)" for x by (simp add: span_def)
    with ok_apart [OF assms(1)] show ?thesis
      unfolding bytes_of_def apart_def by (intro card_UN_disjoint [symmetric]) blast+
  qed
  also have "\<dots> \<le> card (region s)" using ok_inside [OF assms(1)] assms(2) by (rule card_mono [rotated])
  finally show ?thesis .
qed

end

section \<open>Byte-addressed memory\<close>

text \<open>
  The address space of a node as a function from addresses to bytes.  \<^verbatim>\<open>memcpy\<close> from
  \<open>src\<close> to \<open>dst\<close> is a read followed by a write.
\<close>

type_synonym memory = "addr \<Rightarrow> byte"

definition read_bytes :: "memory \<Rightarrow> addr \<Rightarrow> nat \<Rightarrow> byte list" where
  "read_bytes m a n = map m [a ..< a + n]"

definition write_bytes :: "memory \<Rightarrow> addr \<Rightarrow> byte list \<Rightarrow> memory" where
  "write_bytes m a xs = (\<lambda>x. if a \<le> x \<and> x < a + length xs then xs ! (x - a) else m x)"

definition memcpy :: "memory \<Rightarrow> addr \<Rightarrow> addr \<Rightarrow> nat \<Rightarrow> memory" where
  "memcpy m dst src n = write_bytes m dst (read_bytes m src n)"

lemma length_read_bytes [simp]: "length (read_bytes m a n) = n"
  by (simp add: read_bytes_def)

lemma read_bytes_0 [simp]: "read_bytes m a 0 = []"
  by (simp add: read_bytes_def)

lemma nth_read_bytes: "i < n \<Longrightarrow> read_bytes m a n ! i = m (a + i)"
  by (simp add: read_bytes_def)

lemma read_bytes_append: "read_bytes m a (n + k) = read_bytes m a n @ read_bytes m (a + n) k"
  by (rule nth_equalityI) (auto simp: nth_append nth_read_bytes add.assoc)

lemma write_bytes_Nil [simp]: "write_bytes m a [] = m"
  by (rule ext) (auto simp: write_bytes_def)

lemma write_bytes_outside: "x \<notin> {a ..< a + length xs} \<Longrightarrow> write_bytes m a xs x = m x"
  by (auto simp: write_bytes_def)

lemma write_bytes_append: "write_bytes m a (xs @ ys) = write_bytes (write_bytes m a xs) (a + length xs) ys"
  by (rule ext) (auto simp: write_bytes_def nth_append)

lemma read_write_same [simp]: "read_bytes (write_bytes m a xs) a (length xs) = xs"
  by (rule nth_equalityI) (auto simp: nth_read_bytes write_bytes_def)

lemma read_bytes_cong:
  "(\<And>x. x \<in> {a ..< a + n} \<Longrightarrow> m x = m' x) \<Longrightarrow> read_bytes m a n = read_bytes m' a n"
  by (simp add: read_bytes_def)

lemma read_write_other:
  assumes "{b ..< b + n} \<inter> {a ..< a + length xs} = {}"
  shows "read_bytes (write_bytes m a xs) b n = read_bytes m b n"
  using assms by (intro read_bytes_cong write_bytes_outside) blast

lemma read_memcpy [simp]: "read_bytes (memcpy m dst src n) dst n = read_bytes m src n"
  using read_write_same [of m dst "read_bytes m src n"] by (simp add: memcpy_def)

lemma memcpy_outside: "x \<notin> {dst ..< dst + n} \<Longrightarrow> memcpy m dst src n x = m x"
  by (simp add: memcpy_def write_bytes_outside)

section \<open>Step systems\<close>

text \<open>
  A component whose calls may interleave is a set of initial states and a step relation.
  \<open>step_system\<close> proves once that an inductive invariant holds in every reachable state;
  the protocols interpret it.
\<close>

inductive reaches :: "('s \<Rightarrow> bool) \<Rightarrow> ('s \<Rightarrow> 's \<Rightarrow> bool) \<Rightarrow> 's \<Rightarrow> bool" for init step where
  reaches_init: "init s \<Longrightarrow> reaches init step s"
| reaches_step: "reaches init step s \<Longrightarrow> step s t \<Longrightarrow> reaches init step t"

locale step_system =
  fixes init :: "'s \<Rightarrow> bool"
    and step :: "'s \<Rightarrow> 's \<Rightarrow> bool"
    and inv :: "'s \<Rightarrow> bool"
  assumes inv_init: "init s \<Longrightarrow> inv s"
    and inv_step: "inv s \<Longrightarrow> step s t \<Longrightarrow> inv t"
begin

lemma inv_reaches:
  assumes "reaches init step s"
  shows "inv s"
  using assms by (induction rule: reaches.induct) (auto intro: inv_init inv_step)

lemma inv_rtranclp: "step\<^sup>*\<^sup>* s t \<Longrightarrow> inv s \<Longrightarrow> inv t"
  by (induction rule: rtranclp_induct) (auto intro: inv_step)

end

lemma sint_of_nat_32: "n < 2 ^ 31 \<Longrightarrow> sint (of_nat n :: 32 word) = int n"
  by (simp add: signed_of_nat signed_take_bit_int_eq_self)

end
