(* ===== verification/Todo_Ring.thy ===== *)
theory Todo_Ring
  imports Legion_Prelude
begin

text \<open>
  The todo list that both \<^verbatim>\<open>IncomingMessageManager\<close> and \<^verbatim>\<open>EndpointManager\<close> keep: an array of
  \<open>n + 1\<close> node numbers used as a ring, one entry more than there are nodes so that a full ring
  can be told from an empty one.  Pushing asserts that the ring has not wrapped around.  The
  queue it implements is the locale \<open>bounded_fifo\<close>; the managers use its client lemma, that a
  queue of distinct nodes never overflows.
\<close>

section \<open>The ring\<close>

record todo_ring =
  todo_list :: "nat list"
  todo_oldest :: nat
  todo_newest :: nat

definition ring_new :: "nat \<Rightarrow> todo_ring" where
  "ring_new n = \<lparr>todo_list = replicate (n + 1) 0, todo_oldest = 0, todo_newest = 0\<rparr>"

definition ring_empty :: "todo_ring \<Rightarrow> bool" where
  "ring_empty r \<longleftrightarrow> todo_oldest r = todo_newest r"

definition ring_push :: "nat \<Rightarrow> todo_ring \<Rightarrow> nat \<Rightarrow> todo_ring outcome" where
  "ring_push n r target =
     (let xs = (todo_list r)[todo_newest r := target];
          newest = todo_newest r + 1;
          newest' = (if newest > n then 0 else newest)
      in if newest' \<noteq> todo_oldest r then Inr (r\<lparr>todo_list := xs, todo_newest := newest'\<rparr>)
         else Inl Assert_Failed)"

definition ring_pop :: "nat \<Rightarrow> todo_ring \<Rightarrow> nat \<times> todo_ring" where
  "ring_pop n r =
     (let target = todo_list r ! todo_oldest r;
          oldest = todo_oldest r + 1
      in (target, r\<lparr>todo_oldest := (if oldest > n then 0 else oldest)\<rparr>))"

section \<open>The queue interface\<close>

locale bounded_fifo =
  fixes inv :: "'q \<Rightarrow> bool"
    and abs :: "'q \<Rightarrow> nat list"
    and capacity :: nat
    and is_empty :: "'q \<Rightarrow> bool"
    and push :: "'q \<Rightarrow> nat \<Rightarrow> 'q outcome"
    and pop :: "'q \<Rightarrow> nat \<times> 'q"
  assumes empty_abs: "inv q \<Longrightarrow> is_empty q \<longleftrightarrow> abs q = []"
    and push_ok: "inv q \<Longrightarrow> length (abs q) < capacity \<Longrightarrow>
          \<exists>q'. push q x = Inr q' \<and> inv q' \<and> abs q' = abs q @ [x]"
    and push_full: "inv q \<Longrightarrow> capacity \<le> length (abs q) \<Longrightarrow> push q x = Inl Assert_Failed"
    and pop_ok: "inv q \<Longrightarrow> abs q \<noteq> [] \<Longrightarrow>
          fst (pop q) = hd (abs q) \<and> inv (snd (pop q)) \<and> abs (snd (pop q)) = tl (abs q)"
begin

lemma push_distinct:
  assumes "inv q" and "distinct (abs q)" and "set (abs q) \<subseteq> {..< capacity}" and "x < capacity"
    and "x \<notin> set (abs q)"
  obtains q' where "push q x = Inr q'" "inv q'" "abs q' = abs q @ [x]" "distinct (abs q')"
    "set (abs q') \<subseteq> {..< capacity}"
proof -
  have "set (abs q) \<subset> {..< capacity}" using assms(3-5) by blast
  then have "card (set (abs q)) < capacity" by (metis card_lessThan finite_lessThan psubset_card_mono)
  then have "length (abs q) < capacity" using assms(2) by (simp add: distinct_card)
  from push_ok [OF assms(1) this, of x] obtain q' where "push q x = Inr q'" "inv q'" "abs q' = abs q @ [x]"
    by blast
  with that assms(2-5) show ?thesis by auto
qed

lemma push_result:
  assumes "inv q" and "push q x = Inr q'"
  shows "inv q'" "abs q' = abs q @ [x]"
  using assms push_ok [OF assms(1), of x] push_full [OF assms(1), of x]
  by (cases "length (abs q) < capacity"; force)+

end

section \<open>The ring implements the queue\<close>

definition ring_count :: "nat \<Rightarrow> todo_ring \<Rightarrow> nat" where
  "ring_count n r = (if todo_oldest r \<le> todo_newest r then todo_newest r - todo_oldest r
                     else todo_newest r + (n + 1) - todo_oldest r)"

definition ring_abs :: "nat \<Rightarrow> todo_ring \<Rightarrow> nat list" where
  "ring_abs n r =
     (if todo_oldest r \<le> todo_newest r
      then take (todo_newest r - todo_oldest r) (drop (todo_oldest r) (todo_list r))
      else drop (todo_oldest r) (todo_list r) @ take (todo_newest r) (todo_list r))"

definition ring_ok :: "nat \<Rightarrow> todo_ring \<Rightarrow> bool" where
  "ring_ok n r \<longleftrightarrow> length (todo_list r) = n + 1 \<and> todo_oldest r \<le> n \<and> todo_newest r \<le> n"

lemma length_ring_abs: "ring_ok n r \<Longrightarrow> length (ring_abs n r) = ring_count n r"
  by (auto simp: ring_abs_def ring_count_def ring_ok_def)

lemma ring_empty_abs: "ring_ok n r \<Longrightarrow> ring_empty r \<longleftrightarrow> ring_abs n r = []"
  by (auto simp: ring_abs_def ring_ok_def ring_empty_def)

lemma ring_new_ok: "ring_ok n (ring_new n)" "ring_abs n (ring_new n) = []"
  by (simp_all add: ring_ok_def ring_new_def ring_abs_def)

lemma take_update_snoc: "i \<le> j \<Longrightarrow> j < length xs \<Longrightarrow>
    take (Suc j - i) (drop i (xs[j := x])) = take (j - i) (drop i xs) @ [x]"
  by (rule nth_equalityI) (auto simp: nth_append nth_list_update)

lemma ring_push_abs:
  assumes ok: "ring_ok n r" and room: "ring_count n r < n"
  shows "\<exists>r'. ring_push n r x = Inr r' \<and> ring_ok n r' \<and> ring_abs n r' = ring_abs n r @ [x]"
proof (cases "todo_newest r = n")
  case True
  with ok room have o: "0 < todo_oldest r" "todo_oldest r \<le> n" by (auto simp: ring_ok_def ring_count_def)
  let ?r = "r\<lparr>todo_list := (todo_list r)[n := x], todo_newest := 0\<rparr>"
  have "drop (todo_oldest r) ((todo_list r)[n := x]) = take (Suc n - todo_oldest r) (drop (todo_oldest r) ((todo_list r)[n := x]))"
    using ok by (simp add: ring_ok_def)
  also have "\<dots> = take (n - todo_oldest r) (drop (todo_oldest r) (todo_list r)) @ [x]"
    using o ok by (intro take_update_snoc) (auto simp: ring_ok_def)
  finally have "ring_abs n ?r = ring_abs n r @ [x]" using o True by (simp add: ring_abs_def)
  moreover have "ring_push n r x = Inr ?r" using o True by (simp add: ring_push_def Let_def)
  ultimately show ?thesis using ok by (auto simp: ring_ok_def)
next
  case False
  let ?r = "r\<lparr>todo_list := (todo_list r)[todo_newest r := x], todo_newest := todo_newest r + 1\<rparr>"
  have w: "todo_newest r < n" using False ok by (simp add: ring_ok_def)
  have ne: "todo_newest r + 1 \<noteq> todo_oldest r" using room ok by (auto simp: ring_count_def ring_ok_def split: if_splits)
  have "ring_abs n ?r = ring_abs n r @ [x]"
  proof (cases "todo_oldest r \<le> todo_newest r")
    case True
    with w ok show ?thesis
      using take_update_snoc [OF True, of "todo_list r" x] by (simp add: ring_abs_def ring_ok_def)
  next
    case False
    then have "take (todo_newest r + 1) ((todo_list r)[todo_newest r := x]) = take (todo_newest r) (todo_list r) @ [x]"
      using take_update_snoc [of 0 "todo_newest r" "todo_list r" x] w ok by (simp add: ring_ok_def)
    with False ne show ?thesis by (simp add: ring_abs_def)
  qed
  moreover have "ring_push n r x = Inr ?r" using w ne by (simp add: ring_push_def Let_def)
  ultimately show ?thesis using ok w by (auto simp: ring_ok_def)
qed

lemma ring_push_full:
  "ring_ok n r \<Longrightarrow> n \<le> ring_count n r \<Longrightarrow> ring_push n r x = Inl Assert_Failed"
  by (auto simp: ring_push_def ring_count_def ring_ok_def Let_def split: if_splits)

lemma ring_pop_abs:
  assumes ok: "ring_ok n r" and ne: "ring_abs n r \<noteq> []"
  shows "fst (ring_pop n r) = hd (ring_abs n r) \<and> ring_ok n (snd (ring_pop n r)) \<and>
         ring_abs n (snd (ring_pop n r)) = tl (ring_abs n r)"
proof -
  let ?o = "todo_oldest r" and ?xs = "todo_list r"
  have o: "?o < length ?xs" using ok by (simp add: ring_ok_def)
  have d: "drop ?o ?xs = ?xs ! ?o # drop (Suc ?o) ?xs" using o by (rule Cons_nth_drop_Suc [symmetric])
  have diff: "?o \<noteq> todo_newest r" using ring_empty_abs [OF ok] ne by (simp add: ring_empty_def)
  show ?thesis
  proof (cases "?o < todo_newest r")
    case True
    then have "take (todo_newest r - ?o) (drop ?o ?xs) =
        ?xs ! ?o # take (todo_newest r - Suc ?o) (drop (Suc ?o) ?xs)"
      by (simp add: d take_Cons' Suc_diff_Suc [symmetric])
    with True ok show ?thesis by (simp add: ring_pop_def ring_abs_def ring_ok_def Let_def)
  next
    case False
    with diff have "todo_newest r < ?o" by simp
    with ok d show ?thesis
      by (cases "?o = n") (auto simp: ring_pop_def ring_abs_def ring_ok_def Let_def)
  qed
qed

interpretation ring: bounded_fifo "ring_ok n" "ring_abs n" n ring_empty "ring_push n" "ring_pop n" for n
  using ring_empty_abs ring_push_abs ring_push_full ring_pop_abs
  by unfold_locales (simp_all add: length_ring_abs)

section \<open>Property\<close>

text \<open>
  The ring of \<open>n + 1\<close> entries is a queue of capacity \<open>n\<close>: pushing onto fewer than
  \<open>n\<close> entries appends, pushing onto \<open>n\<close> entries stops in the assertion, popping takes the
  oldest entry, and the emptiness test is exact.
\<close>

theorem ring_is_bounded_fifo:
  assumes "ring_ok n r"
  shows "(ring_empty r \<longleftrightarrow> ring_abs n r = []) \<and>
     (if length (ring_abs n r) < n
      then \<exists>r'. ring_push n r x = Inr r' \<and> ring_ok n r' \<and> ring_abs n r' = ring_abs n r @ [x]
      else ring_push n r x = Inl Assert_Failed) \<and>
     (ring_abs n r \<noteq> [] \<longrightarrow> fst (ring_pop n r) = hd (ring_abs n r) \<and>
        ring_ok n (snd (ring_pop n r)) \<and> ring_abs n (snd (ring_pop n r)) = tl (ring_abs n r))"
  using ring.empty_abs [OF assms] ring.push_ok [OF assms, of x] ring.push_full [OF assms, of x] ring.pop_ok [OF assms]
  by simp

theorem ring_is_bounded_fifo_witness:
  "\<exists>r'. ring_push 2 (ring_new 2) 1 = Inr r' \<and> ring_abs 2 r' = [1]"
  using ring_is_bounded_fifo [OF ring_new_ok(1), of 2 1] by (auto simp: ring_new_ok)

end
