(* ===== verification/Incoming_Manager.thy ===== *)
theory Incoming_Manager
  imports Todo_Ring
begin

text \<open>
  \<^verbatim>\<open>IncomingMessageManager\<close> of \<^verbatim>\<open>src/templates/activemsg.cc\<close>: per sender a singly linked
  list of messages (head and address of the last \<^verbatim>\<open>next_msg\<close> field) and a todo ring of the
  senders with a non-empty list.  The \<^verbatim>\<open>next_msg\<close> fields are an explicit store, so the pointer
  updates are those of the code; a tail is the message whose \<^verbatim>\<open>next_msg\<close> field it addresses.
  The theory refines the pointers to one list of messages per sender.
\<close>

section \<open>Operations\<close>

type_synonym next_store = "msgptr \<Rightarrow> msgptr"

record IncomingMessageManager =
  im_nodes :: nat
  im_shutdown :: bool
  heads :: "msgptr list"
  tails :: "msgptr list"
  im_todo :: todo_ring

definition IncomingMessageManager_construct :: "nat \<Rightarrow> IncomingMessageManager" where
  "IncomingMessageManager_construct n =
     \<lparr>im_nodes = n, im_shutdown = False, heads = replicate n 0, tails = replicate n 0, im_todo = ring_new n\<rparr>"

text \<open>The flag of the result says whether sleepers are woken.\<close>

definition add_incoming_message ::
  "IncomingMessageManager \<Rightarrow> next_store \<Rightarrow> nat \<Rightarrow> msgptr \<Rightarrow>
     (IncomingMessageManager \<times> next_store \<times> bool) outcome" where
  "add_incoming_message im nxt sender msg =
     (if \<not> sender < im_nodes im then Inl Undefined_Behaviour
      else if heads im ! sender \<noteq> 0 then
        if tails im ! sender = 0 then Inl Assert_Failed
        else Inr (im\<lparr>tails := (tails im)[sender := msg]\<rparr>, nxt(tails im ! sender := msg), False)
      else
        obind (ring_push (im_nodes im) (im_todo im) sender) (\<lambda>ring.
          Inr (im\<lparr>heads := (heads im)[sender := msg], tails := (tails im)[sender := msg], im_todo := ring\<rparr>,
               nxt, True)))"

definition im_set_shutdown :: "IncomingMessageManager \<Rightarrow> IncomingMessageManager" where
  "im_set_shutdown im = (if \<not> im_shutdown im then im\<lparr>im_shutdown := True\<rparr> else im)"

text \<open>\<open>None\<close>: the caller sleeps on the condition variable.\<close>

definition get_messages :: "IncomingMessageManager \<Rightarrow> bool \<Rightarrow> (IncomingMessageManager \<times> int \<times> msgptr) option" where
  "get_messages im wait =
     (if ring_empty (im_todo im) then
        if im_shutdown im \<or> \<not> wait then Some (im, - 1, 0) else None
      else
        let (sender, ring) = ring_pop (im_nodes im) (im_todo im);
            retval = heads im ! sender
        in Some (im\<lparr>im_todo := ring, heads := (heads im)[sender := 0], tails := (tails im)[sender := 0]\<rparr>,
                 int sender, retval))"

text \<open>
  The inner loop of \<^verbatim>\<open>handler_thread_loop\<close>: read \<^verbatim>\<open>next_msg\<close>, run the handler, delete the
  message, go on.  The loop follows pointers, so it takes fuel; the result is the messages in
  the order they are handled, \<open>None\<close> when the fuel runs out.
\<close>

fun handle_chain :: "next_store \<Rightarrow> nat \<Rightarrow> msgptr \<Rightarrow> msgptr list option" where
  "handle_chain nxt fuel current_msg =
     (if current_msg = 0 then Some []
      else case fuel of
        0 \<Rightarrow> None
      | Suc fuel' \<Rightarrow>
          let next_msg = nxt current_msg
          in map_option (\<lambda>ms. current_msg # ms) (handle_chain nxt fuel' next_msg))"

declare handle_chain.simps [simp del]

section \<open>Linked lists\<close>

fun chain :: "next_store \<Rightarrow> msgptr \<Rightarrow> msgptr list \<Rightarrow> bool" where
  "chain nxt p [] = (p = 0)"
| "chain nxt p (m # ms) = (p = m \<and> m \<noteq> 0 \<and> chain nxt (nxt m) ms)"

lemma chain_frame: "m \<notin> set ms \<Longrightarrow> chain (nxt(m := x)) p ms = chain nxt p ms"
  by (induction ms arbitrary: p) auto

lemma chain_snoc:
  assumes "chain nxt p ms" and "ms \<noteq> []" and "distinct ms" and "x \<noteq> 0" and "nxt x = 0" and "x \<notin> set ms"
  shows "chain (nxt(last ms := x)) p (ms @ [x])"
  using assms
proof (induction ms arbitrary: p)
  case (Cons m ms)
  show ?case
  proof (cases "ms = []")
    case False
    with Cons.prems have "last ms \<noteq> m" using last_in_set by fastforce
    with Cons False show ?thesis by auto
  qed (use Cons in auto)
qed simp

lemma chain_head_zero: "chain nxt p ms \<Longrightarrow> (p = 0) = (ms = [])"
  by (cases ms) auto

lemma handle_chain_chain: "chain nxt p ms \<Longrightarrow> length ms \<le> fuel \<Longrightarrow> handle_chain nxt fuel p = Some ms"
proof (induction ms arbitrary: p fuel)
  case Nil
  then show ?case by (subst handle_chain.simps) simp
next
  case (Cons m ms)
  then obtain f where f: "fuel = Suc f" "length ms \<le> f" by (cases fuel) auto
  from Cons.prems(1) f Cons.IH [of "nxt m" f] show ?case by (subst handle_chain.simps) simp
qed

section \<open>Refinement to one queue per sender\<close>

text \<open>
  \<open>im_rel im nxt qs todo\<close>: sender \<open>s\<close> has the messages \<open>qs s\<close> waiting, in order, and
  \<open>todo\<close> is the order in which senders will be served.
\<close>

definition im_rel ::
  "IncomingMessageManager \<Rightarrow> next_store \<Rightarrow> (nat \<Rightarrow> msgptr list) \<Rightarrow> nat list \<Rightarrow> bool" where
  "im_rel im nxt qs todo \<longleftrightarrow>
     length (heads im) = im_nodes im \<and> length (tails im) = im_nodes im \<and>
     (\<forall>s < im_nodes im. chain nxt (heads im ! s) (qs s) \<and> distinct (qs s) \<and>
        tails im ! s = (if qs s = [] then 0 else last (qs s))) \<and>
     (\<forall>s t. s \<noteq> t \<longrightarrow> set (qs s) \<inter> set (qs t) = {}) \<and>
     ring_ok (im_nodes im) (im_todo im) \<and> ring_abs (im_nodes im) (im_todo im) = todo \<and>
     distinct todo \<and> (\<forall>s. s \<in> set todo \<longleftrightarrow> qs s \<noteq> []) \<and> set todo \<subseteq> {..< im_nodes im}"

lemma im_rel_new: "im_rel (IncomingMessageManager_construct n) nxt (\<lambda>_. []) []"
  by (simp add: im_rel_def IncomingMessageManager_construct_def ring_new_ok)

lemma im_rel_add:
  assumes R: "im_rel im nxt qs todo" and s: "sender < im_nodes im"
    and m: "msg \<noteq> 0" "nxt msg = 0" "\<forall>t. msg \<notin> set (qs t)"
  obtains im' nxt' b where "add_incoming_message im nxt sender msg = Inr (im', nxt', b)"
    "im_rel im' nxt' (qs(sender := qs sender @ [msg])) (if qs sender = [] then todo @ [sender] else todo)"
    "im_nodes im' = im_nodes im" "\<And>x. (\<forall>t. x \<notin> set (qs t)) \<Longrightarrow> nxt' x = nxt x"
proof (cases "qs sender = []")
  case True
  have h: "heads im ! sender = 0" using R s True by (auto simp: im_rel_def dest: chain_head_zero)
  have nin: "sender \<notin> set todo" using R True by (auto simp: im_rel_def)
  from R have ring: "ring_ok (im_nodes im) (im_todo im)" "ring_abs (im_nodes im) (im_todo im) = todo"
    "distinct todo" "set todo \<subseteq> {..< im_nodes im}" by (auto simp: im_rel_def)
  obtain r where r: "ring_push (im_nodes im) (im_todo im) sender = Inr r" "ring_ok (im_nodes im) r"
    "ring_abs (im_nodes im) r = todo @ [sender]"
    using ring.push_distinct [OF ring(1), of sender] ring nin s by metis
  let ?im = "im\<lparr>heads := (heads im)[sender := msg], tails := (tails im)[sender := msg], im_todo := r\<rparr>"
  have "add_incoming_message im nxt sender msg = Inr (?im, nxt, True)"
    using s h r by (simp add: add_incoming_message_def)
  moreover have "im_rel ?im nxt (qs(sender := qs sender @ [msg])) (todo @ [sender])"
    using R s m r nin True by (auto simp: im_rel_def nth_list_update)
  ultimately show ?thesis using that True by simp
next
  case False
  have h: "heads im ! sender \<noteq> 0" "tails im ! sender = last (qs sender)" "last (qs sender) \<noteq> 0"
  proof -
    have c: "chain nxt (heads im ! sender) (qs sender)" "tails im ! sender = last (qs sender)"
      using R s False by (auto simp: im_rel_def)
    moreover have "0 \<notin> set ms" if "chain nxt p ms" for p ms
      using that by (induction ms arbitrary: p) auto
    ultimately show "heads im ! sender \<noteq> 0" "tails im ! sender = last (qs sender)" "last (qs sender) \<noteq> 0"
      using False chain_head_zero [OF c(1)] last_in_set [OF False] by metis+
  qed
  let ?im = "im\<lparr>tails := (tails im)[sender := msg]\<rparr>" and ?nxt = "nxt(last (qs sender) := msg)"
  have oth: "last (qs sender) \<notin> set (qs t)" if "t \<noteq> sender" for t
    using R that last_in_set [OF False] by (auto simp: im_rel_def disjoint_iff)
  have "chain ?nxt (heads im ! t) ((qs(sender := qs sender @ [msg])) t)" if "t < im_nodes im" for t
    using R that s m False oth chain_snoc [of nxt "heads im ! sender" "qs sender" msg]
    by (cases "t = sender") (auto simp: im_rel_def chain_frame)
  then have "im_rel ?im ?nxt (qs(sender := qs sender @ [msg])) todo"
    using R s m(3) False by (auto simp: im_rel_def nth_list_update)
  moreover have "add_incoming_message im nxt sender msg = Inr (?im, ?nxt, False)"
    using s h by (simp add: add_incoming_message_def)
  moreover have "?nxt x = nxt x" if "\<forall>t. x \<notin> set (qs t)" for x
    using that last_in_set [OF False] by auto
  ultimately show ?thesis using that False by simp
qed

lemma im_rel_get:
  assumes R: "im_rel im nxt qs (s # rest)"
  obtains im' where "get_messages im wait = Some (im', int s, heads im ! s)"
    "im_rel im' nxt (qs(s := [])) rest" "im_nodes im' = im_nodes im"
    "chain nxt (heads im ! s) (qs s)" "qs s \<noteq> []"
proof -
  from R have ring: "ring_ok (im_nodes im) (im_todo im)" "ring_abs (im_nodes im) (im_todo im) = s # rest"
    and s: "s < im_nodes im" by (auto simp: im_rel_def)
  have ne: "\<not> ring_empty (im_todo im)" using ring.empty_abs [OF ring(1)] ring(2) by simp
  obtain r where r: "ring_pop (im_nodes im) (im_todo im) = (s, r)" "ring_ok (im_nodes im) r"
    "ring_abs (im_nodes im) r = rest"
    using ring.pop_ok [OF ring(1)] ring(2) by (metis list.sel(1,3) list.distinct(1) prod.collapse)
  let ?im = "im\<lparr>im_todo := r, heads := (heads im)[s := 0], tails := (tails im)[s := 0]\<rparr>"
  have "get_messages im wait = Some (?im, int s, heads im ! s)" using ne r by (simp add: get_messages_def)
  moreover have "im_rel ?im nxt (qs(s := [])) rest"
    using R r s by (auto simp: im_rel_def nth_list_update)
  moreover have "chain nxt (heads im ! s) (qs s)" "qs s \<noteq> []" using R s by (auto simp: im_rel_def)
  ultimately show ?thesis using that by simp
qed

section \<open>Arrivals and handler threads\<close>

text \<open>
  The manager of a machine with \<open>n\<close> nodes, with the history of the messages that arrived from
  each sender and of those that handler threads have taken and handled.  A new message object
  has a null \<^verbatim>\<open>next_msg\<close> and an address no earlier message had.
\<close>

record im_state =
  st_im :: IncomingMessageManager
  st_next :: next_store
  st_sent :: "nat \<Rightarrow> msgptr list"
  st_taken :: "nat \<Rightarrow> msgptr list"

definition im_init :: "nat \<Rightarrow> im_state \<Rightarrow> bool" where
  "im_init n st \<longleftrightarrow> st_im st = IncomingMessageManager_construct n \<and> st_sent st = (\<lambda>_. []) \<and> st_taken st = (\<lambda>_. [])"

definition fresh_msg :: "im_state \<Rightarrow> msgptr \<Rightarrow> bool" where
  "fresh_msg st msg \<longleftrightarrow> msg \<noteq> 0 \<and> (\<forall>t. msg \<notin> set (st_sent st t))"

inductive im_step :: "im_state \<Rightarrow> im_state \<Rightarrow> bool" where
  im_arrive:
    "\<lbrakk>fresh_msg st msg;
      add_incoming_message (st_im st) ((st_next st)(msg := 0)) sender msg = Inr (im', nxt', b)\<rbrakk>
     \<Longrightarrow> im_step st (st\<lparr>st_im := im', st_next := nxt',
                        st_sent := (st_sent st)(sender := st_sent st sender @ [msg])\<rparr>)"
| im_handle:
    "\<lbrakk>get_messages (st_im st) wait = Some (im', int s, p); handle_chain (st_next st) fuel p = Some batch\<rbrakk>
     \<Longrightarrow> im_step st (st\<lparr>st_im := im', st_taken := (st_taken st)(s := st_taken st s @ batch)\<rparr>)"
| im_stop:
    "im_step st (st\<lparr>st_im := im_set_shutdown (st_im st)\<rparr>)"

definition im_inv :: "nat \<Rightarrow> im_state \<Rightarrow> bool" where
  "im_inv n st \<longleftrightarrow> im_nodes (st_im st) = n \<and>
     (\<exists>qs todo. im_rel (st_im st) (st_next st) qs todo \<and> (\<forall>s. st_sent st s = st_taken st s @ qs s))"

lemma im_rel_next_fresh:
  assumes "im_rel im nxt qs todo" and "\<forall>t. x \<notin> set (qs t)"
  shows "im_rel im (nxt(x := y)) qs todo"
  using assms by (simp add: im_rel_def chain_frame)

lemma get_messages_idle:
  "get_messages im wait = Some (im', sender, p) \<Longrightarrow> ring_empty (im_todo im) \<Longrightarrow> sender = - 1 \<and> p = 0 \<and> im' = im"
  by (auto simp: get_messages_def split: if_splits)

lemma handle_chain_eq:
  assumes "chain nxt p ms" and "handle_chain nxt fuel p = Some batch"
  shows "batch = ms"
  using assms
proof (induction nxt fuel p arbitrary: ms batch rule: handle_chain.induct)
  case (1 nxt fuel p)
  show ?case
  proof (cases ms)
    case Nil
    with "1.prems" show ?thesis by (subst (asm) handle_chain.simps) simp
  next
    case (Cons m ms')
    with "1.prems" have p: "p = m" "m \<noteq> 0" "chain nxt (nxt m) ms'" by auto
    then obtain f b where "fuel = Suc f" "handle_chain nxt f (nxt m) = Some b" "batch = m # b"
      using "1.prems"(2) by (subst (asm) handle_chain.simps) (auto split: nat.splits)
    with p "1.IH" Cons show ?thesis by auto
  qed
qed

lemma im_inv_init: "im_init n st \<Longrightarrow> im_inv n st"
  unfolding im_init_def im_inv_def
  by (intro conjI exI [of _ "\<lambda>_. []"] exI [of _ "[]"])
    (simp_all add: im_rel_new, simp add: IncomingMessageManager_construct_def)

lemma fresh_not_queued: "fresh_msg st x \<Longrightarrow> \<forall>s. st_sent st s = st_taken st s @ qs s \<Longrightarrow> x \<notin> set (qs t)"
  by (auto simp: fresh_msg_def)

lemma arrive_succeeds:
  assumes inv: "im_inv n st" and fr: "fresh_msg st msg" and s: "sender < n"
  obtains im' nxt' b where
    "add_incoming_message (st_im st) ((st_next st)(msg := 0)) sender msg = Inr (im', nxt', b)"
    "im_inv n (st\<lparr>st_im := im', st_next := nxt', st_sent := (st_sent st)(sender := st_sent st sender @ [msg])\<rparr>)"
proof -
  from inv obtain qs todo where R: "im_rel (st_im st) (st_next st) qs todo"
    and q: "\<forall>s. st_sent st s = st_taken st s @ qs s" and n: "im_nodes (st_im st) = n"
    by (auto simp: im_inv_def)
  have nq: "\<forall>t. msg \<notin> set (qs t)" using fresh_not_queued [OF fr q] by blast
  have s': "sender < im_nodes (st_im st)" using s n by simp
  have m: "msg \<noteq> 0" using fr by (simp add: fresh_msg_def)
  obtain im' nxt' b where a:
    "add_incoming_message (st_im st) ((st_next st)(msg := 0)) sender msg = Inr (im', nxt', b)"
    "im_rel im' nxt' (qs(sender := qs sender @ [msg])) (if qs sender = [] then todo @ [sender] else todo)"
    "im_nodes im' = im_nodes (st_im st)"
    by (rule im_rel_add [OF im_rel_next_fresh [OF R nq, of 0] s' m _ nq]) auto
  have "im_inv n (st\<lparr>st_im := im', st_next := nxt', st_sent := (st_sent st)(sender := st_sent st sender @ [msg])\<rparr>)"
    unfolding im_inv_def using a(2,3) n q by (intro conjI exI) auto
  with that a(1) show ?thesis by blast
qed

lemma handle_keeps:
  assumes inv: "im_inv n st" and g: "get_messages (st_im st) wait = Some (im', int s, p)"
    and h: "handle_chain (st_next st) fuel p = Some batch"
  shows "im_inv n (st\<lparr>st_im := im', st_taken := (st_taken st)(s := st_taken st s @ batch)\<rparr>)"
proof -
  from inv obtain qs todo where R: "im_rel (st_im st) (st_next st) qs todo"
    and q: "\<forall>s. st_sent st s = st_taken st s @ qs s" and n: "im_nodes (st_im st) = n"
    by (auto simp: im_inv_def)
  have ok: "ring_ok (im_nodes (st_im st)) (im_todo (st_im st))"
    "ring_abs (im_nodes (st_im st)) (im_todo (st_im st)) = todo" using R by (auto simp: im_rel_def)
  have "\<not> ring_empty (im_todo (st_im st))" using get_messages_idle [OF g] by auto
  then obtain t rest where td: "todo = t # rest" using ring.empty_abs [OF ok(1)] ok(2) by (cases todo) auto
  obtain im'' where i: "get_messages (st_im st) wait = Some (im'', int t, heads (st_im st) ! t)"
    "im_rel im'' (st_next st) (qs(t := [])) rest" "im_nodes im'' = im_nodes (st_im st)"
    "chain (st_next st) (heads (st_im st) ! t) (qs t)"
    by (rule im_rel_get [OF R [unfolded td]])
  have e: "im'' = im'" "t = s" "p = heads (st_im st) ! t" using i(1) g by auto
  have "batch = qs t" using handle_chain_eq [OF i(4)] h e by simp
  with i e q n show ?thesis
    unfolding im_inv_def by (intro conjI exI [of _ "qs(t := [])"] exI [of _ rest]) auto
qed

lemma im_inv_step:
  assumes inv: "im_inv n st" and st: "im_step st st'"
  shows "im_inv n st'"
  using st
proof cases
  case (im_arrive msg sender im' nxt' b)
  have "sender < n"
    using im_arrive(3) inv by (auto simp: add_incoming_message_def im_inv_def split: if_splits)
  from arrive_succeeds [OF inv im_arrive(2) this] im_arrive(1,3) show ?thesis
    by (metis Inr_inject prod.inject)
next
  case (im_handle wait im' s p fuel batch)
  with handle_keeps [OF inv] show ?thesis by blast
next
  case im_stop
  have "im_rel (im_set_shutdown im) nxt qs todo = im_rel im nxt qs todo" for im nxt qs todo
    by (simp add: im_rel_def im_set_shutdown_def)
  moreover have "im_nodes (im_set_shutdown im) = im_nodes im" for im by (simp add: im_set_shutdown_def)
  ultimately show ?thesis using inv im_stop by (simp add: im_inv_def)
qed

interpretation im_sys: step_system "im_init n" im_step "im_inv n" for n
  by unfold_locales (rule im_inv_init im_inv_step; assumption)+

text \<open>Example: two nodes, two messages from node 1.\<close>

definition im_demo :: "nat \<Rightarrow> im_state" where
  "im_demo k =
     (let a = \<lparr>st_im = IncomingMessageManager_construct 2, st_next = (\<lambda>_. 0), st_sent = (\<lambda>_. []), st_taken = (\<lambda>_. [])\<rparr>;
          add = (\<lambda>st m. case projr (add_incoming_message (st_im st) ((st_next st)(m := 0)) 1 m) of
                   (im', nxt', b) \<Rightarrow> st\<lparr>st_im := im', st_next := nxt',
                     st_sent := (st_sent st)(1 := st_sent st 1 @ [m])\<rparr>)
      in if k = 0 then a else if k = 1 then add a 5 else add (add a 5) 6)"

lemma im_demo_reached: "reaches (im_init 2) im_step (im_demo 2)"
proof -
  have 0: "reaches (im_init 2) im_step (im_demo 0)"
    by (rule reaches_init) (simp add: im_init_def im_demo_def)
  have 1: "reaches (im_init 2) im_step (im_demo 1)"
  proof (rule reaches_step [OF 0])
    show "im_step (im_demo 0) (im_demo 1)"
      using im_arrive [of "im_demo 0" 5 1 _ _ True]
      by (simp add: im_demo_def fresh_msg_def add_incoming_message_def IncomingMessageManager_construct_def
          ring_new_def ring_push_def Let_def numeral_2_eq_2)
  qed
  show ?thesis
  proof (rule reaches_step [OF 1])
    show "im_step (im_demo 1) (im_demo 2)"
      using im_arrive [of "im_demo 1" 6 1 _ _ False]
      by (simp add: im_demo_def fresh_msg_def add_incoming_message_def IncomingMessageManager_construct_def
          ring_new_def ring_push_def Let_def numeral_2_eq_2)
  qed
qed

section \<open>Properties\<close>

text \<open>
  C6. Messages of one sender are taken by the handler threads in the order they arrived, none lost and none twice,
  whatever the interleaving of arrivals and handler threads: what has been taken is always a
  prefix of what arrived, and when the todo ring is empty it is all of it.
\<close>

theorem incoming_fifo_per_sender:
  assumes "reaches (im_init n) im_step st"
  shows "(\<exists>waiting. st_sent st s = st_taken st s @ waiting) \<and>
     (ring_empty (im_todo (st_im st)) \<longrightarrow> st_taken st s = st_sent st s)"
proof -
  from im_sys.inv_reaches [OF assms] obtain qs todo where R: "im_rel (st_im st) (st_next st) qs todo"
    and q: "\<forall>s. st_sent st s = st_taken st s @ qs s" by (auto simp: im_inv_def)
  have "qs s = []" if "ring_empty (im_todo (st_im st))"
    using that R ring.empty_abs [of "im_nodes (st_im st)" "im_todo (st_im st)"] by (auto simp: im_rel_def)
  with q show ?thesis by auto
qed

theorem incoming_fifo_per_sender_witness:
  "\<exists>waiting. st_sent (im_demo 2) 1 = st_taken (im_demo 2) 1 @ waiting"
  using incoming_fifo_per_sender [OF im_demo_reached, of 1] by blast

text \<open>
  The assertions of the incoming manager never fail: in every reachable state a message
  from any node of the machine can be added (the tail of a non-empty list is never null and the
  todo ring never wraps), and while a message is waiting a handler thread that asks for messages
  gets a non-empty chain that ends, without sleeping.
\<close>

theorem incoming_never_stuck:
  assumes "reaches (im_init n) im_step st" and "sender < n" and "fresh_msg st msg"
  shows "(\<exists>im' nxt' b. add_incoming_message (st_im st) ((st_next st)(msg := 0)) sender msg = Inr (im', nxt', b)) \<and>
     (st_taken st s \<noteq> st_sent st s \<longrightarrow>
        (\<exists>im' t p ms. get_messages (st_im st) wait = Some (im', int t, p) \<and> ms \<noteq> [] \<and>
           handle_chain (st_next st) (length ms) p = Some ms))"
proof (intro conjI impI)
  have inv: "im_inv n st" using im_sys.inv_reaches [OF assms(1)] .
  show "\<exists>im' nxt' b. add_incoming_message (st_im st) ((st_next st)(msg := 0)) sender msg = Inr (im', nxt', b)"
    using arrive_succeeds [OF inv assms(3,2)] by metis
  assume w: "st_taken st s \<noteq> st_sent st s"
  from inv obtain qs todo where R: "im_rel (st_im st) (st_next st) qs todo"
    and q: "\<forall>s. st_sent st s = st_taken st s @ qs s" by (auto simp: im_inv_def)
  from w q have "qs s \<noteq> []" by auto
  with R obtain t rest where td: "todo = t # rest" by (cases todo) (auto simp: im_rel_def)
  from im_rel_get [OF R [unfolded td], of wait] handle_chain_chain
  show "\<exists>im' t p ms. get_messages (st_im st) wait = Some (im', int t, p) \<and> ms \<noteq> [] \<and>
      handle_chain (st_next st) (length ms) p = Some ms" by (metis order_refl)
qed

theorem incoming_never_stuck_witness:
  "\<exists>im' nxt' b. add_incoming_message (st_im (im_demo 2)) ((st_next (im_demo 2))(9 := 0)) 0 9 = Inr (im', nxt', b)"
proof -
  have "fresh_msg (im_demo 2) 9"
    by (simp add: im_demo_def fresh_msg_def add_incoming_message_def IncomingMessageManager_construct_def
        ring_new_def ring_push_def Let_def numeral_2_eq_2)
  from incoming_never_stuck [OF im_demo_reached _ this, of 0] show ?thesis by simp
qed

end
