(* ===== verification/Handler_Threads.thy ===== *)
theory Handler_Threads
  imports Incoming_Manager "HOL-Library.Multiset"
begin

text \<open>
  The handler threads of the \<^verbatim>\<open>IncomingMessageManager\<close> (\<^verbatim>\<open>src/templates/activemsg.cc\<close>): any number of threads
  run \<^verbatim>\<open>handler_thread_loop\<close>, sleeping in \<^verbatim>\<open>get_messages\<close> while nothing is to do; arriving messages and the shutdown
  wake them.  A critical section is one step, running one handler is another, and the steps of threads and
  arrivals interleave freely.  Threads that sleep may wake up without reason.
\<close>

section \<open>Threads\<close>

text \<open>
  Where a thread is in its loop: about to call \<^verbatim>\<open>get_messages\<close>, asleep in it, running the handlers of a
  batch, or returned.
\<close>

datatype hthread = Ready | Asleep | Busy nat "msgptr list" | Finished

record ht_state =
  hs_im :: im_state
  hs_threads :: "hthread list"
  hs_handled :: "nat \<Rightarrow> msgptr list"

fun wake :: "hthread \<Rightarrow> hthread" where
  "wake Asleep = Ready"
| "wake t = t"

definition start_handler_threads :: "nat \<Rightarrow> im_state \<Rightarrow> ht_state" where
  "start_handler_threads k im = \<lparr>hs_im = im, hs_threads = replicate k Ready, hs_handled = (\<lambda>_. [])\<rparr>"

text \<open>\<open>get_messages\<close> by thread \<open>i\<close>; the chain of a sender is no longer than all it sent.\<close>

definition call_get_messages :: "nat \<Rightarrow> ht_state \<Rightarrow> ht_state option" where
  "call_get_messages i s =
     (case get_messages (st_im (hs_im s)) True of
        None \<Rightarrow> Some (s\<lparr>hs_threads := (hs_threads s)[i := Asleep]\<rparr>)
      | Some (im', sender, p) \<Rightarrow>
          if p = 0 then Some (s\<lparr>hs_threads := (hs_threads s)[i := Finished]\<rparr>)
          else case handle_chain (st_next (hs_im s)) (length (st_sent (hs_im s) (nat sender))) p of
                 None \<Rightarrow> None
               | Some batch \<Rightarrow>
                   Some (s\<lparr>hs_im := (hs_im s)\<lparr>st_im := im',
                             st_taken := (st_taken (hs_im s))(nat sender := st_taken (hs_im s) (nat sender) @ batch)\<rparr>,
                           hs_threads := (hs_threads s)[i := Busy (nat sender) batch]\<rparr>))"

definition run_one_handler :: "nat \<Rightarrow> nat \<Rightarrow> msgptr list \<Rightarrow> ht_state \<Rightarrow> ht_state" where
  "run_one_handler i sender batch s =
     (case batch of
        [] \<Rightarrow> s\<lparr>hs_threads := (hs_threads s)[i := Ready]\<rparr>
      | m # ms \<Rightarrow> s\<lparr>hs_threads := (hs_threads s)[i := Busy sender ms],
                    hs_handled := (hs_handled s)(sender := hs_handled s sender @ [m])\<rparr>)"

definition handler_step :: "nat \<Rightarrow> ht_state \<Rightarrow> ht_state option" where
  "handler_step i s =
     (if i < length (hs_threads s) then
        case hs_threads s ! i of
          Ready \<Rightarrow> call_get_messages i s
        | Busy sender batch \<Rightarrow> Some (run_one_handler i sender batch s)
        | _ \<Rightarrow> None
      else None)"

text \<open>
  A message arrives, from within a poll; the manager is shut down.  \<^verbatim>\<open>stop_activemsg_threads\<close> joins the polling threads
  before it shuts the manager down, so nothing arrives after that.
\<close>

definition arrive :: "nat \<Rightarrow> msgptr \<Rightarrow> ht_state \<Rightarrow> ht_state outcome" where
  "arrive sender msg s =
     obind (add_incoming_message (st_im (hs_im s)) ((st_next (hs_im s))(msg := 0)) sender msg) (\<lambda>(im', nxt', b).
       Inr (s\<lparr>hs_im := (hs_im s)\<lparr>st_im := im', st_next := nxt',
                 st_sent := (st_sent (hs_im s))(sender := st_sent (hs_im s) sender @ [msg])\<rparr>,
              hs_threads := (if b then map wake (hs_threads s) else hs_threads s)\<rparr>))"

definition shutdown_manager :: "ht_state \<Rightarrow> ht_state" where
  "shutdown_manager s =
     s\<lparr>hs_im := (hs_im s)\<lparr>st_im := im_set_shutdown (st_im (hs_im s))\<rparr>,
       hs_threads := (if im_shutdown (st_im (hs_im s)) then hs_threads s else map wake (hs_threads s))\<rparr>"

inductive ht_step :: "nat \<Rightarrow> ht_state \<Rightarrow> ht_state \<Rightarrow> bool" for n where
  ht_thread: "handler_step i s = Some t \<Longrightarrow> ht_step n s t"
| ht_arrive: "\<not> im_shutdown (st_im (hs_im s)) \<Longrightarrow> fresh_msg (hs_im s) msg \<Longrightarrow> sender < n \<Longrightarrow> arrive sender msg s = Inr t \<Longrightarrow> ht_step n s t"
| ht_stop: "ht_step n s (shutdown_manager s)"
| ht_spurious: "i < length (hs_threads s) \<Longrightarrow> ht_step n s (s\<lparr>hs_threads := (hs_threads s)[i := wake (hs_threads s ! i)]\<rparr>)"

fun handler_run :: "nat list \<Rightarrow> ht_state \<Rightarrow> ht_state option" where
  "handler_run [] s = Some s"
| "handler_run (i # sched) s = (case handler_step i s of None \<Rightarrow> None | Some t \<Rightarrow> handler_run sched t)"

definition ht_init :: "nat \<Rightarrow> nat \<Rightarrow> ht_state \<Rightarrow> bool" where
  "ht_init n k s \<longleftrightarrow> (\<exists>im. im_init n im \<and> \<not> im_shutdown (st_im im) \<and> s = start_handler_threads k im)"

section \<open>Invariant\<close>

fun left_of :: "nat \<Rightarrow> hthread \<Rightarrow> msgptr list" where
  "left_of s (Busy t ms) = (if t = s then ms else [])"
| "left_of s _ = []"

definition idle :: "ht_state \<Rightarrow> bool" where
  "idle s \<longleftrightarrow> ring_empty (im_todo (st_im (hs_im s)))"

definition ht_inv :: "nat \<Rightarrow> nat \<Rightarrow> ht_state \<Rightarrow> bool" where
  "ht_inv n k s \<longleftrightarrow> im_inv n (hs_im s) \<and> length (hs_threads s) = k \<and>
     (Asleep \<in> set (hs_threads s) \<longrightarrow> idle s \<and> \<not> im_shutdown (st_im (hs_im s))) \<and>
     (Finished \<in> set (hs_threads s) \<longrightarrow> idle s \<and> im_shutdown (st_im (hs_im s))) \<and>
     (\<forall>t. mset (hs_handled s t) + mset (concat (map (left_of t) (hs_threads s))) = mset (st_taken (hs_im s) t)) \<and>
     (k = 1 \<longrightarrow> (\<forall>t. hs_handled s t @ concat (map (left_of t) (hs_threads s)) = st_taken (hs_im s) t))"

lemma mset_concat_update:
  assumes "i < length xs"
  shows "mset (concat (map f (xs[i := y]))) + mset (f (xs ! i)) = mset (concat (map f xs)) + mset (f y)"
  using assms by (induction xs arbitrary: i) (auto split: nat.splits)

lemma left_of_wake [simp]: "left_of t (wake x) = left_of t x"
  by (cases x) auto

lemma wake_iff [simp]: "wake x \<noteq> Asleep" "wake x = Finished \<longleftrightarrow> x = Finished" "Finished = wake x \<longleftrightarrow> x = Finished" "Asleep \<noteq> wake x"
  by (cases x; simp)+

text \<open>What \<open>get_messages\<close> finds.\<close>

lemma get_messages_cases [consumes 1, case_names sleeps stops takes]:
  assumes inv: "im_inv n st"
  obtains (sleeps) "get_messages (st_im st) True = None" "ring_empty (im_todo (st_im st))" "\<not> im_shutdown (st_im st)"
  | (stops) "get_messages (st_im st) True = Some (st_im st, - 1, 0)" "ring_empty (im_todo (st_im st))" "im_shutdown (st_im st)"
  | (takes) im' t p ms where "get_messages (st_im st) True = Some (im', int t, p)" "\<not> ring_empty (im_todo (st_im st))" "p \<noteq> 0"
      "handle_chain (st_next st) (length (st_sent st t)) p = Some ms" "ms \<noteq> []" "im_shutdown im' = im_shutdown (st_im st)" "t < n"
proof (cases "ring_empty (im_todo (st_im st))")
  case True
  then show ?thesis using sleeps stops by (auto simp: get_messages_def)
next
  case False
  from inv obtain qs todo where R: "im_rel (st_im st) (st_next st) qs todo"
    and q: "\<forall>s. st_sent st s = st_taken st s @ qs s" and n: "im_nodes (st_im st) = n" by (auto simp: im_inv_def)
  with False obtain t rest where td: "todo = t # rest"
    using ring.empty_abs [of "im_nodes (st_im st)" "im_todo (st_im st)"] by (cases todo) (auto simp: im_rel_def)
  obtain im' where g: "get_messages (st_im st) True = Some (im', int t, heads (st_im st) ! t)"
    "chain (st_next st) (heads (st_im st) ! t) (qs t)" "qs t \<noteq> []"
    by (rule im_rel_get [OF R [unfolded td]])
  have "handle_chain (st_next st) (length (st_sent st t)) (heads (st_im st) ! t) = Some (qs t)"
    using handle_chain_chain [OF g(2)] q by simp
  moreover have "im_shutdown im' = im_shutdown (st_im st)" using g(1) by (auto simp: get_messages_def Let_def split: if_splits prod.splits)
  moreover have "t < n" using R td n by (auto simp: im_rel_def)
  ultimately show ?thesis using takes [OF g(1) False] g(3) chain_head_zero [OF g(2)] by auto
qed

text \<open>Without messages waiting, the next one to arrive wakes the sleepers.\<close>

lemma arrival_wakes:
  assumes "im_inv n st" and "ring_empty (im_todo (st_im st))" and "add_incoming_message (st_im st) nxt sender msg = Inr (im', nxt', b)"
  shows "b"
proof -
  from assms(1) obtain qs todo where R: "im_rel (st_im st) (st_next st) qs todo" by (auto simp: im_inv_def)
  then have "todo = []" using assms(2) ring.empty_abs [of "im_nodes (st_im st)" "im_todo (st_im st)"] by (auto simp: im_rel_def)
  then have "qs sender = []" using R by (auto simp: im_rel_def)
  then have "sender < im_nodes (st_im st) \<Longrightarrow> heads (st_im st) ! sender = 0" using R by (auto simp: im_rel_def)
  with assms(3) show ?thesis by (auto simp: add_incoming_message_def obind_Inr_iff split: if_splits)
qed

lemma map_update_same: "f y = f (xs ! i) \<Longrightarrow> map f (xs[i := y]) = map f xs"
  by (metis list_update_id map_update)

lemma ht_inv_same:
  assumes "ht_inv n k s" and "i < length (hs_threads s)" and "\<And>t. left_of t y = left_of t (hs_threads s ! i)"
    and "y = Asleep \<Longrightarrow> idle s \<and> \<not> im_shutdown (st_im (hs_im s))" and "y = Finished \<Longrightarrow> idle s \<and> im_shutdown (st_im (hs_im s))"
  shows "ht_inv n k (s\<lparr>hs_threads := (hs_threads s)[i := y]\<rparr>)"
proof -
  have "Asleep \<in> set ((hs_threads s)[i := y]) \<Longrightarrow> Asleep \<in> set (hs_threads s) \<or> y = Asleep"
    "Finished \<in> set ((hs_threads s)[i := y]) \<Longrightarrow> Finished \<in> set (hs_threads s) \<or> y = Finished"
    using set_update_subset_insert [of "hs_threads s" i y] by auto
  with assms show ?thesis by (auto simp: ht_inv_def idle_def map_update_same)
qed

lemma single_thread: "ht_inv n k s \<Longrightarrow> k = 1 \<Longrightarrow> \<exists>x. hs_threads s = [x]"
  unfolding ht_inv_def by (cases "hs_threads s") simp_all

lemma take_batch_inv:
  assumes inv: "ht_inv n k s" and i: "i < length (hs_threads s)" "hs_threads s ! i = Ready"
  shows "\<exists>t. call_get_messages i s = Some t \<and> ht_inv n k t"
proof -
  have im: "im_inv n (hs_im s)" using inv by (simp add: ht_inv_def)
  from im show ?thesis
  proof (cases rule: get_messages_cases)
    case sleeps
    with ht_inv_same [OF inv i(1), of Asleep] i(2) show ?thesis by (simp add: call_get_messages_def idle_def)
  next
    case stops
    with ht_inv_same [OF inv i(1), of Finished] i(2) show ?thesis by (simp add: call_get_messages_def idle_def)
  next
    case (takes im' u p ms)
    let ?st = "(hs_im s)\<lparr>st_im := im', st_taken := (st_taken (hs_im s))(u := st_taken (hs_im s) u @ ms)\<rparr>"
    let ?t = "s\<lparr>hs_im := ?st, hs_threads := (hs_threads s)[i := Busy u ms]\<rparr>"
    have call: "call_get_messages i s = Some ?t" using takes by (simp add: call_get_messages_def)
    have "im_inv n ?st" by (rule handle_keeps [OF im takes(1,4)])
    moreover have "Asleep \<notin> set ((hs_threads s)[i := Busy u ms])" "Finished \<notin> set ((hs_threads s)[i := Busy u ms])"
      using inv takes(2) set_update_subset_insert [of "hs_threads s" i "Busy u ms"] by (auto simp: ht_inv_def idle_def)
    moreover have "mset (hs_handled s v) + mset (concat (map (left_of v) ((hs_threads s)[i := Busy u ms]))) = mset (st_taken ?st v)" for v
    proof -
      have "mset (concat (map (left_of v) ((hs_threads s)[i := Busy u ms]))) =
          mset (concat (map (left_of v) (hs_threads s))) + mset (if u = v then ms else [])"
        using mset_concat_update [OF i(1), of "left_of v" "Busy u ms"] i(2) by simp
      moreover have "mset (hs_handled s v) + mset (concat (map (left_of v) (hs_threads s))) = mset (st_taken (hs_im s) v)"
        using inv by (simp add: ht_inv_def)
      ultimately show ?thesis by (auto simp: add.assoc [symmetric])
    qed
    moreover have "hs_handled s v @ concat (map (left_of v) ((hs_threads s)[i := Busy u ms])) = st_taken ?st v" if "k = 1" for v
    proof -
      obtain x where "hs_threads s = [x]" using single_thread [OF inv \<open>k = 1\<close>] by blast
      with i inv that show ?thesis by (auto simp: ht_inv_def)
    qed
    ultimately have "ht_inv n k ?t" using inv by (simp add: ht_inv_def)
    with call show ?thesis by blast
  qed
qed

lemma run_handler_inv:
  assumes inv: "ht_inv n k s" and i: "i < length (hs_threads s)" "hs_threads s ! i = Busy u batch"
  shows "ht_inv n k (run_one_handler i u batch s)"
proof (cases batch)
  case Nil
  with ht_inv_same [OF inv i(1), of Ready] i(2) show ?thesis by (simp add: run_one_handler_def)
next
  case (Cons m ms)
  let ?ts = "(hs_threads s)[i := Busy u ms]" and ?h = "(hs_handled s)(u := hs_handled s u @ [m])"
  have "Asleep \<in> set ?ts \<Longrightarrow> Asleep \<in> set (hs_threads s)" "Finished \<in> set ?ts \<Longrightarrow> Finished \<in> set (hs_threads s)"
    using set_update_subset_insert [of "hs_threads s" i "Busy u ms"] by auto
  moreover have "mset (?h v) + mset (concat (map (left_of v) ?ts)) = mset (st_taken (hs_im s) v)" for v
  proof -
    have "mset (concat (map (left_of v) ?ts)) + mset (if u = v then m # ms else []) =
        mset (concat (map (left_of v) (hs_threads s))) + mset (if u = v then ms else [])"
      using mset_concat_update [OF i(1), of "left_of v" "Busy u ms"] i(2) Cons by simp
    moreover have "mset (hs_handled s v) + mset (concat (map (left_of v) (hs_threads s))) = mset (st_taken (hs_im s) v)"
      using inv by (simp add: ht_inv_def)
    ultimately show ?thesis by (auto split: if_splits) (metis union_mset_add_mset_right)
  qed
  moreover have "?h v @ concat (map (left_of v) ?ts) = st_taken (hs_im s) v" if "k = 1" for v
  proof -
    obtain x where "hs_threads s = [x]" using single_thread [OF inv \<open>k = 1\<close>] by blast
    moreover have "hs_handled s v @ concat (map (left_of v) (hs_threads s)) = st_taken (hs_im s) v" using inv that by (simp add: ht_inv_def)
    ultimately show ?thesis using i Cons by (auto split: if_splits)
  qed
  ultimately show ?thesis using inv Cons by (auto simp: ht_inv_def run_one_handler_def idle_def)
qed

lemma handler_step_inv: "ht_inv n k s \<Longrightarrow> handler_step i s = Some t \<Longrightarrow> ht_inv n k t"
  using take_batch_inv [of n k s i] run_handler_inv [of n k s i] by (fastforce simp: handler_step_def split: if_splits hthread.splits)

lemma arrive_ht_inv:
  assumes inv: "ht_inv n k s" and "\<not> im_shutdown (st_im (hs_im s))" and fr: "fresh_msg (hs_im s) msg" and sd: "sender < n"
  shows "\<exists>t. arrive sender msg s = Inr t \<and> ht_inv n k t"
proof -
  have im: "im_inv n (hs_im s)" using inv by (simp add: ht_inv_def)
  obtain im' nxt' b where a: "add_incoming_message (st_im (hs_im s)) ((st_next (hs_im s))(msg := 0)) sender msg = Inr (im', nxt', b)"
    "im_inv n ((hs_im s)\<lparr>st_im := im', st_next := nxt', st_sent := (st_sent (hs_im s))(sender := st_sent (hs_im s) sender @ [msg])\<rparr>)"
    using arrive_succeeds [OF im fr sd] .
  have "Asleep \<notin> set (hs_threads s)" if "\<not> b"
    using arrival_wakes [OF im _ a(1)] that inv by (auto simp: ht_inv_def idle_def)
  moreover have "Finished \<notin> set (hs_threads s)" using inv assms(2) by (auto simp: ht_inv_def)
  ultimately show ?thesis using inv a by (auto simp: arrive_def ht_inv_def idle_def comp_def image_iff)
qed

lemma shutdown_manager_inv:
  assumes "ht_inv n k s"
  shows "ht_inv n k (shutdown_manager s)"
proof -
  have "im_inv n (hs_im s)" using assms by (simp add: ht_inv_def)
  from im_inv_step [OF this im_stop] assms show ?thesis
    by (auto simp: ht_inv_def shutdown_manager_def idle_def im_set_shutdown_def comp_def image_iff)
qed

lemma ht_inv_start:
  assumes "ht_init n k s"
  shows "ht_inv n k s"
proof -
  obtain im where "im_init n im" "s = start_handler_threads k im" using assms by (auto simp: ht_init_def)
  with im_inv_init [of n im] show ?thesis
    by (auto simp: ht_inv_def start_handler_threads_def im_init_def map_replicate_const)
qed

interpretation ht_sys: step_system "ht_init n k" "ht_step n" "ht_inv n k" for n k
proof
  fix s t assume inv: "ht_inv n k s" and "ht_step n s t"
  from this(2) show "ht_inv n k t"
  proof cases
    case (ht_thread i)
    then show ?thesis using handler_step_inv [OF inv] by blast
  next
    case (ht_arrive msg sender)
    then show ?thesis using arrive_ht_inv [OF inv] by (metis Inr_inject)
  next
    case ht_stop
    then show ?thesis using shutdown_manager_inv [OF inv] by simp
  next
    case (ht_spurious i)
    have "ht_inv n k (s\<lparr>hs_threads := (hs_threads s)[i := wake (hs_threads s ! i)]\<rparr>)"
      by (rule ht_inv_same [OF inv ht_spurious(2)])
        (use inv nth_mem [OF ht_spurious(2)] in \<open>auto simp: ht_inv_def\<close>)
    with ht_spurious(1) show ?thesis by simp
  qed
qed (rule ht_inv_start)

section \<open>Progress\<close>

text \<open>A bound on the steps the threads can take before something arrives.\<close>

fun ht_weight :: "hthread \<Rightarrow> nat" where
  "ht_weight Ready = 1"
| "ht_weight (Busy t ms) = 2 + length ms"
| "ht_weight _ = 0"

definition waiting :: "nat \<Rightarrow> im_state \<Rightarrow> nat" where
  "waiting n st = (\<Sum>t < n. length (st_sent st t) - length (st_taken st t))"

definition ht_work :: "nat \<Rightarrow> ht_state \<Rightarrow> nat" where
  "ht_work n s = 3 * waiting n (hs_im s) + sum_list (map ht_weight (hs_threads s))"

lemma sum_list_map_update:
  assumes "i < length xs"
  shows "sum_list (map f (xs[i := y])) + (f (xs ! i) :: nat) = sum_list (map f xs) + f y"
  using assms by (induction xs arbitrary: i) (auto split: nat.splits)

lemma waiting_take:
  assumes "im_inv n (st\<lparr>st_im := im', st_taken := (st_taken st)(u := st_taken st u @ ms)\<rparr>)" and "u < n"
  shows "waiting n (st\<lparr>st_im := im', st_taken := (st_taken st)(u := st_taken st u @ ms)\<rparr>) + length ms = waiting n st"
proof -
  let ?f = "\<lambda>t. length (st_sent st t) - length (st_taken st t)"
  from assms(1) obtain qs where "st_sent st u = (st_taken st u @ ms) @ qs" by (auto simp: im_inv_def)
  then have u: "?f u = (length (st_sent st u) - length (st_taken st u @ ms)) + length ms" by simp
  have r: "(\<Sum>t < n. g t) = g u + (\<Sum>t \<in> {..< n} - {u}. g t)" for g :: "nat \<Rightarrow> nat" using assms(2) by (simp add: sum.remove)
  show ?thesis unfolding waiting_def r by (simp add: u)
qed

lemma handler_step_work:
  assumes inv: "ht_inv n k s" and step: "handler_step i s = Some t"
  shows "ht_work n t < ht_work n s"
proof -
  have i: "i < length (hs_threads s)" using step by (simp add: handler_step_def split: if_splits)
  have im: "im_inv n (hs_im s)" using inv by (simp add: ht_inv_def)
  note upd = sum_list_map_update [OF i, of ht_weight]
  show ?thesis
  proof (cases "hs_threads s ! i")
    case Ready
    with step i have call: "call_get_messages i s = Some t" by (simp add: handler_step_def)
    from im show ?thesis
    proof (cases rule: get_messages_cases)
      case sleeps
      with call upd [of Asleep] Ready show ?thesis by (auto simp: call_get_messages_def ht_work_def)
    next
      case stops
      with call upd [of Finished] Ready show ?thesis by (auto simp: call_get_messages_def ht_work_def)
    next
      case (takes im' u p ms)
      let ?st = "(hs_im s)\<lparr>st_im := im', st_taken := (st_taken (hs_im s))(u := st_taken (hs_im s) u @ ms)\<rparr>"
      have t: "t = s\<lparr>hs_im := ?st, hs_threads := (hs_threads s)[i := Busy u ms]\<rparr>" using call takes by (simp add: call_get_messages_def)
      have "waiting n ?st + length ms = waiting n (hs_im s)"
        by (rule waiting_take [OF handle_keeps [OF im takes(1,4)] takes(7)])
      moreover have "0 < length ms" using takes(5) by simp
      ultimately show ?thesis using upd [of "Busy u ms"] Ready by (simp add: ht_work_def t del: length_greater_0_conv)
    qed
  next
    case (Busy u batch)
    then show ?thesis
    proof (cases batch)
      case Nil
      with step i Busy upd [of Ready] show ?thesis by (auto simp: handler_step_def run_one_handler_def ht_work_def)
    next
      case (Cons m ms)
      with step i Busy upd [of "Busy u ms"] show ?thesis by (auto simp: handler_step_def run_one_handler_def ht_work_def)
    qed
  qed (use step i in \<open>auto simp: handler_step_def\<close>)
qed

lemma handler_run_inv:
  assumes "ht_inv n k s" and "handler_run sched s = Some t"
  shows "ht_inv n k t \<and> ht_work n t + length sched \<le> ht_work n s"
  using assms
proof (induction sched arbitrary: s)
  case (Cons i sched)
  then obtain u where u: "handler_step i s = Some u" "handler_run sched u = Some t" by (auto split: option.splits)
  from Cons.IH [OF handler_step_inv [OF Cons.prems(1) u(1)] u(2)] handler_step_work [OF Cons.prems(1) u(1)] show ?case by simp
qed simp

lemma idle_all_taken:
  assumes "im_inv n st" and "ring_empty (im_todo (st_im st))"
  shows "st_taken st u = st_sent st u"
proof -
  from assms(1) obtain qs todo where R: "im_rel (st_im st) (st_next st) qs todo" "st_sent st u = st_taken st u @ qs u"
    by (auto simp: im_inv_def)
  then have "qs u = []" using assms(2) ring.empty_abs [of "im_nodes (st_im st)" "im_todo (st_im st)"] by (auto simp: im_rel_def)
  with R show ?thesis by simp
qed

lemma stuck_all_handled:
  assumes inv: "ht_inv n k t" and "0 < k" and stuck: "\<And>i. handler_step i t = None"
  shows "set (hs_threads t) = {if im_shutdown (st_im (hs_im t)) then Finished else Asleep}"
    and "mset (hs_handled t u) = mset (st_sent (hs_im t) u)"
proof -
  have x: "x \<in> {Asleep, Finished}" if "x \<in> set (hs_threads t)" for x
  proof -
    obtain i where i: "i < length (hs_threads t)" "hs_threads t ! i = x" using \<open>x \<in> set (hs_threads t)\<close> unfolding in_set_conv_nth by blast
    show ?thesis using take_batch_inv [OF inv i(1)] stuck [of i] i by (cases x) (auto simp: handler_step_def)
  qed
  have ne: "hs_threads t \<noteq> []" using inv \<open>0 < k\<close> by (auto simp: ht_inv_def)
  then have "hd (hs_threads t) \<in> set (hs_threads t)" by simp
  with x [OF this] inv have "idle t" by (auto simp: ht_inv_def)
  with idle_all_taken [of n "hs_im t" u] inv have taken: "st_taken (hs_im t) u = st_sent (hs_im t) u" by (simp add: ht_inv_def idle_def)
  have none: "concat (map (left_of u) (hs_threads t)) = []" using x by fastforce
  have "mset (hs_handled t u) + mset (concat (map (left_of u) (hs_threads t))) = mset (st_taken (hs_im t) u)"
    using inv unfolding ht_inv_def by blast
  then show "mset (hs_handled t u) = mset (st_sent (hs_im t) u)" unfolding taken none by simp
  define c where "c = (if im_shutdown (st_im (hs_im t)) then Finished else Asleep)"
  have "x = c" if "x \<in> set (hs_threads t)" for x
    using x [OF that] inv that by (auto simp: ht_inv_def c_def)
  with ne have "set (hs_threads t) = {c}" by (cases "hs_threads t") auto
  then show "set (hs_threads t) = {if im_shutdown (st_im (hs_im t)) then Finished else Asleep}" by (simp add: c_def)
qed

section \<open>Properties\<close>

text \<open>
  C7. The handler threads lose no message and no wake-up: however arrivals, the shutdown, the steps of any number of
  threads and wake-ups without reason interleave, the threads can take only a bounded number of steps before something
  arrives, and when none of them can go on every message that arrived has been handled exactly once and
  all threads sleep or, after the shutdown, have returned.  With a single thread the messages of a sender are handled in the order they arrived.
\<close>

theorem handlers_drain:
  assumes "reaches (ht_init n k) (ht_step n) s" and "0 < k" and "handler_run sched s = Some t"
  shows "length sched \<le> ht_work n s \<and>
    (k = 1 \<longrightarrow> (\<exists>later. st_sent (hs_im t) u = hs_handled t u @ later)) \<and>
    ((\<forall>i. handler_step i t = None) \<longrightarrow> mset (hs_handled t u) = mset (st_sent (hs_im t) u) \<and>
       set (hs_threads t) = {if im_shutdown (st_im (hs_im t)) then Finished else Asleep})"
proof -
  have "ht_inv n k t \<and> ht_work n t + length sched \<le> ht_work n s"
    by (rule handler_run_inv [OF ht_sys.inv_reaches [OF assms(1)] assms(3)])
  then have inv: "ht_inv n k t" and len: "length sched \<le> ht_work n s" by simp_all
  have "\<exists>later. st_sent (hs_im t) u = hs_handled t u @ later" if "k = 1"
  proof -
    have "hs_handled t u @ concat (map (left_of u) (hs_threads t)) = st_taken (hs_im t) u" using inv \<open>k = 1\<close> by (simp add: ht_inv_def)
    moreover obtain qs where "st_sent (hs_im t) u = st_taken (hs_im t) u @ qs u" using inv by (auto simp: ht_inv_def im_inv_def)
    ultimately show ?thesis by (metis append.assoc)
  qed
  with len stuck_all_handled [OF inv assms(2)] show ?thesis by blast
qed

text \<open>Example: two threads, one of them asleep when a message arrives.\<close>

definition ht_demo :: "nat \<Rightarrow> ht_state" where
  "ht_demo k = start_handler_threads k
     \<lparr>st_im = IncomingMessageManager_construct 2, st_next = (\<lambda>_. 0), st_sent = (\<lambda>_. []), st_taken = (\<lambda>_. [])\<rparr>"

lemma ht_demo_reached: "reaches (ht_init 2 k) (ht_step 2) (ht_demo k)"
  unfolding ht_demo_def
  by (rule reaches_init, unfold ht_init_def, intro exI conjI, rule_tac [3] refl)
    (simp_all add: im_init_def IncomingMessageManager_construct_def)

lemmas ht_eval = ht_demo_def start_handler_threads_def handler_step_def call_get_messages_def run_one_handler_def get_messages_def
  IncomingMessageManager_construct_def ring_new_def ring_empty_def arrive_def add_incoming_message_def ring_push_def ring_pop_def Let_def
  fresh_msg_def numeral_2_eq_2 handle_chain.simps

theorem handlers_drain_witness:
  "\<exists>s1 s2 t. handler_step 0 (ht_demo 2) = Some s1 \<and> arrive 1 5 s1 = Inr s2 \<and> handler_run [0, 0, 0, 0, 1] s2 = Some t \<and>
     mset (hs_handled t 1) = {#5#} \<and> set (hs_threads t) = {Asleep}"
proof -
  have "\<exists>s1 s2 t. handler_step 0 (ht_demo 2) = Some s1 \<and> fresh_msg (hs_im s1) 5 \<and> \<not> im_shutdown (st_im (hs_im s1)) \<and>
      arrive 1 5 s1 = Inr s2 \<and> handler_run [0, 0, 0, 0, 1] s2 = Some t \<and> hs_threads t = [Asleep, Asleep] \<and>
      \<not> im_shutdown (st_im (hs_im t)) \<and> st_sent (hs_im t) 1 = [5]"
    by (simp add: ht_eval)
  then obtain s1 s2 t where s: "handler_step 0 (ht_demo 2) = Some s1" "fresh_msg (hs_im s1) 5" "\<not> im_shutdown (st_im (hs_im s1))"
      "arrive 1 5 s1 = Inr s2" "handler_run [0, 0, 0, 0, 1] s2 = Some t" "hs_threads t = [Asleep, Asleep]"
      "\<not> im_shutdown (st_im (hs_im t))" "st_sent (hs_im t) 1 = [5]" by blast
  have "reaches (ht_init 2 2) (ht_step 2) s1" by (rule reaches_step [OF ht_demo_reached ht_thread [OF s(1)]])
  then have r: "reaches (ht_init 2 2) (ht_step 2) s2" by (rule reaches_step) (rule ht_arrive [OF s(3,2) _ s(4)], simp)
  have "handler_step i t = None" for i by (auto simp: handler_step_def s(6) less_Suc_eq numeral_2_eq_2)
  with handlers_drain [OF r _ s(5), of 1] s(6-8) have "mset (hs_handled t 1) = {#5#}" "set (hs_threads t) = {Asleep}" by auto
  with s(1,4,5) show ?thesis by blast
qed

text \<open>
  With two threads the order is lost: the second batch of a sender may be handled while the first waits for its
  thread.
\<close>

lemma two_handlers_reorder:
  "\<exists>s1 s2 s3 t. arrive 1 5 (ht_demo 2) = Inr s1 \<and> handler_step 0 s1 = Some s2 \<and> arrive 1 6 s2 = Inr s3 \<and>
     handler_run [1, 1, 0] s3 = Some t \<and> st_sent (hs_im t) 1 = [5, 6] \<and> hs_handled t 1 = [6, 5]"
  by (simp add: ht_eval)

end
