(* ===== verification/Command_Line.thy ===== *)
theory Command_Line
  imports Legion_Prelude
begin

text \<open>
  The default arguments of \<^verbatim>\<open>RuntimeImpl::network_init\<close>: the environment variable
  \<^verbatim>\<open>REALM_DEFAULT_ARGS\<close> is cut into arguments, with single and double quotes, and these are inserted
  into the command line after the program name and the positional arguments; and the check of
  \<^verbatim>\<open>configure_from_command_line\<close> for options nobody has taken.  A C string is the list of its
  characters up to the terminator, so the empty list stands for a pointer at the terminator.
\<close>

section \<open>Scanning and insertion\<close>

definition isspace :: "char \<Rightarrow> bool" where
  "isspace c \<longleftrightarrow> c \<in> {CHR '' '', CHR 0x09, CHR 0x0A, CHR 0x0B, CHR 0x0C, CHR 0x0D}"

abbreviation single_quote :: char where "single_quote \<equiv> CHR 0x27"
abbreviation double_quote :: char where "double_quote \<equiv> CHR 0x22"

text \<open>
  A quoted argument, from the character after the opening quote: the argument and what follows the
  closing quote.  The code does not test whether the search for the closing quote ended at the
  terminator: it steps over it and reads the character behind the string, which is undefined.
\<close>

definition quoted_arg :: "char \<Rightarrow> string \<Rightarrow> (string \<times> string) outcome" where
  "quoted_arg q e =
     (if e = [] then Inl Assert_Failed
      else
        let arg = takeWhile (\<lambda>c. c \<noteq> q) e
        in case dropWhile (\<lambda>c. c \<noteq> q) e of
             [] \<Rightarrow> Inl Undefined_Behaviour
           | _ # rest \<Rightarrow> if rest = [] \<or> isspace (hd rest) then Inr (arg, rest) else Inl Assert_Failed)"

lemma quoted_arg_shorter: "quoted_arg q e = Inr (arg, rest) \<Longrightarrow> length rest < length e"
  using length_dropWhile_le [of "\<lambda>c. c \<noteq> q" e]
  by (auto simp: quoted_arg_def Let_def split: if_splits list.splits)

function default_args :: "string \<Rightarrow> string list outcome" where
  "default_args [] = Inr []"
| "default_args (c # e) =
     (if isspace c then default_args e
      else if c = single_quote \<or> c = double_quote then
        (case quoted_arg c e of
           Inl x \<Rightarrow> Inl x
         | Inr (arg, rest) \<Rightarrow> obind (default_args rest) (\<lambda>args. Inr (arg # args)))
      else
        obind (default_args (dropWhile (\<lambda>c. \<not> isspace c) (c # e)))
          (\<lambda>args. Inr (takeWhile (\<lambda>c. \<not> isspace c) (c # e) # args)))"
  by pat_completeness auto

termination
proof (relation "measure length")
  fix c e x arg rest
  assume "quoted_arg c e = Inr x" "(arg, rest) = x"
  then show "(rest, c # e) \<in> measure length" using quoted_arg_shorter [of c e arg rest] by simp
next
  fix c e
  assume "\<not> isspace c"
  then show "(dropWhile (\<lambda>c. \<not> isspace c) (c # e), c # e) \<in> measure length"
    using length_dropWhile_le [of "\<lambda>c. \<not> isspace c" e] by simp
qed auto

text \<open>The number of arguments that stay in front: the loop with \<open>before_new\<close>.\<close>

definition is_option :: "string \<Rightarrow> bool" where
  "is_option s = (case s of [] \<Rightarrow> False | c # _ \<Rightarrow> c = CHR ''-'')"

function before_new :: "string list \<Rightarrow> nat \<Rightarrow> nat" where
  "before_new argv i =
     (if i < length argv then
        if 0 < i \<and> is_option (argv ! i) then i else before_new argv (i + 1)
      else i)"
  by pat_completeness auto

termination
  by (relation "measure (\<lambda>(argv, i). length argv - i)") auto

declare before_new.simps [simp del]

definition insert_default_args :: "string option \<Rightarrow> string list \<Rightarrow> string list outcome" where
  "insert_default_args env argv =
     (case env of
        None \<Rightarrow> Inr argv
      | Some e \<Rightarrow>
          obind (default_args e) (\<lambda>args.
            if args \<noteq> [] then
              let b = before_new argv 0
              in Inr (take b argv @ args @ drop b argv)
            else Inr argv))"

text \<open>The last step of the configuration: an option with the prefix of the runtime that is still there.\<close>

definition check_leftover :: "string list \<Rightarrow> unit outcome" where
  "check_leftover cmdline =
     (if \<exists>s \<in> set cmdline. take 4 s = ''-ll:'' then Inl Assert_Failed else Inr ())"

section \<open>Quoting\<close>

text \<open>What a user writes to get an argument: quotes of a kind the argument does not contain.\<close>

definition quotable :: "string \<Rightarrow> bool" where
  "quotable a \<longleftrightarrow> single_quote \<notin> set a \<or> double_quote \<notin> set a"

definition quote :: "string \<Rightarrow> string" where
  "quote a = (let q = (if single_quote \<in> set a then double_quote else single_quote) in q # a @ [q])"

fun write_args :: "string list \<Rightarrow> string" where
  "write_args [] = []"
| "write_args [a] = quote a"
| "write_args (a # as) = quote a @ CHR '' '' # write_args as"

lemma takeWhile_until: "q \<notin> set a \<Longrightarrow> takeWhile (\<lambda>c. c \<noteq> q) (a @ q # rest) = a"
  by (induction a) auto

lemma dropWhile_until: "q \<notin> set a \<Longrightarrow> dropWhile (\<lambda>c. c \<noteq> q) (a @ q # rest) = q # rest"
  by (induction a) auto

lemma quoted_arg_quote:
  assumes "q \<notin> set a" and "rest = [] \<or> isspace (hd rest)"
  shows "quoted_arg q (a @ q # rest) = Inr (a, rest)"
  using assms by (simp add: quoted_arg_def takeWhile_until dropWhile_until)

lemma default_args_quote:
  assumes "quotable a" and "rest = [] \<or> isspace (hd rest)"
  shows "default_args (quote a @ rest) = obind (default_args rest) (\<lambda>args. Inr (a # args))"
proof -
  define q where "q = (if single_quote \<in> set a then double_quote else single_quote)"
  have "q \<notin> set a" using assms(1) by (auto simp: q_def quotable_def)
  moreover have "\<not> isspace q" "q = single_quote \<or> q = double_quote" by (auto simp: q_def isspace_def)
  moreover have "quote a @ rest = q # a @ q # rest" by (simp add: quote_def q_def Let_def)
  ultimately show ?thesis using quoted_arg_quote [OF _ assms(2)] by simp
qed

lemma default_args_write: "\<forall>a \<in> set as. quotable a \<Longrightarrow> default_args (write_args as) = Inr as"
proof (induction as rule: write_args.induct)
  case (2 a)
  then show ?case using default_args_quote [of a "[]"] by simp
next
  case (3 a b as)
  have "isspace CHR '' ''" by (simp add: isspace_def)
  then have "default_args (quote a @ CHR '' '' # write_args (b # as)) =
      obind (default_args (write_args (b # as))) (\<lambda>args. Inr (a # args))"
    using default_args_quote [of a "CHR '' '' # write_args (b # as)"] 3(2) by simp
  then show ?case using 3 by simp
qed simp

lemma before_new_spec:
  assumes "i \<le> length argv"
  shows "i \<le> before_new argv i" "before_new argv i \<le> length argv"
    "j \<in> {i ..< before_new argv i} \<Longrightarrow> 0 < j \<Longrightarrow> \<not> is_option (argv ! j)"
    "before_new argv i < length argv \<Longrightarrow> 0 < before_new argv i \<and> is_option (argv ! before_new argv i)"
  using assms
proof (induction argv i arbitrary: j rule: before_new.induct)
  case (1 argv i)
  note s = before_new.simps [of argv i]
  {
    case 1
    then show ?case using "1.IH"(1) s by (cases "i < length argv \<and> \<not> (0 < i \<and> is_option (argv ! i))") (auto split: if_splits)
  next
    case 2
    then show ?case using "1.IH"(2) s by (auto split: if_splits)
  next
    case 3
    then show ?case using "1.IH"(3) [of j] s by (cases "j = i") (auto split: if_splits)
  next
    case 4
    then show ?case using "1.IH"(4) s by (auto split: if_splits)
  }
qed

section \<open>Properties\<close>

text \<open>
  C20. Default arguments.  Whatever the arguments are, as long as none contains both kinds of quotes,
  written with quotes into \<^verbatim>\<open>REALM_DEFAULT_ARGS\<close> they are read back exactly, spaces and empty
  arguments included, and inserted in one block: the program name and the positional arguments
  stay in front, and every option of the command line that was there comes after them, so that it
  can override them.
\<close>

theorem default_args_inserted:
  assumes "\<forall>a \<in> set as. quotable a" and "argv \<noteq> []"
  shows "\<exists>front back. argv = front @ back \<and> insert_default_args (Some (write_args as)) argv = Inr (front @ as @ back) \<and>
    front \<noteq> [] \<and> filter is_option (tl front) = [] \<and> (back \<noteq> [] \<longrightarrow> is_option (hd back))"
proof -
  let ?b = "before_new argv 0"
  note b = before_new_spec [of 0 argv]
  have "0 < ?b"
  proof (cases "?b < length argv")
    case False
    then show ?thesis using assms(2) by (cases "?b") auto
  qed (use b(4) in simp)
  then have ne: "take ?b argv \<noteq> []" using assms(2) by simp
  have "\<forall>x \<in> set (tl (take ?b argv)). \<not> is_option x"
  proof
    fix x assume "x \<in> set (tl (take ?b argv))"
    then obtain k where k: "k < length (tl (take ?b argv))" "x = tl (take ?b argv) ! k" by (metis in_set_conv_nth)
    then have "x = argv ! Suc k" by (simp add: nth_tl)
    then show "\<not> is_option x" using b(3) [of "Suc k"] k(1) by simp
  qed
  then have "filter is_option (tl (take ?b argv)) = []" by (simp add: filter_empty_conv)
  moreover have "drop ?b argv \<noteq> [] \<longrightarrow> is_option (hd (drop ?b argv))" using b(4) by (simp add: hd_drop_conv_nth)
  moreover have "insert_default_args (Some (write_args as)) argv = Inr (take ?b argv @ as @ drop ?b argv)"
    by (simp add: insert_default_args_def default_args_write [OF assms(1)] Let_def)
  ultimately show ?thesis using ne by (metis append_take_drop_id)
qed

theorem default_args_inserted_witness:
  "\<exists>front back. [''prog'', ''file'', ''-ll:cpu'', ''2''] = front @ back \<and>
     insert_default_args (Some (write_args [''-ll:csize'', [], ''a b''])) [''prog'', ''file'', ''-ll:cpu'', ''2''] =
       Inr (front @ [''-ll:csize'', [], ''a b''] @ back) \<and> front = [''prog'', ''file'']"
proof -
  have "\<exists>front back. [''prog'', ''file'', ''-ll:cpu'', ''2''] = front @ back \<and>
     insert_default_args (Some (write_args [''-ll:csize'', [], ''a b''])) [''prog'', ''file'', ''-ll:cpu'', ''2''] =
       Inr (front @ [''-ll:csize'', [], ''a b''] @ back) \<and> front \<noteq> [] \<and> filter is_option (tl front) = [] \<and>
       (back \<noteq> [] \<longrightarrow> is_option (hd back))"
    using default_args_inserted [of "[''-ll:csize'', [], ''a b'']" "[''prog'', ''file'', ''-ll:cpu'', ''2'']"] by (simp add: quotable_def)
  then show ?thesis by (auto simp: Cons_eq_append_conv is_option_def)
qed

text \<open>
  A quote that is never closed.  Whatever arguments come before it, the scan runs over the end of
  the string: the terminator ends the search for the closing quote, is taken for it, and the
  character behind it is read.
\<close>

theorem unclosed_quote_undefined:
  assumes "\<forall>a \<in> set as. quotable a" and "q = single_quote \<or> q = double_quote" and "w \<noteq> []" and "q \<notin> set w"
  shows "default_args (concat (map (\<lambda>a. quote a @ '' '') as) @ q # w) = Inl Undefined_Behaviour"
  using assms(1)
proof (induction as)
  case Nil
  have "dropWhile (\<lambda>c. c \<noteq> q) w = []" using assms(4) by (simp add: dropWhile_eq_Nil_conv) blast
  then have "quoted_arg q w = Inl Undefined_Behaviour" unfolding quoted_arg_def Let_def using assms(3) by (simp only: list.case if_False)
  moreover have "\<not> isspace q" using assms(2) by (auto simp: isspace_def)
  ultimately show ?case using assms(2) by simp
next
  case (Cons a as)
  let ?r = "CHR '' '' # concat (map (\<lambda>a. quote a @ '' '') as) @ q # w"
  have "isspace CHR '' ''" by (simp add: isspace_def)
  then have "default_args (quote a @ ?r) = obind (default_args ?r) (\<lambda>args. Inr (a # args))"
    using default_args_quote [of a ?r] Cons.prems by simp
  with Cons \<open>isspace CHR '' ''\<close> show ?case by simp
qed

theorem unclosed_quote_undefined_witness:
  "default_args (quote ''-level'' @ '' '' @ single_quote # ''-ll:cpu 4'') = Inl Undefined_Behaviour"
  using unclosed_quote_undefined [of "[''-level'']" single_quote "''-ll:cpu 4''"] by (simp add: quotable_def del: default_args.simps)

end
