(* ===== verification/Environment.thy ===== *)
theory Environment
  imports Command_Line
begin

text \<open>
  What the runtime does with environment variables and signals (\<^verbatim>\<open>src/templates/runtime_impl.cc\<close>):
  the settings \<^verbatim>\<open>network_init\<close> makes for GASNet before it starts it, the choice of a handler for
  error signals, and the delay of the event dump.  The environment is a map from names to values;
  \<^verbatim>\<open>strtol\<close>, \<^verbatim>\<open>atoi\<close> and the conversion of \<^verbatim>\<open>snprintf\<close> are written out for base ten.
\<close>

section \<open>Numbers in strings\<close>

definition isdigit :: "char \<Rightarrow> bool" where
  "isdigit c \<longleftrightarrow> 48 \<le> (of_char c :: nat) \<and> (of_char c :: nat) \<le> 57"

definition digit_value :: "char \<Rightarrow> nat" where
  "digit_value c = of_char c - 48"

definition number_of :: "string \<Rightarrow> nat" where
  "number_of s = foldl (\<lambda>a c. 10 * a + digit_value c) 0 s"

text \<open>The number a string begins with, after white space and a sign, and what follows it.\<close>

definition strtol :: "string \<Rightarrow> int \<times> string" where
  "strtol s =
     (let s1 = dropWhile isspace s;
          (neg, s2) = (case s1 of [] \<Rightarrow> (False, s1)
                       | c # r \<Rightarrow> if c = CHR ''-'' then (True, r) else if c = CHR ''+'' then (False, r) else (False, s1));
          ds = takeWhile isdigit s2
      in if ds = [] then (0, s)
         else (if neg then - int (number_of ds) else int (number_of ds), dropWhile isdigit s2))"

text \<open>A value an \<^verbatim>\<open>int\<close> cannot hold is undefined.\<close>

definition int_range :: "int \<Rightarrow> int outcome" where
  "int_range v = (if - (2 ^ 31) \<le> v \<and> v < 2 ^ 31 then Inr v else Inl Undefined_Behaviour)"

definition atoi :: "string \<Rightarrow> int outcome" where
  "atoi s = int_range (fst (strtol s))"

definition digit_char :: "nat \<Rightarrow> char" where
  "digit_char n = char_of (48 + n)"

fun decimal_nat :: "nat \<Rightarrow> string" where
  "decimal_nat n = (if n < 10 then [digit_char n] else decimal_nat (n div 10) @ [digit_char (n mod 10)])"

declare decimal_nat.simps [simp del]

definition decimal :: "int \<Rightarrow> string" where
  "decimal v = (if v < 0 then CHR ''-'' # decimal_nat (nat (- v)) else decimal_nat (nat v))"

section \<open>Settings for GASNet\<close>

type_synonym environment = "string \<Rightarrow> string option"

definition setenv :: "string \<Rightarrow> string \<Rightarrow> bool \<Rightarrow> environment \<Rightarrow> environment" where
  "setenv name v overwrite env = (if env name \<noteq> None \<and> \<not> overwrite then env else env(name := Some v))"

definition bump_cookie :: "environment \<Rightarrow> environment outcome" where
  "bump_cookie env =
     (case env ''PMI_GNI_COOKIE'' of
        None \<Rightarrow> Inr env
      | Some orig \<Rightarrow>
          obind (atoi orig) (\<lambda>v.
          obind (int_range (1 + v)) (\<lambda>v'. Inr (setenv ''PMI_GNI_COOKIE'' (take 31 (decimal v')) True env))))"

definition default_spawner :: "environment \<Rightarrow> environment" where
  "default_spawner env =
     (if env ''GASNET_IB_SPAWNER'' = None \<and> env ''GASNET_SPAWNER'' = None
      then setenv ''GASNET_SPAWNER'' ''mpi'' False (setenv ''GASNET_IB_SPAWNER'' ''mpi'' False env)
      else env)"

definition physmem_settings :: "environment \<Rightarrow> environment outcome" where
  "physmem_settings env =
     (let e = env ''GASNET_PHYSMEM_NOPROBE''
      in obind (case e of None \<Rightarrow> Inr True | Some s \<Rightarrow> obind (atoi s) (\<lambda>v. Inr (v > 0))) (\<lambda>noprobe.
           if noprobe then
             let env1 = (if e = None then setenv ''GASNET_PHYSMEM_NOPROBE'' ''1'' False env else env)
             in Inr (if env1 ''GASNET_PHYSMEM_MAX'' = None then setenv ''GASNET_PHYSMEM_MAX'' ''1T'' False env1 else env1)
           else Inr env))"

text \<open>\<open>ibv\<close>: the program is built for the Infiniband conduit.\<close>

definition network_environment :: "bool \<Rightarrow> environment \<Rightarrow> environment outcome" where
  "network_environment ibv env =
     obind (bump_cookie env) (\<lambda>env1.
     obind (physmem_settings (default_spawner env1)) (\<lambda>env2.
       Inr (if ibv \<and> env2 ''GASNET_AMRDMA_MAX_PEERS'' = None
            then setenv ''GASNET_AMRDMA_MAX_PEERS'' ''0'' False env2 else env2)))"

section \<open>Signals\<close>

datatype signal = SIGINT | SIGABRT | SIGSEGV | SIGFPE | SIGBUS | SIGILL | SIGALRM

datatype sig_action = SIG_DFL | Realm_Freeze | Realm_Backtrace | Realm_Show_Events

type_synonym actions = "signal \<Rightarrow> sig_action"

definition register_error_signal_handler :: "sig_action \<Rightarrow> actions \<Rightarrow> actions" where
  "register_error_signal_handler h acts = acts(SIGINT := h, SIGABRT := h, SIGSEGV := h, SIGFPE := h, SIGBUS := h)"

definition unregister_error_signal_handler :: "actions \<Rightarrow> actions" where
  "unregister_error_signal_handler acts =
     acts(SIGINT := SIG_DFL, SIGABRT := SIG_DFL, SIGSEGV := SIG_DFL, SIGFPE := SIG_DFL, SIGBUS := SIG_DFL)"

text \<open>The choice at the end of the configuration.\<close>

definition choose_error_handler :: "environment \<Rightarrow> actions \<Rightarrow> actions" where
  "choose_error_handler env acts =
     (if env ''LEGION_FREEZE_ON_ERROR'' \<noteq> None \<or> env ''REALM_FREEZE_ON_ERROR'' \<noteq> None
      then register_error_signal_handler Realm_Freeze acts
      else if env ''REALM_BACKTRACE'' \<noteq> None \<or> env ''LEGION_BACKTRACE'' \<noteq> None
      then register_error_signal_handler Realm_Backtrace acts
      else acts)"

text \<open>
  A handler runs: freezing stops the process for good and gives \<^verbatim>\<open>SIGINT\<close> back, so that it can be
  interrupted; the backtrace ends the process.
\<close>

datatype sig_result = Frozen actions | Exited int

definition realm_freeze :: "signal \<Rightarrow> actions \<Rightarrow> sig_result outcome" where
  "realm_freeze s acts =
     obind (cassert (s = SIGINT \<or> s = SIGABRT \<or> s = SIGSEGV \<or> s = SIGFPE \<or> s = SIGBUS)) (\<lambda>_.
       Inr (Frozen (acts(SIGINT := SIG_DFL))))"

definition realm_backtrace :: "signal \<Rightarrow> sig_result outcome" where
  "realm_backtrace s =
     obind (cassert (s = SIGILL \<or> s = SIGFPE \<or> s = SIGABRT \<or> s = SIGSEGV \<or> s = SIGBUS)) (\<lambda>_. Inr (Exited 1))"

text \<open>The delay of the event dump, in seconds, staggered over the nodes when asked.\<close>

definition show_event_delay :: "node_id \<Rightarrow> string \<Rightarrow> int outcome" where
  "show_event_delay my_node_id e =
     (let (v, pos) = strtol e; delay = sint (word_of_int v :: 32 word)
      in obind (cassert (delay > 0)) (\<lambda>_.
           case pos of
             [] \<Rightarrow> Inr delay
           | c # rest \<Rightarrow>
               if c = CHR ''+'' then
                 obind (atoi rest) (\<lambda>k. obind (int_range (int my_node_id * k)) (\<lambda>p. int_range (delay + p)))
               else Inr delay))"

text \<open>Both together, as the configuration does it; the second result is the alarm that has been set.\<close>

definition setup_signals :: "node_id \<Rightarrow> environment \<Rightarrow> actions \<Rightarrow> (actions \<times> int option) outcome" where
  "setup_signals my_node_id env acts =
     (let acts1 = choose_error_handler env acts
      in case env ''REALM_SHOW_EVENT_WAITERS'' of
           None \<Rightarrow> Inr (acts1, None)
         | Some e \<Rightarrow> obind (show_event_delay my_node_id e) (\<lambda>delay. Inr (acts1(SIGALRM := Realm_Show_Events), Some delay)))"

section \<open>Lemmas\<close>

lemma digit_char_simps:
  assumes "d < 10"
  shows "isdigit (digit_char d)" "digit_value (digit_char d) = d"
  using assms by (simp_all add: isdigit_def digit_char_def digit_value_def)

lemma decimal_nat_digits: "list_all isdigit (decimal_nat n)" "number_of (decimal_nat n) = n" "decimal_nat n \<noteq> []"
proof (induction n rule: decimal_nat.induct)
  case (1 n)
  case 1
  show ?case using "1.IH"(1) by (subst decimal_nat.simps) (simp add: digit_char_simps)
  case 2
  show ?case using "1.IH"(2) by (subst decimal_nat.simps) (simp add: number_of_def digit_char_simps)
  case 3
  show ?case by (subst decimal_nat.simps) simp
qed

lemma isdigit_not: "isdigit c \<Longrightarrow> \<not> isspace c \<and> c \<noteq> CHR ''-'' \<and> c \<noteq> CHR ''+''"
  by (auto simp: isdigit_def isspace_def)

lemma takeWhile_digits: "list_all isdigit s \<Longrightarrow> takeWhile isdigit s = s \<and> dropWhile isdigit s = []"
  by (induction s) auto

lemma decimal_nat_length: "n < 10 ^ Suc k \<Longrightarrow> length (decimal_nat n) \<le> Suc k"
proof (induction k arbitrary: n)
  case 0
  then show ?case by (subst decimal_nat.simps) simp
next
  case (Suc k)
  then have "n div 10 < 10 ^ Suc k" by (simp add: less_mult_imp_div_less mult.commute)
  from Suc.IH [OF this] show ?case by (subst decimal_nat.simps) simp
qed

lemma strtol_decimal: "strtol (decimal v) = (v, [])"
proof (cases "v < 0")
  case True
  define s where "s = decimal_nat (nat (- v))"
  have s: "list_all isdigit s" "number_of s = nat (- v)" "s \<noteq> []" unfolding s_def by (rule decimal_nat_digits)+
  have "decimal v = CHR ''-'' # s" using True by (simp add: decimal_def s_def)
  with s True show ?thesis by (simp add: strtol_def isspace_def takeWhile_digits [OF s(1)])
next
  case False
  define s where "s = decimal_nat (nat v)"
  have s: "list_all isdigit s" "number_of s = nat v" "s \<noteq> []" unfolding s_def by (rule decimal_nat_digits)+
  then obtain c r where c: "s = c # r" "isdigit c" by (cases s) auto
  have "decimal v = s" using False by (simp add: decimal_def s_def)
  moreover have "dropWhile isspace s = s" "takeWhile isdigit s = s" "dropWhile isdigit s = []"
    "(case s of [] \<Rightarrow> (False, s) | c # r \<Rightarrow> if c = CHR ''-'' then (True, r) else if c = CHR ''+'' then (False, r) else (False, s)) = (False, s)"
    using takeWhile_digits [OF s(1)] isdigit_not [OF c(2)] c(1) by simp_all
  ultimately show ?thesis using s(2,3) False by (simp only: strtol_def Let_def prod.case if_False) simp
qed

lemma decimal_length:
  assumes "- (2 ^ 31) \<le> v" "v < 2 ^ 31"
  shows "length (decimal v) \<le> 11"
proof -
  have "nat v < 10 ^ Suc 9" "nat (- v) < 10 ^ Suc 9" using assms by simp_all
  from decimal_nat_length [OF this(1)] decimal_nat_length [OF this(2)] show ?thesis by (simp add: decimal_def)
qed

lemma atoi_decimal: "int_range v = Inr v' \<Longrightarrow> atoi (take 31 (decimal v)) = Inr v"
  using decimal_length [of v] by (auto simp: atoi_def strtol_decimal int_range_def split: if_splits)

lemma setenv_keeps: "env x = Some v \<Longrightarrow> x \<noteq> n \<or> \<not> ov \<Longrightarrow> setenv n w ov env x = Some v"
  by (auto simp: setenv_def)

lemma setenv_other: "x \<noteq> n \<Longrightarrow> setenv n w ov env x = env x"
  by (simp add: setenv_def)

lemma setenv_set: "setenv n w ov env n \<noteq> None"
  by (auto simp: setenv_def)

lemma bump_cookie_effect:
  assumes "bump_cookie env = Inr env'"
  shows "x \<noteq> ''PMI_GNI_COOKIE'' \<Longrightarrow> env' x = env x"
    "env ''PMI_GNI_COOKIE'' = None \<Longrightarrow> env' = env"
    "env ''PMI_GNI_COOKIE'' = Some s \<Longrightarrow> \<exists>v t. atoi s = Inr v \<and> env' ''PMI_GNI_COOKIE'' = Some t \<and> atoi t = Inr (1 + v)"
  using assms
  by (auto simp: bump_cookie_def setenv_def int_range_def split: option.splits if_splits intro!: atoi_decimal)

lemma spawner_effect:
  "default_spawner env x = (if x \<in> {''GASNET_IB_SPAWNER'', ''GASNET_SPAWNER''} \<and>
      env ''GASNET_IB_SPAWNER'' = None \<and> env ''GASNET_SPAWNER'' = None then Some ''mpi'' else env x)"
  by (simp add: default_spawner_def setenv_def)

lemma physmem_effect:
  assumes "physmem_settings env = Inr env'"
  shows "env x = Some v \<Longrightarrow> env' x = Some v"
    "x \<notin> {''GASNET_PHYSMEM_NOPROBE'', ''GASNET_PHYSMEM_MAX''} \<Longrightarrow> env' x = env x"
    "env ''GASNET_PHYSMEM_NOPROBE'' = None \<Longrightarrow> env' ''GASNET_PHYSMEM_NOPROBE'' = Some ''1'' \<and> env' ''GASNET_PHYSMEM_MAX'' \<noteq> None"
  using assms by (auto simp: physmem_settings_def setenv_def Let_def split: option.splits if_splits)

section \<open>Properties\<close>

text \<open>
  The settings for the network respect the user: whatever was in the environment is still there
  with its value, except that the cookie of the Gemini network, when there is one, is the next
  number, written so that it reads back as such; a spawner is set in any case, and when the user
  said nothing about probing memory it is off with a limit in place.
\<close>

theorem network_environment_respects:
  assumes "network_environment ibv env = Inr env'"
  shows "(\<forall>x v. x \<noteq> ''PMI_GNI_COOKIE'' \<longrightarrow> env x = Some v \<longrightarrow> env' x = Some v) \<and>
    (\<forall>s. env ''PMI_GNI_COOKIE'' = Some s \<longrightarrow>
       (\<exists>v t. atoi s = Inr v \<and> env' ''PMI_GNI_COOKIE'' = Some t \<and> atoi t = Inr (1 + v))) \<and>
    (env ''PMI_GNI_COOKIE'' = None \<longrightarrow> env' ''PMI_GNI_COOKIE'' = None) \<and>
    (env' ''GASNET_IB_SPAWNER'' \<noteq> None \<or> env' ''GASNET_SPAWNER'' \<noteq> None) \<and>
    (env ''GASNET_PHYSMEM_NOPROBE'' = None \<longrightarrow>
       env' ''GASNET_PHYSMEM_NOPROBE'' = Some ''1'' \<and> env' ''GASNET_PHYSMEM_MAX'' \<noteq> None)"
proof -
  from assms obtain e1 e2 where b: "bump_cookie env = Inr e1" and p: "physmem_settings (default_spawner e1) = Inr e2"
    and e': "env' = (if ibv \<and> e2 ''GASNET_AMRDMA_MAX_PEERS'' = None
      then setenv ''GASNET_AMRDMA_MAX_PEERS'' ''0'' False e2 else e2)" by (auto simp: network_environment_def)
  have keep: "env' x = Some v" if "e2 x = Some v" for x v using that setenv_keeps [of e2 x v] by (auto simp: e')
  have same: "env' x = e2 x" if "x \<noteq> ''GASNET_AMRDMA_MAX_PEERS''" for x using that setenv_other by (auto simp: e')
  note pk = physmem_effect(1) [OF p] and po = physmem_effect(2) [OF p] and pn = physmem_effect(3) [OF p]
  have c: "env' ''PMI_GNI_COOKIE'' = e1 ''PMI_GNI_COOKIE''"
    using po [of "''PMI_GNI_COOKIE''"] same [of "''PMI_GNI_COOKIE''"] by (simp add: spawner_effect)
  show ?thesis
  proof (intro conjI allI impI)
    fix x v assume x: "x \<noteq> ''PMI_GNI_COOKIE''" "env x = Some v"
    then have "default_spawner e1 x = Some v" using bump_cookie_effect(1) [OF b x(1)] by (auto simp: spawner_effect)
    then show "env' x = Some v" by (intro keep pk)
  next
    fix s assume "env ''PMI_GNI_COOKIE'' = Some s"
    then show "\<exists>v t. atoi s = Inr v \<and> env' ''PMI_GNI_COOKIE'' = Some t \<and> atoi t = Inr (1 + v)"
      using bump_cookie_effect(3) [OF b] unfolding c by blast
  next
    assume "env ''PMI_GNI_COOKIE'' = None"
    then show "env' ''PMI_GNI_COOKIE'' = None" using bump_cookie_effect(2) [OF b] by (simp add: c)
  next
    have "e2 ''GASNET_IB_SPAWNER'' = default_spawner e1 ''GASNET_IB_SPAWNER''"
      "e2 ''GASNET_SPAWNER'' = default_spawner e1 ''GASNET_SPAWNER''" by (rule po, simp)+
    moreover have "env' ''GASNET_IB_SPAWNER'' = e2 ''GASNET_IB_SPAWNER''" "env' ''GASNET_SPAWNER'' = e2 ''GASNET_SPAWNER''"
      by (rule same, simp)+
    ultimately show "env' ''GASNET_IB_SPAWNER'' \<noteq> None \<or> env' ''GASNET_SPAWNER'' \<noteq> None"
      by (cases "e1 ''GASNET_IB_SPAWNER''"; cases "e1 ''GASNET_SPAWNER''") (simp_all add: spawner_effect)
  next
    assume "env ''GASNET_PHYSMEM_NOPROBE'' = None"
    then have "default_spawner e1 ''GASNET_PHYSMEM_NOPROBE'' = None"
      using bump_cookie_effect(1) [OF b, of "''GASNET_PHYSMEM_NOPROBE''"] by (simp add: spawner_effect)
    with pn same [of "''GASNET_PHYSMEM_NOPROBE''"] same [of "''GASNET_PHYSMEM_MAX''"]
    show "env' ''GASNET_PHYSMEM_NOPROBE'' = Some ''1''" "env' ''GASNET_PHYSMEM_MAX'' \<noteq> None" by simp_all
  qed
qed

theorem network_environment_respects_witness:
  "\<exists>env' t. network_environment True (Map.empty(''PMI_GNI_COOKIE'' \<mapsto> ''41x'', ''GASNET_SPAWNER'' \<mapsto> ''ssh'')) = Inr env' \<and>
     env' ''GASNET_SPAWNER'' = Some ''ssh'' \<and> env' ''PMI_GNI_COOKIE'' = Some t \<and> atoi t = Inr 42"
proof -
  let ?e = "Map.empty(''PMI_GNI_COOKIE'' \<mapsto> ''41x'', ''GASNET_SPAWNER'' \<mapsto> ''ssh'') :: environment"
  have a: "atoi ''41x'' = Inr 41"
    by (simp add: atoi_def strtol_def isspace_def isdigit_def number_of_def digit_value_def int_range_def)
  obtain env' where n: "network_environment True ?e = Inr env'"
    by (simp add: network_environment_def bump_cookie_def a int_range_def physmem_settings_def default_spawner_def setenv_def)
  from network_environment_respects [OF n] a have "env' ''GASNET_SPAWNER'' = Some ''ssh''"
    "\<exists>t. env' ''PMI_GNI_COOKIE'' = Some t \<and> atoi t = Inr 42" by auto
  with n show ?thesis by blast
qed

text \<open>
  Error signals: whichever handler the environment selects, freezing accepts every signal it is
  registered for and the removal of the handlers restores the default; but the backtrace is
  registered for the interrupt signal as well and stops in its assertion there, instead of printing.
\<close>

theorem error_signals_handled:
  assumes "acts = choose_error_handler env (\<lambda>_. SIG_DFL)"
  shows "(acts s = Realm_Freeze \<longrightarrow> realm_freeze s acts = Inr (Frozen (acts(SIGINT := SIG_DFL)))) \<and>
    (acts s = Realm_Backtrace \<longrightarrow> realm_backtrace s = (if s = SIGINT then Inl Assert_Failed else Inr (Exited 1))) \<and>
    unregister_error_signal_handler acts = (\<lambda>_. SIG_DFL)"
proof -
  have "unregister_error_signal_handler acts = (\<lambda>_. SIG_DFL)"
    by (rule ext) (auto simp: assms choose_error_handler_def register_error_signal_handler_def unregister_error_signal_handler_def)
  then show ?thesis
    by (cases s) (auto simp: assms choose_error_handler_def register_error_signal_handler_def realm_freeze_def realm_backtrace_def
        split: if_splits)
qed

theorem error_signals_handled_witness:
  "choose_error_handler (Map.empty(''REALM_BACKTRACE'' \<mapsto> ''1'')) (\<lambda>_. SIG_DFL) SIGINT = Realm_Backtrace \<and>
   realm_backtrace SIGINT = Inl Assert_Failed \<and> realm_backtrace SIGSEGV = Inr (Exited 1)"
  using error_signals_handled [OF refl, of "Map.empty(''REALM_BACKTRACE'' \<mapsto> ''1'')" SIGINT]
    error_signals_handled [OF refl, of "Map.empty(''REALM_BACKTRACE'' \<mapsto> ''1'')" SIGSEGV]
  by (simp add: choose_error_handler_def register_error_signal_handler_def)

end
