(* ===== verification/Message_Timing.thy ===== *)
theory Message_Timing
  imports Environment
begin

text \<open>
  Timing of messages and statistics of handlers (\<^verbatim>\<open>src/templates/activemsg.cc\<close>, compiled with
  \<^verbatim>\<open>DETAILED_MESSAGE_TIMING\<close> and \<^verbatim>\<open>REALM_PROFILE_AM_HANDLERS\<close>).  \<^verbatim>\<open>DetailedMessageTiming\<close> hands out the entries of an array to
  any number of threads by a counter and writes the array to a file in the end.  Reading the clock and the file system are not
  modelled: times are arguments and the file is the name and the entries written.
\<close>

section \<open>\<^verbatim>\<open>DetailedMessageTiming\<close>\<close>

record MessageTimingData =
  td_msg_id :: "8 word"
  td_write_lmb :: "8 word"
  td_target :: "16 word"
  td_msg_size :: "32 word"
  td_start :: "64 word"
  td_dur_nsec :: "32 word"
  td_queue_depth :: "32 word"

text \<open>An entry of the array is \<open>None\<close> as long as it has not been written.\<close>

record DetailedMessageTiming =
  dt_path :: "string option"
  message_count :: "32 word"
  message_max_count :: int
  message_timing :: "MessageTimingData option list"

definition DEFAULT_MESSAGE_MAX_COUNT :: int where
  "DEFAULT_MESSAGE_MAX_COUNT = 4 * 2 ^ 20"

text \<open>An array of negative length makes \<^verbatim>\<open>new\<close> throw; nobody catches that, so the process aborts.\<close>

definition DetailedMessageTiming_construct :: "environment \<Rightarrow> DetailedMessageTiming outcome" where
  "DetailedMessageTiming_construct env =
     (case env ''LEGION_MESSAGE_TIMING_PATH'' of
        None \<Rightarrow> Inr \<lparr>dt_path = None, message_count = 0, message_max_count = 0, message_timing = []\<rparr>
      | Some path \<Rightarrow>
          obind (case env ''LEGION_MESSAGE_TIMING_MAX'' of Some e \<Rightarrow> atoi e | None \<Rightarrow> Inr DEFAULT_MESSAGE_MAX_COUNT) (\<lambda>mx.
            if mx < 0 then Inl Assert_Failed
            else Inr \<lparr>dt_path = Some path, message_count = 0, message_max_count = mx,
                      message_timing = replicate (nat mx) None\<rparr>))"

definition get_next_index :: "DetailedMessageTiming \<Rightarrow> int \<times> DetailedMessageTiming" where
  "get_next_index dt =
     (if message_max_count dt \<noteq> 0 then (sint (message_count dt), dt\<lparr>message_count := message_count dt + 1\<rparr>)
      else (- 1, dt))"

text \<open>Durations that do not fit are recorded as the largest that does.\<close>

definition duration :: "64 word \<Rightarrow> 64 word \<Rightarrow> 32 word" where
  "duration t_start t_end =
     (let delta = t_end - t_start in if delta > 2 ^ 32 - 1 then - 1 else ucast delta)"

definition timing_data :: "int \<Rightarrow> 8 word \<Rightarrow> 8 word \<Rightarrow> 32 word \<Rightarrow> 32 word \<Rightarrow> 64 word \<Rightarrow> 64 word \<Rightarrow> MessageTimingData" where
  "timing_data peer msg_id write_lmb msg_size queue_depth t_start t_end =
     \<lparr>td_msg_id = msg_id, td_write_lmb = write_lmb, td_target = word_of_int peer, td_msg_size = msg_size, td_start = t_start,
      td_dur_nsec = duration t_start t_end, td_queue_depth = queue_depth\<rparr>"

definition record_timing :: "int \<Rightarrow> MessageTimingData \<Rightarrow> DetailedMessageTiming \<Rightarrow> DetailedMessageTiming" where
  "record_timing index mtd dt =
     (if index \<ge> 0 \<and> index < message_max_count dt
      then dt\<lparr>message_timing := (message_timing dt)[nat index := Some mtd]\<rparr> else dt)"

text \<open>
  The name is put together in an array of 256 characters, which has room for 255 and the terminator.  A
  negative number of bytes makes \<^verbatim>\<open>write\<close> fail, and its result is not the number asked for.
\<close>

definition timing_filename :: "string \<Rightarrow> node_id \<Rightarrow> string outcome" where
  "timing_filename path my =
     (let base = (if path \<noteq> [] \<and> last path \<noteq> CHR ''/'' then path @ ''/'' else path);
          filename = base @ ''msgtiming_'' @ decimal (int my) @ ''.dat''
      in if length filename < 256 then Inr filename else Inl Undefined_Behaviour)"

definition dump_detailed_timing_data ::
  "node_id \<Rightarrow> DetailedMessageTiming \<Rightarrow> (string \<times> MessageTimingData option list) option outcome" where
  "dump_detailed_timing_data my dt =
     (case dt_path dt of
        None \<Rightarrow> Inr None
      | Some path \<Rightarrow>
          obind (timing_filename path my) (\<lambda>filename.
            let count0 = sint (message_count dt);
                n = (if count0 > message_max_count dt then message_max_count dt else count0)
            in if n < 0 then Inl Assert_Failed else Inr (Some (filename, take (nat n) (message_timing dt)))))"

section \<open>Handler statistics\<close>

record ActiveMsgHandlerStats =
  hst_count :: "64 word"
  hst_sum :: "64 word"
  hst_sum2 :: "64 word"
  hst_minval :: "64 word"
  hst_maxval :: "64 word"

definition ActiveMsgHandlerStats_construct :: ActiveMsgHandlerStats where
  "ActiveMsgHandlerStats_construct = \<lparr>hst_count = 0, hst_sum = 0, hst_sum2 = 0, hst_minval = 0, hst_maxval = 0\<rparr>"

text \<open>A time is in seconds and nanoseconds; the difference in nanoseconds.\<close>

definition elapsed :: "64 word \<times> 64 word \<Rightarrow> 64 word \<times> 64 word \<Rightarrow> 64 word" where
  "elapsed ts_start ts_end = 1000000000 * (fst ts_end - fst ts_start) + snd ts_end - snd ts_start"

definition stats_record :: "64 word \<Rightarrow> ActiveMsgHandlerStats \<Rightarrow> ActiveMsgHandlerStats" where
  "stats_record v st =
     \<lparr>hst_count = hst_count st + 1, hst_sum = hst_sum st + v, hst_sum2 = hst_sum2 st + v * v,
      hst_minval = (if hst_count st = 0 \<or> v < hst_minval st then v else hst_minval st),
      hst_maxval = (if hst_count st = 0 \<or> v > hst_maxval st then v else hst_maxval st)\<rparr>"

definition record_activemsg_profiling ::
  "nat \<Rightarrow> 64 word \<times> 64 word \<Rightarrow> 64 word \<times> 64 word \<Rightarrow> ActiveMsgHandlerStats list \<Rightarrow> ActiveMsgHandlerStats list outcome" where
  "record_activemsg_profiling mid ts_start ts_end handler_stats =
     (if mid < length handler_stats
      then Inr (handler_stats[mid := stats_record (elapsed ts_start ts_end) (handler_stats ! mid)])
      else Inl Undefined_Behaviour)"

section \<open>Threads that record\<close>

text \<open>
  A thread takes an index before it sends and records the timing afterwards; between the two other threads do the
  same.  The state is the object, the index each thread holds, and the history of what was recorded.
\<close>

datatype timing_op = Take_Index nat | Record nat MessageTimingData

fun timing_step ::
  "timing_op \<Rightarrow> DetailedMessageTiming \<times> (nat \<Rightarrow> int option) \<times> (int \<times> MessageTimingData) list \<Rightarrow>
     DetailedMessageTiming \<times> (nat \<Rightarrow> int option) \<times> (int \<times> MessageTimingData) list" where
  "timing_step (Take_Index th) (dt, held, hist) = (let (i, dt') = get_next_index dt in (dt', held(th \<mapsto> i), hist))"
| "timing_step (Record th mtd) (dt, held, hist) =
     (case held th of None \<Rightarrow> (dt, held, hist) | Some i \<Rightarrow> (record_timing i mtd dt, held(th := None), hist @ [(i, mtd)]))"

definition timing_run ::
  "timing_op list \<Rightarrow> DetailedMessageTiming \<Rightarrow> DetailedMessageTiming \<times> (nat \<Rightarrow> int option) \<times> (int \<times> MessageTimingData) list" where
  "timing_run ops dt = fold timing_step ops (dt, (\<lambda>_. None), [])"

section \<open>Lemmas\<close>

definition timing_inv :: "nat \<Rightarrow> DetailedMessageTiming \<Rightarrow> DetailedMessageTiming \<times> (nat \<Rightarrow> int option) \<times> (int \<times> MessageTimingData) list \<Rightarrow> bool" where
  "timing_inv N dt0 st \<longleftrightarrow>
     (case st of (dt, held, hist) \<Rightarrow>
        dt_path dt = dt_path dt0 \<and> message_max_count dt = message_max_count dt0 \<and>
        length (message_timing dt) = nat (message_max_count dt) \<and> unat (message_count dt) \<le> N \<and>
        (\<forall>th i. held th = Some i \<longrightarrow> 0 \<le> i \<and> nat i < unat (message_count dt) \<and> i \<notin> fst ` set hist) \<and>
        (\<forall>th th' i. held th = Some i \<longrightarrow> held th' = Some i \<longrightarrow> th = th') \<and>
        distinct (map fst hist) \<and>
        (\<forall>(i, d) \<in> set hist. 0 \<le> i \<and> nat i < unat (message_count dt) \<and>
           (i < message_max_count dt \<longrightarrow> message_timing dt ! nat i = Some d)) \<and>
        (\<forall>j d. j < length (message_timing dt) \<longrightarrow> message_timing dt ! j = Some d \<longrightarrow> (int j, d) \<in> set hist))"

lemma sint_small_32:
  assumes "unat (c :: 32 word) < 2 ^ 31"
  shows "sint c = int (unat c)"
  using sint_of_nat_32 [OF assms] by simp

lemma timing_take:
  assumes inv: "timing_inv N dt0 (dt, held, hist)" and N: "Suc N < 2 ^ 31" and mx: "message_max_count dt0 \<noteq> 0"
  shows "timing_inv (Suc N) dt0 (timing_step (Take_Index th) (dt, held, hist))"
proof -
  let ?c = "message_count dt"
  have c: "unat ?c < 2 ^ 31" using inv N by (simp add: timing_inv_def)
  have s: "sint ?c = int (unat ?c)" by (rule sint_small_32 [OF c])
  have u: "unat (?c + 1) = Suc (unat ?c)" using c by (simp add: unat_word_ariths)
  have m: "message_max_count dt \<noteq> 0" using inv mx by (simp add: timing_inv_def)
  have fresh: "int (unat ?c) \<notin> fst ` set hist" "held x \<noteq> Some (int (unat ?c))" for x
    using inv by (auto simp: timing_inv_def) force+
  show ?thesis
    using inv fresh m unfolding timing_inv_def by (auto simp: get_next_index_def s u split: if_splits) fastforce+
qed

lemma timing_record:
  assumes inv: "timing_inv N dt0 (dt, held, hist)"
  shows "timing_inv (Suc N) dt0 (timing_step (Record th mtd) (dt, held, hist))"
proof (cases "held th")
  case None
  with inv show ?thesis by (auto simp: timing_inv_def)
next
  case (Some i)
  have i: "0 \<le> i" "nat i < unat (message_count dt)" "i \<notin> fst ` set hist" using inv Some by (auto simp: timing_inv_def)
  have other: "held th' = Some i \<Longrightarrow> th' = th" for th' using inv Some unfolding timing_inv_def by blast
  have l: "length (message_timing dt) = nat (message_max_count dt)" using inv by (simp add: timing_inv_def)
  have ne: "(j, d) \<in> set hist \<Longrightarrow> nat j \<noteq> nat i" for j d
  proof
    assume "(j, d) \<in> set hist" "nat j = nat i"
    moreover from this(1) have "0 \<le> j" using inv by (auto simp: timing_inv_def)
    ultimately have "i \<in> fst ` set hist" using i(1) by (auto simp: eq_nat_nat_iff image_iff intro!: bexI [of _ "(j, d)"])
    with i(3) show False by blast
  qed
  have bound: "i < message_max_count dt \<Longrightarrow> nat i < length (message_timing dt)" using i(1) l by simp
  have int_nat: "int (nat i) = i" using i(1) by simp
  show ?thesis
  proof (cases "i < message_max_count dt")
    case True
    have kept: "nat i \<noteq> nat j \<and> (j < message_max_count dt0 \<longrightarrow> message_timing dt ! nat j = Some d)" if "(j, d) \<in> set hist" for j d
      using that ne [OF that] inv by (auto simp: timing_inv_def)
    note upd = nth_list_update [OF bound [OF True]]
    show ?thesis
      using inv Some i l other unfolding timing_inv_def
      by (auto simp: record_timing_def True upd int_nat dest: kept split: if_splits)
  next
    case False
    have same: "record_timing i mtd dt = dt" by (simp add: record_timing_def False)
    show ?thesis
      using inv Some i l other False unfolding timing_inv_def by (auto simp: same split: if_splits)
  qed
qed

lemma timing_run_inv:
  assumes "timing_inv N dt0 st" and "message_max_count dt0 \<noteq> 0" and "N + length ops < 2 ^ 31"
  shows "timing_inv (N + length ops) dt0 (fold timing_step ops st)"
  using assms
proof (induction ops arbitrary: N st)
  case (Cons x ops)
  obtain dt held hist where st: "st = (dt, held, hist)" by (cases st)
  have "timing_inv (Suc N) dt0 (timing_step x st)"
    using timing_take [of N dt0 dt held hist] timing_record [of N dt0 dt held hist] Cons.prems unfolding st by (cases x) auto
  from Cons.IH [OF this] Cons.prems show ?case by simp
qed simp

lemma construct_inv:
  assumes "DetailedMessageTiming_construct env = Inr dt0"
  shows "timing_inv 0 dt0 (dt0, (\<lambda>_. None), [])"
  using assms by (auto simp: DetailedMessageTiming_construct_def timing_inv_def obind_Inr_iff split: option.splits if_splits)

lemma dump_entries:
  assumes inv: "timing_inv N dt0 (dt, held, hist)" and N: "N < 2 ^ 31" and mx: "message_max_count dt0 \<ge> 0"
    and path: "dt_path dt0 = Some path" "timing_filename path my = Inr file"
  shows "dump_detailed_timing_data my dt =
    Inr (Some (file, take (min (unat (message_count dt)) (nat (message_max_count dt0))) (message_timing dt)))"
proof -
  have "sint (message_count dt) = int (unat (message_count dt))"
    by (rule sint_small_32) (use inv N in \<open>simp add: timing_inv_def\<close>)
  then show ?thesis
    using inv path mx
    by (auto simp: dump_detailed_timing_data_def timing_inv_def Let_def min_def nat_le_iff not_less not_le dest: nat_mono)
qed

lemma construct_max_nonneg:
  assumes "DetailedMessageTiming_construct env = Inr dt0"
  shows "message_max_count dt0 \<ge> 0"
  using assms by (auto simp: DetailedMessageTiming_construct_def obind_Inr_iff split: option.splits if_splits)

lemma recorded_iff_entry:
  assumes "timing_inv N dt0 (dt, held, hist)" and "message_max_count dt0 \<ge> 0"
    and entries: "entries = take (min (unat (message_count dt)) (nat (message_max_count dt0))) (message_timing dt)"
  shows "(j < length entries \<and> entries ! j = Some d) \<longleftrightarrow> ((int j, d) \<in> set hist \<and> int j < message_max_count dt0)"
proof
  assume "j < length entries \<and> entries ! j = Some d"
  then show "(int j, d) \<in> set hist \<and> int j < message_max_count dt0"
    using assms by (auto simp: timing_inv_def)
next
  assume h: "(int j, d) \<in> set hist \<and> int j < message_max_count dt0"
  then have "j < unat (message_count dt)" "message_timing dt ! j = Some d"
    using assms(1) by (force simp: timing_inv_def)+
  then show "j < length entries \<and> entries ! j = Some d"
    using h assms by (auto simp: timing_inv_def)
qed

section \<open>Properties\<close>

text \<open>
  C39. Whatever order any number of threads take indices and record timings in, fewer than \<open>2 ^ 31\<close> of these steps in
  all, no two recordings have the same index, and the file written in the end has at position \<open>j\<close> the data \<open>d\<close> exactly
  if \<open>d\<close> was recorded under index \<open>j\<close> and \<open>j\<close> is below the configured maximum: nothing recorded below
  the maximum is lost, overwritten or moved.
\<close>

theorem timing_records_kept:
  assumes "DetailedMessageTiming_construct env = Inr dt0" and "message_max_count dt0 \<noteq> 0"
    and "dt_path dt0 = Some path" and "timing_filename path my = Inr file"
    and "length ops < 2 ^ 31" and "timing_run ops dt0 = (dt, held, hist)"
  shows "distinct (map fst hist) \<and>
    (\<exists>entries. dump_detailed_timing_data my dt = Inr (Some (file, entries)) \<and>
       (\<forall>j d. (j < length entries \<and> entries ! j = Some d) \<longleftrightarrow> ((int j, d) \<in> set hist \<and> int j < message_max_count dt0)))"
proof -
  have inv: "timing_inv (length ops) dt0 (dt, held, hist)"
    using timing_run_inv [OF construct_inv [OF assms(1)] assms(2), of ops] assms(5,6) by (simp add: timing_run_def)
  have mx: "message_max_count dt0 \<ge> 0" by (rule construct_max_nonneg [OF assms(1)])
  show ?thesis
    using dump_entries [OF inv assms(5) mx assms(3,4)] recorded_iff_entry [OF inv mx refl] inv
    by (auto simp: timing_inv_def)
qed

text \<open>Two threads whose recordings overtake each other, and a third that comes when the array is full.\<close>

definition witness_env :: environment where
  "witness_env = [''LEGION_MESSAGE_TIMING_PATH'' \<mapsto> ''/tmp'', ''LEGION_MESSAGE_TIMING_MAX'' \<mapsto> ''2'']"

definition witness_data :: "8 word \<Rightarrow> MessageTimingData" where
  "witness_data k = timing_data 1 k 0 64 0 100 150"

definition witness_ops :: "timing_op list" where
  "witness_ops = [Take_Index 0, Take_Index 1, Record 1 (witness_data 7), Take_Index 2, Record 2 (witness_data 9), Record 0 (witness_data 8)]"

definition witness_timing :: DetailedMessageTiming where
  "witness_timing = \<lparr>dt_path = Some ''/tmp'', message_count = 0, message_max_count = 2, message_timing = [None, None]\<rparr>"

lemma witness_construct: "DetailedMessageTiming_construct witness_env = Inr witness_timing"
  by code_simp

lemma witness_filename: "timing_filename ''/tmp'' 3 = Inr ''/tmp/msgtiming_3.dat''"
  by code_simp

lemma witness_history:
  "timing_run witness_ops witness_timing =
     (witness_timing\<lparr>message_count := 3, message_timing := [Some (witness_data 8), Some (witness_data 7)]\<rparr>,
      (\<lambda>_. None), [(1, witness_data 7), (2, witness_data 9), (0, witness_data 8)])"
  by (auto simp: timing_run_def witness_ops_def witness_timing_def get_next_index_def record_timing_def)

theorem timing_records_kept_witness:
  "distinct [1 :: int, 2, 0] \<and>
   (\<exists>entries. dump_detailed_timing_data 3
        (witness_timing\<lparr>message_count := 3, message_timing := [Some (witness_data 8), Some (witness_data 7)]\<rparr>) =
        Inr (Some (''/tmp/msgtiming_3.dat'', entries)) \<and> 1 < length entries \<and> entries ! 1 = Some (witness_data 7))"
proof -
  have p: "message_max_count witness_timing = 2" "dt_path witness_timing = Some ''/tmp''" by (simp_all add: witness_timing_def)
  have l: "length witness_ops < 2 ^ 31" by (simp add: witness_ops_def)
  from timing_records_kept [OF witness_construct _ p(2) witness_filename l witness_history]
  obtain entries where e: "dump_detailed_timing_data 3
        (witness_timing\<lparr>message_count := 3, message_timing := [Some (witness_data 8), Some (witness_data 7)]\<rparr>) =
        Inr (Some (''/tmp/msgtiming_3.dat'', entries))"
    and r: "\<And>j d. (j < length entries \<and> entries ! j = Some d) \<longleftrightarrow>
      ((int j, d) \<in> set [(1, witness_data 7), (2, witness_data 9), (0, witness_data 8)] \<and> int j < 2)"
    by (auto simp: p)
  show ?thesis using e r [of 1 "witness_data 7"] by auto
qed

text \<open>The statistics of a handler are exactly those of the values recorded.\<close>

lemma handler_stats_exact:
  fixes vs :: "64 word list"
  assumes "vs \<noteq> []" and "length vs < 2 ^ 64"
  defines "st \<equiv> fold stats_record vs ActiveMsgHandlerStats_construct"
  shows "unat (hst_count st) = length vs" and "hst_sum st = sum_list vs" and "hst_sum2 st = (\<Sum>v\<leftarrow>vs. v * v)"
    and "hst_minval st = Min (set vs)" and "hst_maxval st = Max (set vs)"
proof -
  have "unat (hst_count st) = length vs \<and> hst_sum st = sum_list vs \<and> hst_sum2 st = (\<Sum>v\<leftarrow>vs. v * v) \<and>
      hst_minval st = Min (set vs) \<and> hst_maxval st = Max (set vs)"
    using assms(1,2) unfolding st_def
  proof (induction vs rule: rev_induct)
    case (snoc v vs)
    show ?case
    proof (cases "vs = []")
      case True
      then show ?thesis by (simp add: stats_record_def ActiveMsgHandlerStats_construct_def)
    next
      case False
      let ?st = "fold stats_record vs ActiveMsgHandlerStats_construct"
      have ih: "unat (hst_count ?st) = length vs" "hst_sum ?st = sum_list vs" "hst_sum2 ?st = (\<Sum>v\<leftarrow>vs. v * v)"
        "hst_minval ?st = Min (set vs)" "hst_maxval ?st = Max (set vs)" using snoc False by simp_all
      have c: "unat (hst_count ?st + 1) = Suc (length vs)" using ih(1) snoc.prems(2) by (simp add: unat_word_ariths)
      have n: "hst_count ?st \<noteq> 0" using ih(1) False by (metis length_0_conv unat_0)
      have step: "fold stats_record (vs @ [v]) ActiveMsgHandlerStats_construct = stats_record v ?st" by simp
      have "hst_minval (stats_record v ?st) = min v (hst_minval ?st)" "hst_maxval (stats_record v ?st) = max v (hst_maxval ?st)"
        using n by (auto simp: stats_record_def [of v] min_def max_def)
      then show ?thesis unfolding step using False ih c n by (simp add: stats_record_def [of v])
    qed
  qed simp
  then show "unat (hst_count st) = length vs" "hst_sum st = sum_list vs" "hst_sum2 st = (\<Sum>v\<leftarrow>vs. v * v)"
    "hst_minval st = Min (set vs)" "hst_maxval st = Max (set vs)" by blast+
qed

end
