(* ===== verification/Source_Pool.thy ===== *)
theory Source_Pool
  imports Legion_Prelude
begin

text \<open>
  The source data pool of \<^verbatim>\<open>src/templates/activemsg.cc\<close> (class \<^verbatim>\<open>SrcDataPool\<close>): a
  first-come-first-served allocator of pinned memory for outgoing payloads.  Free ranges and
  ranges in use are two ordered maps from start address to length; messages whose allocation
  failed wait in a queue of message pointers.  The size a waiting message needs is read
  through its pointer, so the operations that look at the queue take the function
  \<open>psz\<close> from message pointers to payload sizes.  Addresses and lengths of ranges are
  natural numbers (the pool lies inside one pinned segment, so no sum of theirs leaves the
  address space); the spill counters, which the code adds and subtracts without a check, are
  64-bit words.
\<close>

section \<open>State and constructor\<close>

record SrcDataPool =
  total_size :: nat
  free_list :: span_map
  pending_allocations :: "msgptr list"
  in_use :: span_map
  current_spill_bytes :: size_t
  peak_spill_bytes :: size_t
  current_spill_threshold :: size_t
  current_permsg_spill_bytes :: "nat \<Rightarrow> size_t"
  peak_permsg_spill_bytes :: "nat \<Rightarrow> size_t"
  total_permsg_spill_bytes :: "nat \<Rightarrow> size_t"
  current_suspended_spillers :: int
  total_suspended_spillers :: int

definition SrcDataPool_construct :: "size_t \<Rightarrow> addr \<Rightarrow> nat \<Rightarrow> SrcDataPool" where
  "SrcDataPool_construct print_spill_threshold base sz =
     \<lparr> total_size = sz,
       free_list = om_put base sz [],
       pending_allocations = [],
       in_use = [],
       current_spill_bytes = 0,
       peak_spill_bytes = 0,
       current_spill_threshold = print_spill_threshold,
       current_permsg_spill_bytes = (\<lambda>_. 0),
       peak_permsg_spill_bytes = (\<lambda>_. 0),
       total_permsg_spill_bytes = (\<lambda>_. 0),
       current_suspended_spillers = 0,
       total_suspended_spillers = 0 \<rparr>"

section \<open>Allocation\<close>

definition BLOCK_SIZE :: nat where
  "BLOCK_SIZE = 64"

definition round_up_size :: "nat \<Rightarrow> nat" where
  "round_up_size sz =
     (let remainder = sz mod BLOCK_SIZE
      in if remainder \<noteq> 0 then sz + (BLOCK_SIZE - remainder) else sz)"

text \<open>
  The walk over the free list: \<open>Inl p\<close> when a range of exactly the needed size starts at
  \<open>p\<close>, otherwise the smallest larger range seen (start 0 when there is none).
\<close>

fun scan_free_list :: "nat \<Rightarrow> span_map \<Rightarrow> addr \<Rightarrow> nat \<Rightarrow> addr + addr \<times> nat" where
  "scan_free_list size_needed [] smallest_upper_bound smallest_upper_size =
     Inr (smallest_upper_bound, smallest_upper_size)"
| "scan_free_list size_needed ((p, s) # it) smallest_upper_bound smallest_upper_size =
     (if s = size_needed then Inl p
      else if s > size_needed then
        (if smallest_upper_bound = 0 then scan_free_list size_needed it p s
         else if s < smallest_upper_size then scan_free_list size_needed it p s
         else scan_free_list size_needed it smallest_upper_bound smallest_upper_size)
      else scan_free_list size_needed it smallest_upper_bound smallest_upper_size)"

definition alloc_srcptr :: "SrcDataPool \<Rightarrow> nat \<Rightarrow> (SrcDataPool \<times> addr) outcome" where
  "alloc_srcptr sdp size_requested =
     (if size_requested > total_size sdp then Inl Assert_Failed
      else if pending_allocations sdp \<noteq> [] then Inr (sdp, 0)
      else
        let size_needed = round_up_size size_requested
        in case scan_free_list size_needed (free_list sdp) 0 0 of
             Inl srcptr \<Rightarrow>
               Inr (sdp\<lparr>free_list := om_del srcptr (free_list sdp),
                        in_use := om_put srcptr size_needed (in_use sdp)\<rparr>, srcptr)
           | Inr (smallest_upper_bound, smallest_upper_size) \<Rightarrow>
               if smallest_upper_bound \<noteq> 0 then
                 (case map_of (free_list sdp) smallest_upper_bound of
                    None \<Rightarrow> Inl Undefined_Behaviour
                  | Some sz \<Rightarrow>
                      let srcptr = smallest_upper_bound + (sz - size_needed)
                      in Inr (sdp\<lparr>free_list := om_put smallest_upper_bound (sz - size_needed) (free_list sdp),
                                  in_use := om_put srcptr size_needed (in_use sdp)\<rparr>, srcptr))
               else Inr (sdp, 0))"

definition add_pending :: "(msgptr \<Rightarrow> nat) \<Rightarrow> SrcDataPool \<Rightarrow> msgptr \<Rightarrow> SrcDataPool outcome" where
  "add_pending psz sdp msg =
     (if psz msg > total_size sdp then Inl Assert_Failed
      else Inr (sdp\<lparr>pending_allocations := pending_allocations sdp @ [msg]\<rparr>))"

section \<open>Release\<close>

text \<open>
  The two merge loops of \<open>release_srcptr\<close>.  \<open>absorb_below\<close> walks down from the
  released range, so its list is the part of the free list below it, highest first.
\<close>

fun absorb_below :: "span_map \<Rightarrow> addr \<Rightarrow> nat \<Rightarrow> span_map \<times> addr \<times> nat" where
  "absorb_below [] srcptr_c sz = ([], srcptr_c, sz)"
| "absorb_below ((p, s) # belows) srcptr_c sz =
     (if p + s \<noteq> srcptr_c then ((p, s) # belows, srcptr_c, sz)
      else absorb_below belows p (sz + s))"

fun absorb_above :: "span_map \<Rightarrow> addr \<Rightarrow> nat \<Rightarrow> span_map \<times> nat" where
  "absorb_above [] srcptr_c sz = ([], sz)"
| "absorb_above ((p, s) # aboves) srcptr_c sz =
     (if srcptr_c + sz \<noteq> p then ((p, s) # aboves, sz)
      else absorb_above aboves srcptr_c (sz + s))"

definition merge_adjacent :: "span_map \<Rightarrow> addr \<Rightarrow> nat \<Rightarrow> span_map \<times> addr \<times> nat" where
  "merge_adjacent fl srcptr_c sz =
     (let (belows, srcptr_c', sz') = absorb_below (rev (om_below srcptr_c fl)) srcptr_c sz;
          (aboves, sz'') = absorb_above (om_from srcptr_c fl) srcptr_c' sz'
      in (rev belows @ aboves, srcptr_c', sz''))"

text \<open>
  The loop that offers the rest of the pool to the other waiting messages.  \<open>satisfied\<close>
  collects message pointers with the memory they got.
\<close>

lemma alloc_srcptr_pending:
  "alloc_srcptr sdp n = Inr (sdp', p) \<Longrightarrow> pending_allocations sdp' = pending_allocations sdp"
  by (auto simp: alloc_srcptr_def Let_def split: if_splits sum.splits prod.splits option.splits)

function satisfy_pending ::
  "(msgptr \<Rightarrow> nat) \<Rightarrow> SrcDataPool \<Rightarrow> (msgptr \<times> addr) list
     \<Rightarrow> (SrcDataPool \<times> (msgptr \<times> addr) list) outcome" where
  "satisfy_pending psz sdp satisfied =
     (case pending_allocations sdp of
        [] \<Rightarrow> Inr (sdp, satisfied)
      | msg # rest \<Rightarrow>
          (case alloc_srcptr sdp (psz msg) of
             Inl e \<Rightarrow> Inl e
           | Inr (sdp', ptr) \<Rightarrow>
               if ptr = 0 then Inr (sdp', satisfied)
               else satisfy_pending psz
                      (sdp'\<lparr>pending_allocations := tl (pending_allocations sdp')\<rparr>)
                      (satisfied @ [(msg, ptr)])))"
  by pat_completeness auto
termination
  by (relation "measure (\<lambda>(psz, sdp, satisfied). length (pending_allocations sdp))")
    (auto dest: alloc_srcptr_pending)

declare satisfy_pending.simps [simp del]

definition release_srcptr ::
  "(msgptr \<Rightarrow> nat) \<Rightarrow> SrcDataPool \<Rightarrow> addr \<Rightarrow> (SrcDataPool \<times> (msgptr \<times> addr) list) outcome" where
  "release_srcptr psz sdp srcptr =
     (case map_of (in_use sdp) srcptr of
        None \<Rightarrow> Inl Assert_Failed
      | Some sz \<Rightarrow>
          let sdp1 = sdp\<lparr>in_use := om_del srcptr (in_use sdp)\<rparr>
          in if map_of (free_list sdp1) srcptr \<noteq> None then Inl Assert_Failed
             else
               let (fl, srcptr_c, sz') =
                     (if free_list sdp1 \<noteq> [] then merge_adjacent (free_list sdp1) srcptr sz
                      else ([], srcptr, sz))
               in case pending_allocations sdp1 of
                    [] \<Rightarrow> Inr (sdp1\<lparr>free_list := om_put srcptr_c sz' fl\<rparr>, [])
                  | msg # rest \<Rightarrow>
                      if sz' \<ge> psz msg then
                        let act_size = round_up_size (psz msg);
                            sdp2 = sdp1\<lparr>free_list :=
                                          (if sz' > act_size
                                           then om_put (srcptr_c + act_size) (sz' - act_size) fl else fl),
                                        pending_allocations := rest,
                                        in_use := om_put srcptr_c act_size (in_use sdp1)\<rparr>
                        in satisfy_pending psz sdp2 [(msg, srcptr_c)]
                      else Inr (sdp1\<lparr>free_list := om_put srcptr_c sz' fl\<rparr>, []))"

section \<open>Rounding\<close>

lemma round_up_size_dvd [simp, intro]: "64 dvd round_up_size n"
proof (cases "n mod 64 = 0")
  case False
  have "n mod 64 < 64" by simp
  with mult_div_mod_eq [of 64 n] have "n + (64 - n mod 64) = 64 * (n div 64 + 1)"
    by arith
  with False show ?thesis
    by (simp add: round_up_size_def BLOCK_SIZE_def Let_def)
qed (simp add: round_up_size_def BLOCK_SIZE_def dvd_eq_mod_eq_0)

lemma round_up_size_ge: "n \<le> round_up_size n"
  by (simp add: round_up_size_def Let_def)

lemma round_up_size_less: "round_up_size n < n + 64"
  by (simp add: round_up_size_def BLOCK_SIZE_def Let_def)

lemma round_up_size_pos: "0 < n \<Longrightarrow> 0 < round_up_size n"
  using round_up_size_ge [of n] by linarith

lemma round_up_size_least:
  assumes "n \<le> m" and "64 dvd m"
  shows "round_up_size n \<le> m"
proof -
  obtain a b where "round_up_size n = 64 * a" "m = 64 * b"
    using assms(2) round_up_size_dvd by (meson dvdE)
  with assms(1) round_up_size_less [of n] show ?thesis by simp
qed

section \<open>The walk over the free list\<close>

lemma scan_exact: "scan_free_list n fl b s = Inl p \<Longrightarrow> (p, n) \<in> set fl"
  by (induction n fl b s rule: scan_free_list.induct) (auto split: if_splits)

lemma scan_upper:
  assumes "scan_free_list n fl b s = Inr (b', s')" and "0 \<notin> fst ` set fl" and "b \<noteq> 0 \<longrightarrow> n < s"
  shows "(\<forall>x \<in> set fl. snd x \<noteq> n) \<and>
         (b' = 0 \<longrightarrow> b = 0 \<and> (\<forall>x \<in> set fl. snd x < n)) \<and>
         (b' \<noteq> 0 \<longrightarrow> n < s' \<and> ((b', s') \<in> set fl \<or> (b', s') = (b, s)) \<and>
            (\<forall>x \<in> set fl. n < snd x \<longrightarrow> s' \<le> snd x) \<and> (b \<noteq> 0 \<longrightarrow> s' \<le> s))"
  using assms
proof (induction n fl b s rule: scan_free_list.induct)
  case (2 n p t it b s)
  have z: "0 \<notin> fst ` set it" "p \<noteq> 0" using "2.prems"(2) by auto
  have tn: "t \<noteq> n" using "2.prems"(1) by (auto split: if_splits)
  consider (new) "n < t" "b = 0 \<or> t < s" | (old) "n < t" "b \<noteq> 0" "s \<le> t" | (small) "t < n"
    using tn by linarith
  then show ?case
  proof cases
    case new
    then have r: "scan_free_list n it p t = Inr (b', s')"
      using "2.prems"(1) by (auto split: if_splits)
    have IH: "(\<forall>x\<in>set it. snd x \<noteq> n)" "b' \<noteq> 0" "n < s'"
      "(b', s') \<in> set it \<or> (b', s') = (p, t)" "\<forall>x\<in>set it. n < snd x \<longrightarrow> s' \<le> snd x" "s' \<le> t"
      using "2.IH"(1) [OF tn new(1) _ r z(1)] "2.IH"(2) [OF tn new(1) _ _ r z(1)] new z(2) by auto
    with new tn show ?thesis by auto
  next
    case old
    then have r: "scan_free_list n it b s = Inr (b', s')"
      using "2.prems"(1) by (auto split: if_splits)
    from old "2.IH"(3) [OF tn old(1,2) _ r z(1) "2.prems"(3)] tn show ?thesis by auto
  next
    case small
    then have r: "scan_free_list n it b s = Inr (b', s')"
      using "2.prems"(1) by (auto split: if_splits)
    from small "2.IH"(4) [OF tn _ r z(1) "2.prems"(3)] tn show ?thesis by auto
  qed
qed auto

section \<open>Merging\<close>

lemma absorb_below_spec:
  assumes "absorb_below bs p s = (bs', p', s')"
    and "gapped (rev bs)" and "\<forall>x \<in> set bs. fst x + snd x \<le> p"
  shows "gapped (rev bs') \<and> set bs' \<subseteq> set bs \<and> (\<forall>x \<in> set bs'. fst x + snd x < p') \<and>
         p' \<le> p \<and> p' + s' = p + s \<and> bytes_of bs' \<union> {p' ..< p} = bytes_of bs \<and>
         (p' \<noteq> p \<longrightarrow> p' \<in> fst ` set bs)"
  using assms
proof (induction bs p s rule: absorb_below.induct)
  case (2 q t bs p s)
  have g: "gapped (rev bs)" "\<forall>x \<in> set bs. fst x + snd x < q" "0 < t"
    using "2.prems"(2) unfolding rev.simps gapped_append by (auto simp: gapped_def)
  show ?case
  proof (cases "q + t = p")
    case True
    with "2.prems" have r: "absorb_below bs q (s + t) = (bs', p', s')" by simp
    have "\<forall>x \<in> set bs. fst x + snd x \<le> q" using g(2) by (auto intro: less_imp_le)
    with "2.IH" [OF _ r g(1)] True have IH: "gapped (rev bs')" "set bs' \<subseteq> set bs"
      "\<forall>x \<in> set bs'. fst x + snd x < p'" "p' \<le> q" "p' + s' = q + (s + t)"
      "bytes_of bs' \<union> {p' ..< q} = bytes_of bs" "p' \<noteq> q \<longrightarrow> p' \<in> fst ` set bs"
      by simp_all
    have "bytes_of bs' \<union> {p' ..< p} = bytes_of bs' \<union> {p' ..< q} \<union> {q ..< p}"
      using IH(4) True by (simp add: Un_assoc ivl_disj_un_two(3))
    with IH True show ?thesis by (auto simp: span_pair)
  next
    case False
    with "2.prems" g show ?thesis
      by (auto simp: span_pair intro: le_neq_implies_less dest: order.strict_trans2) fastforce
  qed
qed auto

lemma absorb_above_spec:
  assumes "absorb_above bs p s = (bs', s')"
    and "gapped bs" and "\<forall>x \<in> set bs. p + s \<le> fst x"
  shows "gapped bs' \<and> set bs' \<subseteq> set bs \<and> (\<forall>x \<in> set bs'. p + s' < fst x) \<and>
         s \<le> s' \<and> bytes_of bs' \<union> {p + s ..< p + s'} = bytes_of bs"
  using assms
proof (induction bs p s rule: absorb_above.induct)
  case (2 q t bs p s)
  have g: "gapped bs" "\<forall>x \<in> set bs. q + t < fst x" "0 < t"
    using "2.prems"(2) by (auto simp: gapped_def)
  show ?case
  proof (cases "p + s = q")
    case True
    with "2.prems" have r: "absorb_above bs p (s + t) = (bs', s')" by simp
    have "\<forall>x \<in> set bs. p + (s + t) \<le> fst x" using g(2) True by (auto simp: add.assoc [symmetric] intro: less_imp_le)
    with "2.IH" [OF _ r g(1)] True have IH: "gapped bs'" "set bs' \<subseteq> set bs"
      "\<forall>x \<in> set bs'. p + s' < fst x" "s + t \<le> s'"
      "bytes_of bs' \<union> {p + (s + t) ..< p + s'} = bytes_of bs"
      by simp_all
    have "{p + s ..< p + s'} = {q ..< q + t} \<union> {p + (s + t) ..< p + s'}"
      using IH(4) True by (simp add: add.assoc [symmetric] ivl_disj_un_two(3))
    with IH True show ?thesis by (auto simp: span_pair)
  next
    case False
    with "2.prems" g show ?thesis
      by (fastforce simp: span_pair)
  qed
qed auto

section \<open>The pool invariant\<close>

text \<open>
  \<open>sdp_layout\<close>: the free list is coalesced, the ranges in use are disjoint, every length
  is a multiple of the block size, and the two maps partition the pool.  \<open>sdp_inv\<close> adds the
  queue: a waiting message needs a size the pool can hold, and while one waits some range is
  in use, so that a release will come.
\<close>

definition sdp_layout :: "addr \<Rightarrow> SrcDataPool \<Rightarrow> bool" where
  "sdp_layout base sdp \<longleftrightarrow>
     0 < base \<and> 64 dvd total_size sdp \<and>
     gapped (free_list sdp) \<and> apart (in_use sdp) \<and>
     (\<forall>x \<in> set (free_list sdp) \<union> set (in_use sdp). 64 dvd snd x) \<and>
     bytes_of (free_list sdp) \<inter> bytes_of (in_use sdp) = {} \<and>
     bytes_of (free_list sdp) \<union> bytes_of (in_use sdp) = {base ..< base + total_size sdp}"

definition sdp_inv :: "(msgptr \<Rightarrow> nat) \<Rightarrow> addr \<Rightarrow> SrcDataPool \<Rightarrow> bool" where
  "sdp_inv psz base sdp \<longleftrightarrow>
     sdp_layout base sdp \<and>
     (\<forall>m \<in> set (pending_allocations sdp). 0 < psz m \<and> psz m \<le> total_size sdp) \<and>
     (pending_allocations sdp \<noteq> [] \<longrightarrow> in_use sdp \<noteq> [])"

lemma gapped_keys_pos:
  assumes "sdp_layout base sdp"
  shows "0 \<notin> fst ` set (free_list sdp)"
proof
  assume "0 \<in> fst ` set (free_list sdp)"
  then obtain s where "(0, s) \<in> set (free_list sdp)" by auto
  then have "0 \<in> bytes_of (free_list sdp)"
    using assms apart_key_in_bytes gapped_apart unfolding sdp_layout_def by blast
  with assms show False unfolding sdp_layout_def by fastforce
qed

lemma sdp_construct_inv:
  assumes "0 < base" and "0 < n" and "64 dvd n"
  shows "sdp_inv psz base (SrcDataPool_construct thr base n)"
  using assms
  by (auto simp: sdp_inv_def sdp_layout_def SrcDataPool_construct_def gapped_def apart_def
      om_put_def om_below_def om_from_def om_del_def span_pair)

text \<open>Cutting a range off the free list, and putting it in use.\<close>

lemma layout_take_exact:
  assumes L: "sdp_layout base sdp" and p: "(p, n) \<in> set (free_list sdp)"
  shows "sdp_layout base (sdp\<lparr>free_list := om_del p (free_list sdp),
                              in_use := om_put p n (in_use sdp)\<rparr>)"
proof -
  have n: "0 < n" "64 dvd n" using L p by (force simp: sdp_layout_def gapped_def)+
  have ap: "apart (free_list sdp)" "apart (in_use sdp)"
    using L by (auto simp: sdp_layout_def intro: gapped_apart)
  have sub: "{p ..< p + n} \<subseteq> bytes_of (free_list sdp)"
    using span_subset_bytes [OF p] by (simp add: span_pair)
  have dis: "bytes_of (in_use sdp) \<inter> {p ..< p + n} = {}"
    using L sub by (auto simp: sdp_layout_def)
  note put = apart_put [OF ap(2) n(1) dis]
  have ok: "om_ok (in_use sdp)" using ap(2) by (simp add: apart_def)
  have "bytes_of (om_put p n (in_use sdp)) = bytes_of (in_use sdp) \<union> {p ..< p + n}"
    using ok put(2) by (rule bytes_of_put_fresh)
  moreover have "bytes_of (om_del p (free_list sdp)) = bytes_of (free_list sdp) - {p ..< p + n}"
    using ap(1) p by (rule bytes_of_del)
  ultimately show ?thesis
    using L put(1) n(2) sub
    by (auto simp: sdp_layout_def set_om_del set_om_put ok intro: gapped_del)
qed

lemma layout_take_top:
  assumes L: "sdp_layout base sdp" and p: "(p, s) \<in> set (free_list sdp)"
    and n: "0 < n" "64 dvd n" "n < s"
  shows "sdp_layout base (sdp\<lparr>free_list := om_put p (s - n) (free_list sdp),
                              in_use := om_put (p + (s - n)) n (in_use sdp)\<rparr>)"
proof -
  have ap: "gapped (free_list sdp)" "apart (in_use sdp)"
    using L by (auto simp: sdp_layout_def)
  have s: "64 dvd s" using L p by (force simp: sdp_layout_def)
  have sub: "{p ..< p + s} \<subseteq> bytes_of (free_list sdp)"
    using span_subset_bytes [OF p] by (simp add: span_pair)
  have eq: "{p + (s - n) ..< p + (s - n) + n} = {p + (s - n) ..< p + s}"
    using n by simp
  have tops: "{p + (s - n) ..< p + s} \<subseteq> bytes_of (free_list sdp)" using sub by auto
  then have dis: "bytes_of (in_use sdp) \<inter> {p + (s - n) ..< p + (s - n) + n} = {}"
    using L unfolding eq sdp_layout_def by blast
  note put = apart_put [OF ap(2) n(1) dis]
  have ok: "om_ok (in_use sdp)" using ap(2) by (simp add: apart_def)
  have "0 < s - n" "s - n \<le> s" using n by auto
  note shr = gapped_shrink [OF ap(1) p this]
  have U: "bytes_of (om_put (p + (s - n)) n (in_use sdp)) =
        bytes_of (in_use sdp) \<union> {p + (s - n) ..< p + s}"
    using bytes_of_put_fresh [OF ok put(2), of n] unfolding eq .
  have sn: "p + (s - n) + n = p + s" using n by simp
  with L U shr(2) tops
  have "bytes_of (om_put p (s - n) (free_list sdp)) \<inter> bytes_of (om_put (p + (s - n)) n (in_use sdp)) = {}"
    "bytes_of (om_put p (s - n) (free_list sdp)) \<union> bytes_of (om_put (p + (s - n)) n (in_use sdp))
       = {base ..< base + total_size sdp}"
    unfolding sdp_layout_def by blast+
  with L put(1) shr(1) n s show ?thesis
    by (auto simp: sdp_layout_def shr(3) set_om_put ok dvd_diff_nat)
qed

section \<open>Allocation: every outcome\<close>

lemma alloc_srcptr_cases:
  assumes inv: "sdp_layout base sdp" and n: "0 < n" "n \<le> total_size sdp"
  obtains (wait) "alloc_srcptr sdp n = Inr (sdp, 0)"
      "pending_allocations sdp \<noteq> [] \<or> (\<forall>x \<in> set (free_list sdp). snd x < round_up_size n)"
  | (got) p fl where
      "alloc_srcptr sdp n =
         Inr (sdp\<lparr>free_list := fl, in_use := om_put p (round_up_size n) (in_use sdp)\<rparr>, p)"
      "pending_allocations sdp = []" "p \<noteq> 0"
      "{p ..< p + round_up_size n} \<subseteq> bytes_of (free_list sdp)"
      "sdp_layout base (sdp\<lparr>free_list := fl, in_use := om_put p (round_up_size n) (in_use sdp)\<rparr>)"
proof (cases "pending_allocations sdp = []")
  case False
  with n show ?thesis by (intro wait) (auto simp: alloc_srcptr_def)
next
  case True
  let ?n = "round_up_size n"
  have r: "0 < ?n" using n(1) by (rule round_up_size_pos)
  note z = gapped_keys_pos [OF inv]
  have ok: "om_ok (free_list sdp)" using inv by (auto simp: sdp_layout_def intro: gapped_om_ok)
  show ?thesis
  proof (cases "scan_free_list ?n (free_list sdp) 0 0")
    case (Inl p)
    then have p: "(p, ?n) \<in> set (free_list sdp)" by (rule scan_exact)
    moreover from p z have "p \<noteq> 0" by force
    moreover have "{p ..< p + ?n} \<subseteq> bytes_of (free_list sdp)"
      using span_subset_bytes [OF p] by (simp add: span_pair)
    ultimately show ?thesis
      using Inl True n layout_take_exact [OF inv p] by (intro got) (auto simp: alloc_srcptr_def)
  next
    case (Inr bs)
    obtain b s where bs: "bs = (b, s)" by (cases bs)
    note up = scan_upper [OF Inr [unfolded bs] z, simplified]
    show ?thesis
    proof (cases "b = 0")
      case True
      with up Inr bs \<open>pending_allocations sdp = []\<close> n show ?thesis
        by (intro wait) (auto simp: alloc_srcptr_def)
    next
      case False
      with up have b: "(b, s) \<in> set (free_list sdp)" "?n < s" by auto
      then have f: "map_of (free_list sdp) b = Some s" using ok by (simp add: om_find_iff)
      have "{b + (s - ?n) ..< b + (s - ?n) + ?n} \<subseteq> bytes_of (free_list sdp)"
      proof (rule subset_trans)
        show "{b + (s - ?n) ..< b + (s - ?n) + ?n} \<subseteq> {b ..< b + s}" using b(2) by auto
        show "{b ..< b + s} \<subseteq> bytes_of (free_list sdp)"
          using span_subset_bytes [OF b(1)] by (simp add: span_pair)
      qed
      with False f True n Inr bs layout_take_top [OF inv b(1) r _ b(2)] show ?thesis
        by (intro got) (auto simp: alloc_srcptr_def Let_def)
    qed
  qed
qed

lemma satisfy_pending_stops:
  assumes "pending_allocations sdp \<noteq> [] \<longrightarrow> psz (hd (pending_allocations sdp)) \<le> total_size sdp"
  shows "satisfy_pending psz sdp acc = Inr (sdp, acc)"
  using assms by (subst satisfy_pending.simps) (auto simp: alloc_srcptr_def split: list.splits)

section \<open>Merging a released range\<close>

lemma absorb_below_dvd:
  "absorb_below bs p s = (bs', p', s') \<Longrightarrow> d dvd s \<Longrightarrow> \<forall>x \<in> set bs. d dvd snd x \<Longrightarrow> d dvd s'"
  by (induction bs p s rule: absorb_below.induct) (auto split: if_splits)

lemma absorb_above_dvd:
  "absorb_above bs p s = (bs', s') \<Longrightarrow> d dvd s \<Longrightarrow> \<forall>x \<in> set bs. d dvd snd x \<Longrightarrow> d dvd s'"
  by (induction bs p s rule: absorb_above.induct) (auto split: if_splits)

lemma merge_adjacent_spec:
  assumes m: "merge_adjacent fl p s = (fl', p', s')"
    and g: "gapped fl" and d: "bytes_of fl \<inter> {p ..< p + s} = {}" and s: "0 < s"
  shows "gapped fl'" "set fl' \<subseteq> set fl"
    "\<forall>x \<in> set fl'. fst x + snd x < p' \<or> p' + s' < fst x"
    "bytes_of fl' \<union> {p' ..< p' + s'} = bytes_of fl \<union> {p ..< p + s}"
    "bytes_of fl' \<inter> {p' ..< p' + s'} = {}"
    "p' \<le> p" "p + s \<le> p' + s'"
proof -
  obtain bs s1 as where
    b: "absorb_below (rev (om_below p fl)) p s = (bs, p', s1)" and
    a: "absorb_above (om_from p fl) p' s1 = (as, s')" and fl': "fl' = rev bs @ as"
    using m by (auto simp: merge_adjacent_def Let_def split: prod.splits)
  have parts: "gapped (om_below p fl)" "gapped (om_from p fl)"
    "\<forall>x \<in> set (om_below p fl). \<forall>y \<in> set (om_from p fl). fst x + snd x < fst y"
    using g gapped_append [of "om_below p fl" "om_from p fl"] by (simp_all add: om_split)
  have lo: "\<forall>x \<in> set (rev (om_below p fl)). fst x + snd x \<le> p"
    and hi: "\<forall>x \<in> set (om_from p fl). p + s \<le> fst x"
    using gapped_sides [OF g d s] by simp_all
  have B: "gapped (rev bs)" "set bs \<subseteq> set (om_below p fl)" "\<forall>x \<in> set bs. fst x + snd x < p'"
    "p' \<le> p" "p' + s1 = p + s" "bytes_of bs \<union> {p' ..< p} = bytes_of (om_below p fl)"
    using absorb_below_spec [OF b] parts(1) lo by auto
  have A: "gapped as" "set as \<subseteq> set (om_from p fl)" "\<forall>x \<in> set as. p' + s' < fst x"
    "s1 \<le> s'" "bytes_of as \<union> {p' + s1 ..< p' + s'} = bytes_of (om_from p fl)"
    using absorb_above_spec [OF a parts(2)] hi B(5) by auto
  show "gapped fl'"
    using B(1-3) A(1,2) parts(3) unfolding fl' gapped_append by fastforce
  show "set fl' \<subseteq> set fl"
    using A(2) B(2) set_om_split [of fl p] unfolding fl' by auto
  show sep: "\<forall>x \<in> set fl'. fst x + snd x < p' \<or> p' + s' < fst x"
    using A(3) B(3) unfolding fl' by auto
  show "p' \<le> p" "p + s \<le> p' + s'" using A(4) B(4,5) by auto
  then have "{p' ..< p' + s'} = {p' ..< p} \<union> {p ..< p + s} \<union> {p' + s1 ..< p' + s'}"
    using B(5) A(4) by auto
  moreover have "bytes_of fl = bytes_of (om_below p fl) \<union> bytes_of (om_from p fl)"
    by (metis om_split bytes_of_append)
  ultimately show "bytes_of fl' \<union> {p' ..< p' + s'} = bytes_of fl \<union> {p ..< p + s}"
    using A(5) B(6) unfolding fl' by auto
  show "bytes_of fl' \<inter> {p' ..< p' + s'} = {}"
    using sep by (fastforce simp: bytes_of_def span_def)
qed

lemma merge_adjacent_dvd:
  assumes "merge_adjacent fl p s = (fl', p', s')" and "d dvd s" and "\<forall>x \<in> set fl. d dvd snd x"
  shows "d dvd s'"
  using assms set_om_split [of fl p]
  by (auto simp: merge_adjacent_def Let_def split: prod.splits
      dest!: absorb_below_dvd [of _ _ _ _ _ _ d] absorb_above_dvd [of _ _ _ _ _ d])

section \<open>Release: every outcome\<close>

lemma merge_adjacent_Nil [simp]: "merge_adjacent [] p s = ([], p, s)"
  by (simp add: merge_adjacent_def om_below_def om_from_def)

lemma freed_facts:
  assumes L: "sdp_layout base sdp" and u: "(p, s) \<in> set (in_use sdp)"
    and m: "merge_adjacent (free_list sdp) p s = (fl, q, t)"
  shows "gapped fl" "\<forall>x \<in> set fl. 64 dvd snd x"
    "\<forall>x \<in> set fl. fst x + snd x < q \<or> q + t < fst x" "64 dvd t" "s \<le> t" "0 < t" "0 < q"
    "bytes_of fl \<inter> {q ..< q + t} = {}"
    "bytes_of fl \<union> {q ..< q + t} = bytes_of (free_list sdp) \<union> {p ..< p + s}"
    "bytes_of (om_del p (in_use sdp)) \<inter> (bytes_of fl \<union> {q ..< q + t}) = {}"
    "bytes_of (om_del p (in_use sdp)) \<union> (bytes_of fl \<union> {q ..< q + t}) = {base ..< base + total_size sdp}"
proof -
  have ap: "apart (in_use sdp)" and g: "gapped (free_list sdp)" using L by (auto simp: sdp_layout_def)
  have sub: "{p ..< p + s} \<subseteq> bytes_of (in_use sdp)"
    using span_subset_bytes [OF u] by (simp add: span_pair)
  have "0 < snd (p, s)" "64 dvd snd (p, s)"
    using ap L u unfolding apart_def sdp_layout_def by blast+
  then have s: "0 < s" "64 dvd s" by simp_all
  have d: "bytes_of (free_list sdp) \<inter> {p ..< p + s} = {}"
    using L sub unfolding sdp_layout_def by blast
  note M = merge_adjacent_spec [OF m g d s(1)]
  show "gapped fl" "\<forall>x \<in> set fl. fst x + snd x < q \<or> q + t < fst x"
    "bytes_of fl \<inter> {q ..< q + t} = {}" by (fact M)+
  show "\<forall>x \<in> set fl. 64 dvd snd x" using M(2) L by (auto simp: sdp_layout_def)
  show "64 dvd t" using merge_adjacent_dvd [OF m s(2)] L by (simp add: sdp_layout_def)
  show "s \<le> t" "0 < t" using M(6,7) s(1) by auto
  show eq: "bytes_of fl \<union> {q ..< q + t} = bytes_of (free_list sdp) \<union> {p ..< p + s}" by (fact M)
  have del: "bytes_of (om_del p (in_use sdp)) = bytes_of (in_use sdp) - {p ..< p + s}"
    using ap u by (rule bytes_of_del)
  show "bytes_of (om_del p (in_use sdp)) \<inter> (bytes_of fl \<union> {q ..< q + t}) = {}"
    using L unfolding eq del sdp_layout_def by blast
  show un: "bytes_of (om_del p (in_use sdp)) \<union> (bytes_of fl \<union> {q ..< q + t}) = {base ..< base + total_size sdp}"
    using L sub unfolding eq del sdp_layout_def by blast
  have "q \<in> {q ..< q + t}" using \<open>0 < t\<close> by simp
  then have "q \<in> {base ..< base + total_size sdp}" unfolding un [symmetric] by blast
  then show "0 < q" using L by (auto simp: sdp_layout_def)
qed

lemma layout_keep_freed:
  assumes L: "sdp_layout base sdp" and u: "(p, s) \<in> set (in_use sdp)"
    and m: "merge_adjacent (free_list sdp) p s = (fl, q, t)"
  shows "sdp_layout base (sdp\<lparr>in_use := om_del p (in_use sdp), free_list := om_put q t fl\<rparr>)"
proof -
  note F = freed_facts [OF L u m]
  note I = gapped_insert [OF F(1,6,3)]
  have "bytes_of (om_put q t fl) = bytes_of fl \<union> {q ..< q + t}"
    using gapped_om_ok [OF F(1)] I(2) by (rule bytes_of_put_fresh)
  with F(4,10,11) I(1) L F(2) show ?thesis
    unfolding sdp_layout_def
    by (auto simp: set_om_put gapped_om_ok [OF F(1)] set_om_del Int_commute Un_commute intro: apart_del)
qed

lemma layout_give_freed:
  assumes L: "sdp_layout base sdp" and u: "(p, s) \<in> set (in_use sdp)"
    and m: "merge_adjacent (free_list sdp) p s = (fl, q, t)"
    and a: "0 < a" "64 dvd a" "a \<le> t"
  shows "sdp_layout base
           (sdp\<lparr>in_use := om_put q a (om_del p (in_use sdp)),
                free_list := (if t > a then om_put (q + a) (t - a) fl else fl)\<rparr>)"
proof -
  note F = freed_facts [OF L u m]
  let ?fl = "if t > a then om_put (q + a) (t - a) fl else fl"
  have cut: "{q ..< q + t} = {q ..< q + a} \<union> {q + a ..< q + t}" using a(3) by auto
  have ap: "apart (om_del p (in_use sdp))" using L by (auto simp: sdp_layout_def intro: apart_del)
  have "bytes_of (om_del p (in_use sdp)) \<inter> {q ..< q + a} = {}"
    using F(10) unfolding cut by blast
  note P = apart_put [OF ap a(1) this]
  have ok: "om_ok (om_del p (in_use sdp))" using ap by (simp add: apart_def)
  have U: "bytes_of (om_put q a (om_del p (in_use sdp))) =
             bytes_of (om_del p (in_use sdp)) \<union> {q ..< q + a}"
    using ok P(2) by (rule bytes_of_put_fresh)
  have G: "gapped ?fl \<and> bytes_of ?fl = bytes_of fl \<union> {q + a ..< q + t} \<and> (\<forall>x \<in> set ?fl. 64 dvd snd x)"
  proof (cases "t > a")
    case True
    have "\<forall>x \<in> set fl. fst x + snd x < q + a \<or> q + a + (t - a) < fst x"
      using F(3) True by fastforce
    note I = gapped_insert [OF F(1) _ this]
    have "bytes_of (om_put (q + a) (t - a) fl) = bytes_of fl \<union> {q + a ..< q + a + (t - a)}"
      using gapped_om_ok [OF F(1)] I(2) True by (intro bytes_of_put_fresh) auto
    with I(1) True F(2,4) a(2) show ?thesis
      by (auto simp: set_om_put gapped_om_ok [OF F(1)] dvd_diff_nat)
  next
    case False
    with F(1,2) show ?thesis by simp
  qed
  have "bytes_of ?fl \<inter> bytes_of (om_put q a (om_del p (in_use sdp))) = {}"
    using G U F(8,10) cut by (auto simp: disjoint_iff)
  moreover have "bytes_of ?fl \<union> bytes_of (om_put q a (om_del p (in_use sdp))) = {base ..< base + total_size sdp}"
    using G unfolding U F(11) [symmetric] cut by blast
  moreover have "\<forall>x \<in> set (om_put q a (om_del p (in_use sdp))). 64 dvd snd x"
    using L a(2) by (auto simp: set_om_put ok set_om_del sdp_layout_def)
  ultimately show ?thesis
    using L P(1) G unfolding sdp_layout_def by auto
qed

lemma whole_pool_freed:
  assumes L: "sdp_layout base sdp" and u: "in_use sdp = [(p, s)]"
    and m: "merge_adjacent (free_list sdp) p s = (fl, q, t)"
  shows "t = total_size sdp"
proof -
  have "(p, s) \<in> set (in_use sdp)" using u by simp
  note F = freed_facts [OF L this m]
  note I = gapped_insert [OF F(1,6,3)]
  have "bytes_of (om_put q t fl) = {base ..< base + total_size sdp}"
    using bytes_of_put_fresh [OF gapped_om_ok [OF F(1)] I(2)] F(11) u by (simp add: om_del_def)
  moreover have "0 < total_size sdp"
    using F(6,11) by (cases "total_size sdp = 0") auto
  ultimately have "om_put q t fl = [(base, total_size sdp)]"
    using gapped_interval [OF I(1)] by simp
  then show ?thesis by (auto simp: om_put_def append_eq_Cons_conv)
qed

lemma free_when_unused:
  assumes "sdp_layout base sdp" and "in_use sdp = []" and "0 < total_size sdp"
  shows "free_list sdp = [(base, total_size sdp)]"
  using gapped_interval [of "free_list sdp" base "base + total_size sdp"] assms
  by (simp add: sdp_layout_def)

lemma sdp_inv_alloc:
  assumes inv: "sdp_inv psz base sdp" and n: "0 < n" "n \<le> total_size sdp"
    and r: "alloc_srcptr sdp n = Inr (sdp', p)"
  shows "sdp_inv psz base sdp'"
proof -
  have "sdp_layout base sdp" using inv by (simp add: sdp_inv_def)
  from alloc_srcptr_cases [OF this n] show ?thesis
    using inv r by cases (auto simp: sdp_inv_def om_put_def)
qed

lemma release_srcptr_cases:
  assumes inv: "sdp_inv psz base sdp" and u: "(p, s) \<in> set (in_use sdp)"
    and m: "merge_adjacent (free_list sdp) p s = (fl, q, t)"
  obtains (keep) "release_srcptr psz sdp p =
        Inr (sdp\<lparr>in_use := om_del p (in_use sdp), free_list := om_put q t fl\<rparr>, [])"
      "pending_allocations sdp = [] \<or> t < psz (hd (pending_allocations sdp))"
      "sdp_inv psz base (sdp\<lparr>in_use := om_del p (in_use sdp), free_list := om_put q t fl\<rparr>)"
  | (give) msg rest a where "pending_allocations sdp = msg # rest" "psz msg \<le> t"
      "a = round_up_size (psz msg)" "a \<le> t" "0 < a" "64 dvd a"
      "release_srcptr psz sdp p =
        Inr (sdp\<lparr>free_list := (if t > a then om_put (q + a) (t - a) fl else fl),
             pending_allocations := rest,
             in_use := om_put q a (om_del p (in_use sdp))\<rparr>, [(msg, q)])"
      "sdp_inv psz base (sdp\<lparr>free_list := (if t > a then om_put (q + a) (t - a) fl else fl),
             pending_allocations := rest,
             in_use := om_put q a (om_del p (in_use sdp))\<rparr>)"
proof -
  have L: "sdp_layout base sdp" using inv by (simp add: sdp_inv_def)
  have ok: "om_ok (in_use sdp)" using L by (simp add: sdp_layout_def apart_def)
  have f: "map_of (in_use sdp) p = Some s" using ok u by (simp add: om_find_iff)
  have "p \<notin> fst ` set (free_list sdp)"
  proof
    assume "p \<in> fst ` set (free_list sdp)"
    then obtain s' where "(p, s') \<in> set (free_list sdp)" by auto
    then have "p \<in> bytes_of (free_list sdp)"
      using L by (intro apart_key_in_bytes gapped_apart) (simp_all add: sdp_layout_def)
    moreover have "p \<in> bytes_of (in_use sdp)"
      using L u by (intro apart_key_in_bytes) (simp_all add: sdp_layout_def)
    ultimately show False using L unfolding sdp_layout_def by blast
  qed
  then have nf: "map_of (free_list sdp) p = None" by (simp add: map_of_eq_None_iff)
  have mm: "(if free_list sdp1 \<noteq> [] then merge_adjacent (free_list sdp1) p s else ([], p, s)) = (fl, q, t)"
    if "sdp1 = sdp\<lparr>in_use := om_del p (in_use sdp)\<rparr>" for sdp1
    using m that by auto
  note F = freed_facts [OF L u m]
  show ?thesis
  proof (cases "pending_allocations sdp = [] \<or> t < psz (hd (pending_allocations sdp))")
    case True
    have "release_srcptr psz sdp p =
        Inr (sdp\<lparr>in_use := om_del p (in_use sdp), free_list := om_put q t fl\<rparr>, [])"
      unfolding release_srcptr_def f option.case Let_def mm [OF refl] prod.case
      using True nf by (auto split: list.splits)
    moreover have "om_del p (in_use sdp) \<noteq> []" if w: "pending_allocations sdp \<noteq> []"
    proof
      assume "om_del p (in_use sdp) = []"
      moreover have "set (om_del p (in_use sdp)) = set (in_use sdp) - {(p, s)}"
        using ok u by (rule set_om_del_entry)
      moreover have "distinct (in_use sdp)" using om_ok_distinct [OF ok] by (simp add: distinct_map)
      ultimately have "in_use sdp = [(p, s)]"
        using u by (cases "in_use sdp" rule: remdups_adj.cases) auto
      then have "t = total_size sdp" using whole_pool_freed [OF L _ m] by blast
      with True w inv show False
        by (cases "pending_allocations sdp") (auto simp: sdp_inv_def)
    qed
    ultimately show ?thesis
      using keep True layout_keep_freed [OF L u m] inv by (auto simp: sdp_inv_def)
  next
    case False
    then obtain msg rest where w: "pending_allocations sdp = msg # rest" "psz msg \<le> t"
      by (cases "pending_allocations sdp") auto
    define a where "a = round_up_size (psz msg)"
    have sz: "0 < psz msg" "psz msg \<le> total_size sdp" "\<forall>m \<in> set rest. 0 < psz m \<and> psz m \<le> total_size sdp"
      using inv w(1) by (auto simp: sdp_inv_def)
    have a: "0 < a" "64 dvd a" "a \<le> t"
      using sz(1) w(2) F(4) by (auto simp: a_def round_up_size_pos intro: round_up_size_least)
    let ?sdp2 = "sdp\<lparr>free_list := (if t > a then om_put (q + a) (t - a) fl else fl),
             pending_allocations := rest,
             in_use := om_put q a (om_del p (in_use sdp))\<rparr>"
    have inv2: "sdp_inv psz base ?sdp2"
      using layout_give_freed [OF L u m a] sz(3) by (auto simp: sdp_inv_def sdp_layout_def om_put_def)
    have "satisfy_pending psz ?sdp2 [(msg, q)] = Inr (?sdp2, [(msg, q)])"
      using sz(3) by (intro satisfy_pending_stops) (auto simp: neq_Nil_conv)
    then have "release_srcptr psz sdp p = Inr (?sdp2, [(msg, q)])"
      unfolding release_srcptr_def f option.case Let_def mm [OF refl] prod.case
      using nf w unfolding a_def by (simp split del: if_split)
    with give w a inv2 a_def show ?thesis by blast
  qed
qed

lemma sdp_inv_add_pending:
  assumes "sdp_inv psz base sdp" and "in_use sdp \<noteq> []" and "0 < psz m"
    and "add_pending psz sdp m = Inr sdp'"
  shows "sdp_inv psz base sdp'"
  using assms by (auto simp: sdp_inv_def sdp_layout_def add_pending_def split: if_splits)

text \<open>While nobody waits the pool is a range allocator.\<close>

definition pool_take :: "SrcDataPool \<Rightarrow> nat \<Rightarrow> (SrcDataPool \<times> addr \<times> nat) option" where
  "pool_take sdp n =
     (if n = 0 then None
      else case alloc_srcptr sdp n of
             Inl _ \<Rightarrow> None
           | Inr (sdp', p) \<Rightarrow> if p = 0 then None else Some (sdp', p, round_up_size n))"

definition pool_give :: "(msgptr \<Rightarrow> nat) \<Rightarrow> SrcDataPool \<Rightarrow> addr \<Rightarrow> nat \<Rightarrow> SrcDataPool option" where
  "pool_give psz sdp p k =
     (case release_srcptr psz sdp p of Inr (sdp', sat) \<Rightarrow> Some sdp' | Inl _ \<Rightarrow> None)"

interpretation pool: range_allocator
  "\<lambda>sdp live. sdp_inv psz base sdp \<and> pending_allocations sdp = [] \<and> in_use sdp = live"
  "\<lambda>sdp. {base ..< base + total_size sdp}" pool_take "pool_give psz" for psz base
proof (unfold_locales, goal_cases)
  case (1 s live)
  then show ?case by (auto simp: sdp_inv_def sdp_layout_def)
next
  case (2 s live)
  then show ?case unfolding sdp_inv_def sdp_layout_def by blast
next
  case (3 s live n s' p k)
  then have a: "alloc_srcptr s n = Inr (s', p)" "p \<noteq> 0" "k = round_up_size n" "0 < n"
    by (auto simp: pool_take_def split: if_splits sum.splits)
  then have le: "n \<le> total_size s" by (auto simp: alloc_srcptr_def split: if_splits)
  have L: "sdp_layout base s" using 3 by (simp add: sdp_inv_def)
  have inv: "sdp_inv psz base s'" using sdp_inv_alloc [OF _ a(4) le a(1)] 3 by blast
  from L a(4) le show ?case
  proof (cases rule: alloc_srcptr_cases)
    case wait
    with a show ?thesis by simp
  next
    case (got p' fl)
    then have "{p ..< p + k} \<inter> bytes_of (in_use s) = {}"
      using L a unfolding sdp_layout_def by auto
    with got a inv 3 round_up_size_ge [of n] show ?thesis by auto
  qed
next
  case (4 s live p k)
  obtain fl q t where m: "merge_adjacent (free_list s) p k = (fl, q, t)" by (metis prod_cases3)
  have u: "sdp_inv psz base s" "(p, k) \<in> set (in_use s)" using 4 by auto
  from release_srcptr_cases [OF u m] show ?case
    by cases (use 4 in \<open>auto simp: pool_give_def\<close>)
qed

text \<open>
  Two concrete pools of 192 bytes at address 64: \<open>pool_busy\<close> after one allocation of 100
  bytes, \<open>pool_waiting\<close> after a message of 150 bytes has joined the queue.
\<close>

definition pool_busy :: SrcDataPool where
  "pool_busy = (SrcDataPool_construct 0 64 192)\<lparr>free_list := [(64, 64)], in_use := [(128, 128)]\<rparr>"

definition pool_waiting :: SrcDataPool where
  "pool_waiting = pool_busy\<lparr>pending_allocations := [7]\<rparr>"

lemmas om_eval = om_put_def om_below_def om_from_def om_del_def

lemma pool_busy_alloc: "alloc_srcptr (SrcDataPool_construct 0 64 192) 100 = Inr (pool_busy, 128)"
  by (simp add: alloc_srcptr_def pool_busy_def SrcDataPool_construct_def round_up_size_def
      BLOCK_SIZE_def om_eval)

lemma pool_busy_inv: "sdp_inv psz 64 pool_busy"
  by (rule sdp_inv_alloc [OF sdp_construct_inv _ _ pool_busy_alloc])
    (simp_all add: SrcDataPool_construct_def)

lemma pool_waiting_inv: "sdp_inv (\<lambda>_. 150) 64 pool_waiting"
  by (rule sdp_inv_add_pending [OF pool_busy_inv, of _ 7])
    (simp_all add: add_pending_def pool_waiting_def pool_busy_def SrcDataPool_construct_def)

lemmas pool_eval = pool_busy_def pool_waiting_def SrcDataPool_construct_def

section \<open>Properties\<close>



text \<open>
  Best fit: a successful allocation takes the upper end of a smallest free range that is
  large enough, and the rest of that range, if any, stays free at the same start.
\<close>

theorem alloc_srcptr_best_fit:
  assumes "sdp_inv psz base sdp" and "0 < n" and "alloc_srcptr sdp n = Inr (sdp', p)" and "p \<noteq> 0"
  shows "\<exists>b s. (b, s) \<in> set (free_list sdp) \<and> round_up_size n \<le> s \<and>
    (\<forall>x \<in> set (free_list sdp). round_up_size n \<le> snd x \<longrightarrow> s \<le> snd x) \<and>
    p = b + (s - round_up_size n) \<and>
    map_of (free_list sdp') = (map_of (free_list sdp))
      (b := (if s = round_up_size n then None else Some (s - round_up_size n)))"
proof -
  let ?n = "round_up_size n"
  have L: "sdp_layout base sdp" using assms(1) by (simp add: sdp_inv_def)
  then have ok: "om_ok (free_list sdp)" by (auto simp: sdp_layout_def intro: gapped_om_ok)
  note z = gapped_keys_pos [OF L]
  have pre: "n \<le> total_size sdp" "pending_allocations sdp = []"
    using assms(3,4) by (auto simp: alloc_srcptr_def split: if_splits)
  show ?thesis
  proof (cases "scan_free_list ?n (free_list sdp) 0 0")
    case (Inl b)
    then have "(b, ?n) \<in> set (free_list sdp)" by (rule scan_exact)
    with Inl assms(3) pre show ?thesis
      by (intro exI [of _ b] exI [of _ ?n]) (auto simp: alloc_srcptr_def om_find_del)
  next
    case (Inr bs)
    obtain b s where bs: "bs = (b, s)" by (cases bs)
    note up = scan_upper [OF Inr [unfolded bs] z, simplified]
    have b: "b \<noteq> 0" using Inr bs assms(3,4) pre by (auto simp: alloc_srcptr_def Let_def split: if_splits)
    with up have bs': "(b, s) \<in> set (free_list sdp)" "?n < s" "\<forall>x \<in> set (free_list sdp). snd x \<noteq> ?n"
      "\<forall>x \<in> set (free_list sdp). ?n < snd x \<longrightarrow> s \<le> snd x" by auto
    then have f: "map_of (free_list sdp) b = Some s" using ok by (simp add: om_find_iff)
    have fit: "\<forall>x \<in> set (free_list sdp). ?n \<le> snd x \<longrightarrow> s \<le> snd x"
      using bs'(3,4) by (metis le_neq_implies_less)
    have "sdp' = sdp\<lparr>free_list := om_put b (s - ?n) (free_list sdp),
                     in_use := om_put (b + (s - ?n)) ?n (in_use sdp)\<rparr> \<and> p = b + (s - ?n)"
      using Inr bs b f assms(3) pre by (auto simp: alloc_srcptr_def Let_def)
    with bs'(1,2) fit ok show ?thesis
      by (intro exI [of _ b] exI [of _ s]) (auto simp: om_find_put)
  qed
qed

theorem alloc_srcptr_best_fit_witness:
  "\<exists>b s. (b, s) \<in> set (free_list (SrcDataPool_construct 0 64 192)) \<and>
     round_up_size 100 \<le> s \<and> 128 = b + (s - round_up_size 100)"
proof -
  have "sdp_inv (\<lambda>_. 1) 64 (SrcDataPool_construct 0 64 192)" by (rule sdp_construct_inv) simp_all
  from alloc_srcptr_best_fit [OF this _ pool_busy_alloc] show ?thesis by fastforce
qed



text \<open>
  C19. No waiting message is stranded: when the only range in use is released, the whole pool
  is merged into one range again and the message at the head of the queue is served.
\<close>

theorem last_release_serves_waiter:
  assumes "sdp_inv psz base sdp" and "in_use sdp = [(p, s)]"
    and "pending_allocations sdp = msg # rest"
  shows "\<exists>sdp' q. release_srcptr psz sdp p = Inr (sdp', [(msg, q)]) \<and>
           pending_allocations sdp' = rest \<and> in_use sdp' = [(q, round_up_size (psz msg))]"
proof -
  have L: "sdp_layout base sdp" using assms(1) by (simp add: sdp_inv_def)
  obtain fl q t where m: "merge_adjacent (free_list sdp) p s = (fl, q, t)"
    by (metis prod_cases3)
  have t: "t = total_size sdp" using whole_pool_freed [OF L assms(2) m] by simp
  have le: "psz msg \<le> total_size sdp" using assms(1,3) by (simp add: sdp_inv_def)
  have u: "(p, s) \<in> set (in_use sdp)" using assms(2) by simp
  have del: "om_del p (in_use sdp) = []" using assms(2) by (simp add: om_del_def)
  from assms(1) u m show ?thesis
  proof (cases rule: release_srcptr_cases)
    case keep
    with t le assms(3) show ?thesis by auto
  next
    case (give msg' rest' a)
    with assms(3) del show ?thesis
      by (auto simp: om_put_def om_below_def om_from_def om_del_def)
  qed
qed

theorem last_release_serves_waiter_witness:
  "\<exists>sdp' q. release_srcptr (\<lambda>_. 150) pool_waiting 128 = Inr (sdp', [(7, q)]) \<and>
     pending_allocations sdp' = []"
  using last_release_serves_waiter [OF pool_waiting_inv, of 128 128 7 "[]"]
  by (auto simp: pool_eval)

text \<open>
  A release serves at most one waiting message, whatever is free: the loop after the first
  one calls the ordinary allocator, which refuses while the queue is not empty.
\<close>

theorem release_srcptr_at_most_one:
  assumes "sdp_inv psz base sdp" and "release_srcptr psz sdp p = Inr (sdp', sat)"
  shows "length sat \<le> 1"
proof (cases "map_of (in_use sdp) p")
  case None
  with assms(2) show ?thesis by (simp add: release_srcptr_def)
next
  case (Some s)
  then have u: "(p, s) \<in> set (in_use sdp)" by (rule map_of_SomeD)
  obtain fl q t where m: "merge_adjacent (free_list sdp) p s = (fl, q, t)"
    by (metis prod_cases3)
  from release_srcptr_cases [OF assms(1) u m] show ?thesis
    by cases (use assms(2) in auto)
qed

theorem release_srcptr_at_most_one_witness:
  "length (snd (projr (release_srcptr (\<lambda>_. 64) pool_busy 128))) \<le> 1"
proof -
  obtain sdp' where "release_srcptr (\<lambda>_. 64) pool_busy 128 = Inr (sdp', [])"
    by (simp add: release_srcptr_def pool_eval merge_adjacent_def om_eval)
  from release_srcptr_at_most_one [OF pool_busy_inv this] this show ?thesis by simp
qed

text \<open>
  A pool whose size is not a multiple of the block size hands out memory beyond its end: in
  a pool of 100 bytes at address 64 one release serves a waiting message of 70 bytes with the
  range from 64 to 192, although the pool ends at 164.
\<close>

theorem release_srcptr_past_end:
  "\<exists>sdp1 p1 sdp2 sdp3. alloc_srcptr (SrcDataPool_construct 0 64 100) 10 = Inr (sdp1, p1) \<and>
     add_pending (\<lambda>_. 70) sdp1 7 = Inr sdp2 \<and>
     release_srcptr (\<lambda>_. 70) sdp2 p1 = Inr (sdp3, [(7, 64)]) \<and>
     in_use sdp3 = [(64, 128)]"
  by (simp add: alloc_srcptr_def add_pending_def release_srcptr_def SrcDataPool_construct_def
      round_up_size_def BLOCK_SIZE_def om_eval merge_adjacent_def satisfy_pending.simps)

end
