(* ===== verification/Spill.thy ===== *)
theory Spill
  imports Source_Pool
begin

text \<open>
  The spill accounting of \<^verbatim>\<open>SrcDataPool\<close> (\<^verbatim>\<open>alloc_spill_memory\<close>,
  \<^verbatim>\<open>release_spill_memory\<close>, \<^verbatim>\<open>print_spill_data\<close>) and the suspension of threads that
  hit the limit.  All counters are 64-bit words.  A call of \<^verbatim>\<open>alloc_spill_memory\<close> that has
  to wait gives up the lock in the middle, so it is two definitions: \<open>alloc_spill_memory\<close> up to
  the wait and \<open>wake_spiller\<close> after it; the loop condition is \<open>spill_still_full\<close>.  The
  relation \<open>spill_step\<close> interleaves the threads.
\<close>

section \<open>Operations\<close>

record spill_config =
  max_spill_bytes :: size_t
  print_spill_threshold :: size_t
  print_spill_step :: size_t

definition default_spill_config :: spill_config where
  "default_spill_config = \<lparr>max_spill_bytes = 0, print_spill_threshold = 2 ^ 30, print_spill_step = 2 ^ 30\<rparr>"

datatype spill_reply = Granted | Suspended

text \<open>
  Lines that \<^verbatim>\<open>print_spill_data\<close> writes: the totals, one line per message number with a
  positive total, and the suspensions.
\<close>

datatype spill_line =
    Spill_Usage size_t size_t
  | Spill_Message nat size_t size_t size_t
  | Spill_Suspensions int

definition print_spill_data :: "SrcDataPool \<Rightarrow> spill_line list" where
  "print_spill_data sdp =
     Spill_Usage (current_spill_bytes sdp) (peak_spill_bytes sdp) #
     map (\<lambda>i. Spill_Message i (current_permsg_spill_bytes sdp i) (peak_permsg_spill_bytes sdp i)
                (total_permsg_spill_bytes sdp i))
       (filter (\<lambda>i. total_permsg_spill_bytes sdp i > 0) [0 ..< 256]) @
     (if total_suspended_spillers sdp > 0 then [Spill_Suspensions (total_suspended_spillers sdp)] else [])"

definition alloc_spill_memory ::
  "spill_config \<Rightarrow> bool \<Rightarrow> SrcDataPool \<Rightarrow> size_t \<Rightarrow> nat \<Rightarrow> bool \<Rightarrow>
     (SrcDataPool \<times> spill_reply \<times> spill_line list) outcome" where
  "alloc_spill_memory cfg always_allow_spilling sdp size_needed msgtype first_try =
     (let new_spill_bytes = current_spill_bytes sdp + size_needed in
      if max_spill_bytes cfg = 0 \<or> always_allow_spilling \<or> new_spill_bytes \<le> max_spill_bytes cfg then
        if \<not> msgtype < 256 then Inl Undefined_Behaviour
        else
          let sdp1 = sdp\<lparr>current_spill_bytes := new_spill_bytes\<rparr>;
              (sdp2, out) =
                (if new_spill_bytes > peak_spill_bytes sdp1 then
                   let sdp' = sdp1\<lparr>peak_spill_bytes := new_spill_bytes\<rparr> in
                   if peak_spill_bytes sdp' \<ge> current_spill_threshold sdp' then
                     let sdp'' = sdp'\<lparr>current_spill_threshold := current_spill_threshold sdp' + print_spill_step cfg\<rparr>
                     in (sdp'', print_spill_data sdp'')
                   else (sdp', [])
                 else (sdp1, []));
              new_permsg_spill_bytes = current_permsg_spill_bytes sdp2 msgtype + size_needed;
              sdp3 = sdp2\<lparr>current_permsg_spill_bytes :=
                       (current_permsg_spill_bytes sdp2)(msgtype := new_permsg_spill_bytes)\<rparr>;
              sdp4 = (if new_permsg_spill_bytes > peak_permsg_spill_bytes sdp3 msgtype
                      then sdp3\<lparr>peak_permsg_spill_bytes :=
                             (peak_permsg_spill_bytes sdp3)(msgtype := new_permsg_spill_bytes)\<rparr>
                      else sdp3)
          in Inr (sdp4, Granted, out)
      else if size_needed > max_spill_bytes cfg then Inl Assert_Failed
      else
        let sdp1 = sdp\<lparr>current_suspended_spillers := current_suspended_spillers sdp + 1\<rparr>
        in if first_try then
             let sdp2 = sdp1\<lparr>total_suspended_spillers := total_suspended_spillers sdp1 + 1\<rparr>
             in Inr (sdp2, Suspended, if total_suspended_spillers sdp2 = 1 then print_spill_data sdp2 else [])
           else Inr (sdp1, Suspended, []))"

definition spill_still_full :: "spill_config \<Rightarrow> SrcDataPool \<Rightarrow> size_t \<Rightarrow> bool" where
  "spill_still_full cfg sdp size_needed \<longleftrightarrow> current_spill_bytes sdp + size_needed > max_spill_bytes cfg"

definition wake_spiller :: "SrcDataPool \<Rightarrow> SrcDataPool" where
  "wake_spiller sdp = sdp\<lparr>current_suspended_spillers := current_suspended_spillers sdp - 1\<rparr>"

text \<open>The flag of the result says whether the condition variable is broadcast.\<close>

definition release_spill_memory :: "SrcDataPool \<Rightarrow> size_t \<Rightarrow> nat \<Rightarrow> (SrcDataPool \<times> bool) outcome" where
  "release_spill_memory sdp size_released msgtype =
     (if \<not> msgtype < 256 then Inl Undefined_Behaviour
      else
        let sdp1 = sdp\<lparr>current_spill_bytes := current_spill_bytes sdp - size_released,
                       current_permsg_spill_bytes := (current_permsg_spill_bytes sdp)
                         (msgtype := current_permsg_spill_bytes sdp msgtype - size_released)\<rparr>
        in Inr (sdp1, current_suspended_spillers sdp1 > 0))"

section \<open>Effect of one call\<close>

lemma alloc_spill_granted:
  assumes "alloc_spill_memory cfg aw sdp n k ft = Inr (sdp', Granted, out)"
  shows "k < 256" "current_spill_bytes sdp' = current_spill_bytes sdp + n"
    "current_permsg_spill_bytes sdp' =
       (current_permsg_spill_bytes sdp)(k := current_permsg_spill_bytes sdp k + n)"
    "current_suspended_spillers sdp' = current_suspended_spillers sdp"
    "max_spill_bytes cfg = 0 \<or> aw \<or> current_spill_bytes sdp' \<le> max_spill_bytes cfg"
    "peak_spill_bytes sdp' = max (peak_spill_bytes sdp) (current_spill_bytes sdp')"
    "total_permsg_spill_bytes sdp' = total_permsg_spill_bytes sdp"
    "free_list sdp' = free_list sdp" "in_use sdp' = in_use sdp"
    "pending_allocations sdp' = pending_allocations sdp" "total_size sdp' = total_size sdp"
  using assms
  by (auto simp: alloc_spill_memory_def Let_def max_def split: if_splits prod.splits)

lemma alloc_spill_suspended:
  assumes "alloc_spill_memory cfg aw sdp n k ft = Inr (sdp', Suspended, out)"
  shows "current_spill_bytes sdp' = current_spill_bytes sdp"
    "current_permsg_spill_bytes sdp' = current_permsg_spill_bytes sdp"
    "current_suspended_spillers sdp' = current_suspended_spillers sdp + 1"
    "spill_still_full cfg sdp n" "n \<le> max_spill_bytes cfg"
    "peak_spill_bytes sdp' = peak_spill_bytes sdp"
    "total_permsg_spill_bytes sdp' = total_permsg_spill_bytes sdp"
  using assms
  by (auto simp: alloc_spill_memory_def spill_still_full_def Let_def split: if_splits prod.splits)

lemma release_spill_effect:
  assumes "release_spill_memory sdp n k = Inr (sdp', b)"
  shows "k < 256" "current_spill_bytes sdp' = current_spill_bytes sdp - n"
    "current_permsg_spill_bytes sdp' =
       (current_permsg_spill_bytes sdp)(k := current_permsg_spill_bytes sdp k - n)"
    "current_suspended_spillers sdp' = current_suspended_spillers sdp"
    "b \<longleftrightarrow> 0 < current_suspended_spillers sdp"
    "peak_spill_bytes sdp' = peak_spill_bytes sdp"
    "total_permsg_spill_bytes sdp' = total_permsg_spill_bytes sdp"
    "free_list sdp' = free_list sdp" "in_use sdp' = in_use sdp"
    "pending_allocations sdp' = pending_allocations sdp" "total_size sdp' = total_size sdp"
  using assms by (auto simp: release_spill_memory_def Let_def split: if_splits)

lemma wake_spiller_simps [simp]:
  "current_spill_bytes (wake_spiller sdp) = current_spill_bytes sdp"
  "current_permsg_spill_bytes (wake_spiller sdp) = current_permsg_spill_bytes sdp"
  "current_suspended_spillers (wake_spiller sdp) = current_suspended_spillers sdp - 1"
  "peak_spill_bytes (wake_spiller sdp) = peak_spill_bytes sdp"
  "total_permsg_spill_bytes (wake_spiller sdp) = total_permsg_spill_bytes sdp"
  by (simp_all add: wake_spiller_def)

section \<open>Threads\<close>

text \<open>
  A thread inside the wait loop is the size it needs and whether it has been signalled.
  \<open>held\<close> lists the spilled messages (size, message number) that have not been released.
  The bound of \<open>2 ^ 63\<close> on the bytes held at one time keeps the 64-bit sums from wrapping.
\<close>

record spill_state =
  sp_pool :: SrcDataPool
  sp_waiting :: "(size_t \<times> bool) list"
  sp_held :: "(size_t \<times> nat) list"

inductive spill_step :: "spill_config \<Rightarrow> spill_state \<Rightarrow> spill_state \<Rightarrow> bool" for cfg where
  spill_grant:
    "\<lbrakk>alloc_spill_memory cfg aw (sp_pool s) n k ft = Inr (sdp', Granted, out);
      unat (current_spill_bytes (sp_pool s)) + unat n < 2 ^ 63\<rbrakk>
     \<Longrightarrow> spill_step cfg s (s\<lparr>sp_pool := sdp', sp_held := (n, k) # sp_held s\<rparr>)"
| spill_suspend:
    "alloc_spill_memory cfg aw (sp_pool s) n k ft = Inr (sdp', Suspended, out) \<Longrightarrow> unat n < 2 ^ 63
     \<Longrightarrow> spill_step cfg s (s\<lparr>sp_pool := sdp', sp_waiting := sp_waiting s @ [(n, False)]\<rparr>)"
| spill_release:
    "\<lbrakk>sp_held s = xs @ (n, k) # ys; release_spill_memory (sp_pool s) n k = Inr (sdp', b)\<rbrakk>
     \<Longrightarrow> spill_step cfg s
           (s\<lparr>sp_pool := sdp', sp_held := xs @ ys,
              sp_waiting := (if b then map (\<lambda>t. (fst t, True)) (sp_waiting s) else sp_waiting s)\<rparr>)"
| spill_recheck:
    "\<lbrakk>sp_waiting s = xs @ (n, True) # ys; spill_still_full cfg (sp_pool s) n\<rbrakk>
     \<Longrightarrow> spill_step cfg s (s\<lparr>sp_waiting := xs @ (n, False) # ys\<rparr>)"
| spill_wake:
    "\<lbrakk>sp_waiting s = xs @ (n, True) # ys; \<not> spill_still_full cfg (sp_pool s) n\<rbrakk>
     \<Longrightarrow> spill_step cfg s (s\<lparr>sp_pool := wake_spiller (sp_pool s), sp_waiting := xs @ ys\<rparr>)"

definition spill_init :: "spill_config \<Rightarrow> spill_state \<Rightarrow> bool" where
  "spill_init cfg s \<longleftrightarrow>
     (\<exists>base sz. s = \<lparr>sp_pool = SrcDataPool_construct (print_spill_threshold cfg) base sz,
                     sp_waiting = [], sp_held = []\<rparr>)"

definition spill_inv :: "spill_config \<Rightarrow> spill_state \<Rightarrow> bool" where
  "spill_inv cfg s \<longleftrightarrow>
     (let sdp = sp_pool s in
      unat (current_spill_bytes sdp) = (\<Sum>x \<leftarrow> sp_held s. unat (fst x)) \<and>
      (\<forall>k. unat (current_permsg_spill_bytes sdp k) = (\<Sum>x \<leftarrow> filter (\<lambda>x. snd x = k) (sp_held s). unat (fst x))) \<and>
      unat (current_spill_bytes sdp) < 2 ^ 63 \<and>
      current_spill_bytes sdp \<le> peak_spill_bytes sdp \<and>
      (\<forall>k. total_permsg_spill_bytes sdp k = 0) \<and>
      current_suspended_spillers sdp = int (length (sp_waiting s)) \<and>
      (\<forall>x \<in> set (sp_waiting s). unat (fst x) < 2 ^ 63 \<and> fst x \<le> max_spill_bytes cfg) \<and>
      (\<forall>x \<in> set (sp_waiting s). \<not> snd x \<longrightarrow> spill_still_full cfg sdp (fst x)))"

lemma unat_add_63:
  fixes a b :: size_t
  assumes "unat a + unat b < 2 ^ 63"
  shows "unat (a + b) = unat a + unat b"
  using assms unat_add_lem [of a b] by simp

lemma unat_add_64:
  fixes a b :: size_t
  assumes "unat a < 2 ^ 63" and "unat b < 2 ^ 63"
  shows "unat (a + b) = unat a + unat b"
  using assms unat_add_lem [of a b] by simp

lemma sum_filter_le: "(\<Sum>x \<leftarrow> filter P xs. f x) \<le> (\<Sum>x \<leftarrow> xs. f x :: nat)"
  by (induction xs) auto

lemma spill_init_inv: "spill_init cfg s \<Longrightarrow> spill_inv cfg s"
  by (auto simp: spill_init_def spill_inv_def SrcDataPool_construct_def)

text \<open>More bytes in use keep a full limit full.\<close>

lemma still_full_grow:
  assumes "spill_still_full cfg sdp n" and "unat n < 2 ^ 63"
    and "unat (current_spill_bytes sdp) + unat k < 2 ^ 63"
    and "current_spill_bytes sdp' = current_spill_bytes sdp + k"
  shows "spill_still_full cfg sdp' n"
proof -
  have "unat (current_spill_bytes sdp + k) = unat (current_spill_bytes sdp) + unat k"
    using assms(3) by (rule unat_add_63)
  then show ?thesis
    using assms unat_add_64 [of "current_spill_bytes sdp" n]
      unat_add_64 [of "current_spill_bytes sdp + k" n]
    by (simp add: spill_still_full_def word_less_nat_alt)
qed

lemma spill_inv_grant:
  assumes inv: "spill_inv cfg s"
    and a: "alloc_spill_memory cfg aw (sp_pool s) n k ft = Inr (sdp', Granted, out)"
    and b: "unat (current_spill_bytes (sp_pool s)) + unat n < 2 ^ 63"
  shows "spill_inv cfg (s\<lparr>sp_pool := sdp', sp_held := (n, k) # sp_held s\<rparr>)"
proof -
  let ?sdp = "sp_pool s"
  note g = alloc_spill_granted [OF a]
  have cur: "unat (current_spill_bytes sdp') = unat (current_spill_bytes ?sdp) + unat n"
    using b unfolding g(2) by (rule unat_add_63)
  have "unat (current_permsg_spill_bytes ?sdp k) \<le> unat (current_spill_bytes ?sdp)"
    using inv sum_filter_le [of "\<lambda>x. unat (fst x)" "\<lambda>x. snd x = k" "sp_held s"]
    by (simp add: spill_inv_def Let_def)
  with b have "unat (current_permsg_spill_bytes ?sdp k) + unat n < 2 ^ 63" by simp
  then have per: "unat (current_permsg_spill_bytes sdp' k) = unat (current_permsg_spill_bytes ?sdp k) + unat n"
    unfolding g(3) by (simp add: unat_add_63)
  have full: "\<forall>x \<in> set (sp_waiting s). \<not> snd x \<longrightarrow> spill_still_full cfg sdp' (fst x)"
    using inv still_full_grow [OF _ _ b g(2)] by (simp add: spill_inv_def Let_def)
  have peak: "current_spill_bytes sdp' \<le> peak_spill_bytes sdp'" unfolding g(6) by simp
  have "unat (current_permsg_spill_bytes sdp' j) =
      (\<Sum>x \<leftarrow> filter (\<lambda>x. snd x = j) ((n, k) # sp_held s). unat (fst x))" for j
    using inv per g(3) by (auto simp: spill_inv_def Let_def)
  then show ?thesis
    using inv cur b full peak g(4,7) unfolding spill_inv_def Let_def by simp
qed

lemma spill_inv_release:
  assumes inv: "spill_inv cfg s" and h: "sp_held s = xs @ (n, k) # ys"
    and a: "release_spill_memory (sp_pool s) n k = Inr (sdp', b)"
  shows "spill_inv cfg (s\<lparr>sp_pool := sdp', sp_held := xs @ ys,
              sp_waiting := (if b then map (\<lambda>t. (fst t, True)) (sp_waiting s) else sp_waiting s)\<rparr>)"
proof -
  let ?sdp = "sp_pool s"
  note r = release_spill_effect [OF a]
  have "n \<le> current_spill_bytes ?sdp"
    using inv h by (simp add: spill_inv_def Let_def word_le_nat_alt)
  then have cur: "unat (current_spill_bytes sdp') = unat (current_spill_bytes ?sdp) - unat n"
    and le: "current_spill_bytes sdp' \<le> current_spill_bytes ?sdp"
    unfolding r(2) by (simp_all add: unat_sub word_le_nat_alt)
  have "n \<le> current_permsg_spill_bytes ?sdp k"
    using inv h by (simp add: spill_inv_def Let_def word_le_nat_alt)
  then have per: "unat (current_permsg_spill_bytes sdp' k) = unat (current_permsg_spill_bytes ?sdp k) - unat n"
    unfolding r(3) by (simp add: unat_sub)
  have per': "unat (current_permsg_spill_bytes sdp' j) =
      (\<Sum>x \<leftarrow> filter (\<lambda>x. snd x = j) (xs @ ys). unat (fst x))" for j
    using inv per r(3) h by (auto simp: spill_inv_def Let_def)
  have peak: "current_spill_bytes sdp' \<le> peak_spill_bytes sdp'"
    using inv le r(6) by (auto simp: spill_inv_def Let_def)
  have "sp_waiting s = []" if "\<not> b"
    using that r(5) inv by (simp add: spill_inv_def Let_def)
  then show ?thesis
    using inv cur h per' peak r(4,7) by (auto simp: spill_inv_def Let_def)
qed

lemma spill_inv_step:
  assumes inv: "spill_inv cfg s" and st: "spill_step cfg s t"
  shows "spill_inv cfg t"
  using st
proof cases
  case (spill_grant aw n k ft sdp' out)
  then show ?thesis using spill_inv_grant [OF inv] by blast
next
  case (spill_suspend aw n k ft sdp' out)
  note a = alloc_spill_suspended [OF spill_suspend(2)]
  have "spill_still_full cfg sdp' m = spill_still_full cfg (sp_pool s) m" for m
    by (simp add: spill_still_full_def a(1))
  with spill_suspend(1,3) a inv show ?thesis by (simp add: spill_inv_def Let_def)
next
  case (spill_release xs n k ys sdp' b)
  then show ?thesis using spill_inv_release [OF inv] by blast
next
  case (spill_recheck xs n ys)
  with inv show ?thesis by (auto simp: spill_inv_def Let_def)
next
  case (spill_wake xs n ys)
  have "spill_still_full cfg (wake_spiller (sp_pool s)) m = spill_still_full cfg (sp_pool s) m" for m
    by (simp add: spill_still_full_def)
  with spill_wake inv show ?thesis by (auto simp: spill_inv_def Let_def)
qed

interpretation spill_sys: step_system "spill_init cfg" "spill_step cfg" "spill_inv cfg" for cfg
  by unfold_locales (rule spill_init_inv spill_inv_step; assumption)+

text \<open>
  A run used as example: with a limit of 16 bytes one message of 10 bytes is spilled, a second
  thread asks for 9 bytes and is suspended, the first message is released.
\<close>

definition spill_demo_cfg :: spill_config where
  "spill_demo_cfg = \<lparr>max_spill_bytes = 16, print_spill_threshold = 100, print_spill_step = 100\<rparr>"

definition spill_demo1 :: spill_state where
  "spill_demo1 = \<lparr>sp_pool = SrcDataPool_construct 100 64 64, sp_waiting = [], sp_held = []\<rparr>"

definition spill_demo2 :: spill_state where
  "spill_demo2 = spill_demo1\<lparr>
     sp_pool := fst (projr (alloc_spill_memory spill_demo_cfg False (sp_pool spill_demo1) 10 3 True)),
     sp_held := [(10, 3)]\<rparr>"

definition spill_demo3 :: spill_state where
  "spill_demo3 = spill_demo2\<lparr>
     sp_pool := fst (projr (alloc_spill_memory spill_demo_cfg False (sp_pool spill_demo2) 9 4 True)),
     sp_waiting := [(9, False)]\<rparr>"

definition spill_demo4 :: spill_state where
  "spill_demo4 = spill_demo3\<lparr>
     sp_pool := fst (projr (release_spill_memory (sp_pool spill_demo3) 10 3)),
     sp_held := [], sp_waiting := [(9, True)]\<rparr>"

lemmas spill_demo_eval = spill_demo_cfg_def spill_demo1_def SrcDataPool_construct_def
  alloc_spill_memory_def release_spill_memory_def Let_def

lemma spill_demo1_reached: "reaches (spill_init spill_demo_cfg) (spill_step spill_demo_cfg) spill_demo1"
  by (rule reaches_init) (auto simp: spill_init_def spill_demo1_def spill_demo_cfg_def)

lemma spill_demo2_reached: "reaches (spill_init spill_demo_cfg) (spill_step spill_demo_cfg) spill_demo2"
proof (rule reaches_step [OF spill_demo1_reached])
  have "\<exists>sdp out. alloc_spill_memory spill_demo_cfg False (sp_pool spill_demo1) 10 3 True = Inr (sdp, Granted, out)"
    by (simp add: spill_demo_eval)
  then show "spill_step spill_demo_cfg spill_demo1 spill_demo2"
    using spill_grant [of spill_demo_cfg False spill_demo1 10 3 True]
    by (fastforce simp: spill_demo2_def spill_demo1_def SrcDataPool_construct_def)
qed

lemma spill_demo3_reached: "reaches (spill_init spill_demo_cfg) (spill_step spill_demo_cfg) spill_demo3"
proof (rule reaches_step [OF spill_demo2_reached])
  have "\<exists>sdp out. alloc_spill_memory spill_demo_cfg False (sp_pool spill_demo2) 9 4 True = Inr (sdp, Suspended, out)"
    by (simp add: spill_demo_eval spill_demo2_def)
  then obtain sdp out where a:
    "alloc_spill_memory spill_demo_cfg False (sp_pool spill_demo2) 9 4 True = Inr (sdp, Suspended, out)" by blast
  have "spill_demo3 = spill_demo2\<lparr>sp_pool := sdp, sp_waiting := sp_waiting spill_demo2 @ [(9, False)]\<rparr>"
    by (simp add: spill_demo3_def a) (simp add: spill_demo2_def spill_demo1_def)
  then show "spill_step spill_demo_cfg spill_demo2 spill_demo3"
    using spill_suspend [OF a] by simp
qed

lemma spill_demo4_reached: "reaches (spill_init spill_demo_cfg) (spill_step spill_demo_cfg) spill_demo4"
proof (rule reaches_step [OF spill_demo3_reached])
  have "\<exists>sdp. release_spill_memory (sp_pool spill_demo3) 10 3 = Inr (sdp, True)"
    by (simp add: spill_demo_eval spill_demo2_def spill_demo3_def)
  then obtain sdp where a: "release_spill_memory (sp_pool spill_demo3) 10 3 = Inr (sdp, True)" by blast
  have "spill_demo4 = spill_demo3\<lparr>sp_pool := sdp, sp_held := [] @ [],
      sp_waiting := (if True then map (\<lambda>t. (fst t, True)) (sp_waiting spill_demo3) else sp_waiting spill_demo3)\<rparr>"
    by (simp add: spill_demo4_def a) (simp add: spill_demo3_def)
  moreover have "sp_held spill_demo3 = [] @ (10, 3) # []" by (simp add: spill_demo3_def spill_demo2_def)
  ultimately show "spill_step spill_demo_cfg spill_demo3 spill_demo4"
    using spill_release [OF _ a] by metis
qed

section \<open>Properties\<close>

text \<open>
  C29. Spill accounting is exact under every interleaving of the threads: the bytes charged are
  those of the spilled messages not yet released, in total and per message number, the peak is
  never below them, and the count of suspended threads is the number of threads in the wait.
\<close>

theorem spill_accounting_exact:
  assumes "reaches (spill_init cfg) (spill_step cfg) s"
  shows "unat (current_spill_bytes (sp_pool s)) = (\<Sum>x \<leftarrow> sp_held s. unat (fst x)) \<and>
     (\<forall>k. unat (current_permsg_spill_bytes (sp_pool s) k) =
            (\<Sum>x \<leftarrow> filter (\<lambda>x. snd x = k) (sp_held s). unat (fst x))) \<and>
     current_spill_bytes (sp_pool s) \<le> peak_spill_bytes (sp_pool s) \<and>
     current_suspended_spillers (sp_pool s) = int (length (sp_waiting s))"
  using spill_sys.inv_reaches [OF assms] by (simp add: spill_inv_def Let_def)

theorem spill_accounting_exact_witness:
  "unat (current_spill_bytes (sp_pool spill_demo2)) = 10 + 0"
  using spill_accounting_exact [OF spill_demo2_reached] by (simp add: spill_demo2_def)

text \<open>
  C30. No wake-up is lost: in every reachable state a thread that sleeps unsignalled really has
  no room, so when nothing is spilled any more every waiting thread has been signalled, and its
  next check of the loop condition lets it out of the wait.
\<close>

theorem no_lost_spill_wakeup:
  assumes "reaches (spill_init cfg) (spill_step cfg) s" and "sp_held s = []" and "x \<in> set (sp_waiting s)"
  shows "snd x \<and> \<not> spill_still_full cfg (sp_pool s) (fst x)"
proof -
  have inv: "spill_inv cfg s" using spill_sys.inv_reaches [OF assms(1)] .
  then have "unat (current_spill_bytes (sp_pool s)) = 0"
    using assms(2) by (simp add: spill_inv_def Let_def)
  then have "current_spill_bytes (sp_pool s) = 0" by (simp add: unat_eq_0)
  moreover have "fst x \<le> max_spill_bytes cfg"
    using inv assms(3) by (simp add: spill_inv_def Let_def)
  ultimately have "\<not> spill_still_full cfg (sp_pool s) (fst x)" by (simp add: spill_still_full_def)
  with inv assms(3) show ?thesis by (auto simp: spill_inv_def Let_def)
qed

theorem no_lost_spill_wakeup_witness:
  "snd (9 :: size_t, True) \<and> \<not> spill_still_full spill_demo_cfg (sp_pool spill_demo4) 9"
  using no_lost_spill_wakeup [OF spill_demo4_reached, of "(9, True)"] by (simp add: spill_demo4_def)

text \<open>
  The per-message lines of the spill report are dead: the totals they depend on are never
  incremented, so in every reachable state the report has no line about a message number.
\<close>

theorem spill_report_no_message_lines:
  assumes "reaches (spill_init cfg) (spill_step cfg) s"
  shows "Spill_Message i c p t \<notin> set (print_spill_data (sp_pool s))"
  using spill_sys.inv_reaches [OF assms] by (auto simp: spill_inv_def Let_def print_spill_data_def)

theorem spill_report_no_message_lines_witness:
  "Spill_Message 3 10 10 0 \<notin> set (print_spill_data (sp_pool spill_demo2))"
  by (rule spill_report_no_message_lines [OF spill_demo2_reached])

end
