(* ===== verification/Payload.thy ===== *)
theory Payload
  imports Legion_Prelude
begin

text \<open>
  Payload modes (\<^verbatim>\<open>src/templates/activemsg.h\<close>), the three payload sources of
  \<^verbatim>\<open>src/templates/activemsg.cc\<close> (contiguous, strided lines, list of spans) and their
  \<^verbatim>\<open>copy_data\<close> on the byte-addressed memory, and the ring of deferred frees.  The theorem of this
  theory is that \<open>copy_data\<close> lays the bytes of the source out contiguously at the destination
  and changes nothing else.
\<close>

section \<open>Payload sources\<close>

datatype payload_mode =
    PAYLOAD_NONE | PAYLOAD_KEEP | PAYLOAD_FREE | PAYLOAD_COPY
  | PAYLOAD_SRCPTR | PAYLOAD_PENDING | PAYLOAD_KEEPREG | PAYLOAD_EMPTY

datatype PayloadSource =
    ContiguousPayload addr nat payload_mode
  | TwoDPayload addr nat nat int payload_mode
  | SpanPayload "(addr \<times> nat) list" nat payload_mode

fun get_contig_pointer :: "PayloadSource \<Rightarrow> addr outcome" where
  "get_contig_pointer (ContiguousPayload srcptr sz mode) = Inr srcptr"
| "get_contig_pointer _ = Inl Assert_Failed"

fun get_payload_mode :: "PayloadSource \<Rightarrow> payload_mode" where
  "get_payload_mode (ContiguousPayload srcptr sz mode) = mode"
| "get_payload_mode _ = PAYLOAD_KEEP"

text \<open>
  The loop over lines.  The source pointer moves by the signed stride; reading at an address
  below zero is undefined.
\<close>

fun copy_lines :: "memory \<Rightarrow> addr \<Rightarrow> int \<Rightarrow> nat \<Rightarrow> nat \<Rightarrow> int \<Rightarrow> memory outcome" where
  "copy_lines m dst_c src_c line_size 0 line_stride = Inr m"
| "copy_lines m dst_c src_c line_size (Suc n) line_stride =
     (if src_c < 0 then Inl Undefined_Behaviour
      else copy_lines (memcpy m dst_c (nat src_c) line_size) (dst_c + line_size)
             (src_c + line_stride) line_size n line_stride)"

fun copy_spans :: "memory \<Rightarrow> addr \<Rightarrow> (addr \<times> nat) list \<Rightarrow> nat \<Rightarrow> memory outcome" where
  "copy_spans m dst_c [] bytes_left = (if bytes_left = 0 then Inr m else Inl Assert_Failed)"
| "copy_spans m dst_c ((p, n) # it) bytes_left =
     (if n \<le> bytes_left then copy_spans (memcpy m dst_c p n) (dst_c + n) it (bytes_left - n)
      else Inl Assert_Failed)"

text \<open>\<open>copy_data\<close> returns the memory and the pointers it passes to \<^verbatim>\<open>free\<close>.\<close>

fun copy_data :: "memory \<Rightarrow> PayloadSource \<Rightarrow> addr \<Rightarrow> (memory \<times> addr list) outcome" where
  "copy_data m (ContiguousPayload srcptr sz mode) dest =
     Inr (memcpy m dest srcptr sz, if mode = PAYLOAD_FREE then [srcptr] else [])"
| "copy_data m (TwoDPayload srcptr line_size line_count line_stride mode) dest =
     obind (copy_lines m dest (int srcptr) line_size line_count line_stride) (\<lambda>m'. Inr (m', []))"
| "copy_data m (SpanPayload spans sz mode) dest =
     obind (copy_spans m dest spans sz) (\<lambda>m'. Inr (m', []))"

section \<open>What a source denotes\<close>

text \<open>
  \<open>payload_spans\<close> are the ranges a source reads, in order; its length, bytes and region
  follow from them.
\<close>

fun line_spans :: "int \<Rightarrow> nat \<Rightarrow> nat \<Rightarrow> int \<Rightarrow> (addr \<times> nat) list" where
  "line_spans src_c line_size 0 line_stride = []"
| "line_spans src_c line_size (Suc n) line_stride =
     (nat src_c, line_size) # line_spans (src_c + line_stride) line_size n line_stride"

fun payload_spans :: "PayloadSource \<Rightarrow> (addr \<times> nat) list" where
  "payload_spans (ContiguousPayload srcptr sz mode) = [(srcptr, sz)]"
| "payload_spans (TwoDPayload srcptr line_size line_count line_stride mode) =
     line_spans (int srcptr) line_size line_count line_stride"
| "payload_spans (SpanPayload spans sz mode) = spans"

definition spans_data :: "memory \<Rightarrow> (addr \<times> nat) list \<Rightarrow> byte list" where
  "spans_data m xs = concat (map (\<lambda>(p, n). read_bytes m p n) xs)"

definition spans_length :: "(addr \<times> nat) list \<Rightarrow> nat" where
  "spans_length xs = sum_list (map snd xs)"

definition payload_data :: "memory \<Rightarrow> PayloadSource \<Rightarrow> byte list" where
  "payload_data m src = spans_data m (payload_spans src)"

definition payload_length :: "PayloadSource \<Rightarrow> nat" where
  "payload_length src = spans_length (payload_spans src)"

definition payload_region :: "PayloadSource \<Rightarrow> addr set" where
  "payload_region src = bytes_of (payload_spans src)"

text \<open>
  A source is well formed when no line starts below address zero and the spans add up to the
  stated size.
\<close>

fun payload_ok :: "PayloadSource \<Rightarrow> bool" where
  "payload_ok (ContiguousPayload srcptr sz mode) = True"
| "payload_ok (TwoDPayload srcptr line_size line_count line_stride mode) =
     (\<forall>i < line_count. 0 \<le> int srcptr + int i * line_stride)"
| "payload_ok (SpanPayload spans sz mode) = (spans_length spans = sz)"

lemma spans_data_simps [simp]:
  "spans_data m [] = []"
  "spans_data m ((p, n) # xs) = read_bytes m p n @ spans_data m xs"
  by (simp_all add: spans_data_def)

lemma spans_length_simps [simp]:
  "spans_length [] = 0"
  "spans_length ((p, n) # xs) = n + spans_length xs"
  by (simp_all add: spans_length_def)

lemma length_spans_data [simp]: "length (spans_data m xs) = spans_length xs"
  by (induction xs) (auto simp: spans_data_def spans_length_def)

lemma spans_data_cong:
  "(\<And>x. x \<in> bytes_of xs \<Longrightarrow> m x = m' x) \<Longrightarrow> spans_data m xs = spans_data m' xs"
proof (induction xs)
  case (Cons x xs)
  obtain p n where x: "x = (p, n)" by (cases x)
  have "read_bytes m p n = read_bytes m' p n"
    using Cons.prems by (intro read_bytes_cong) (simp add: x span_pair)
  with Cons show ?case by (simp add: x)
qed simp

section \<open>The copy loops\<close>

text \<open>Writing one block after another is writing the concatenation.\<close>

lemma memcpy_then_write:
  "write_bytes (memcpy m dst p n) (dst + n) ys = write_bytes m dst (read_bytes m p n @ ys)"
  by (simp add: memcpy_def write_bytes_append)

lemma spans_data_after_memcpy:
  assumes "bytes_of xs \<inter> {dst ..< dst + n} = {}"
  shows "spans_data (memcpy m dst p n) xs = spans_data m xs"
  using assms by (intro spans_data_cong memcpy_outside) blast

lemma copy_spans_writes:
  assumes "spans_length xs = k" and "bytes_of xs \<inter> {dst ..< dst + k} = {}"
  shows "copy_spans m dst xs k = Inr (write_bytes m dst (spans_data m xs))"
  using assms
proof (induction m dst xs k rule: copy_spans.induct)
  case (2 m dst p n xs k)
  have k: "n \<le> k" "spans_length xs = k - n" using "2.prems"(1) by auto
  have d: "bytes_of xs \<inter> {dst + n ..< dst + n + (k - n)} = {}" "bytes_of xs \<inter> {dst ..< dst + n} = {}"
    using "2.prems"(2) k(1) by (auto simp: disjoint_iff)
  from "2.IH" [OF k d(1)] k(1) show ?case
    by (simp add: spans_data_after_memcpy [OF d(2)] memcpy_then_write)
qed auto

lemma copy_lines_writes:
  assumes "\<forall>i < n. 0 \<le> src + int i * st"
    and "bytes_of (line_spans src ls n st) \<inter> {dst ..< dst + n * ls} = {}"
  shows "copy_lines m dst src ls n st = Inr (write_bytes m dst (spans_data m (line_spans src ls n st)))"
  using assms
proof (induction m dst src ls n st rule: copy_lines.induct)
  case (2 m dst src ls n st)
  have s: "0 \<le> src" using "2.prems"(1) by force
  have t: "\<forall>i < n. 0 \<le> (src + st) + int i * st"
  proof (intro allI impI)
    fix i assume "i < n"
    then have "0 \<le> src + int (Suc i) * st" using "2.prems"(1) Suc_less_eq by blast
    then show "0 \<le> (src + st) + int i * st" by (simp add: algebra_simps)
  qed
  have d: "bytes_of (line_spans (src + st) ls n st) \<inter> {dst + ls ..< dst + ls + n * ls} = {}"
    "bytes_of (line_spans (src + st) ls n st) \<inter> {dst ..< dst + ls} = {}"
    using "2.prems"(2) by (auto simp: disjoint_iff)
  from s "2.IH" [OF _ t d(1)] show ?case
    by (simp add: spans_data_after_memcpy [OF d(2)] memcpy_then_write)
qed simp

lemma line_spans_length [simp]: "spans_length (line_spans src ls n st) = n * ls"
  by (induction src ls n st rule: line_spans.induct) auto

fun freed_by :: "PayloadSource \<Rightarrow> addr list" where
  "freed_by (ContiguousPayload srcptr sz mode) = (if mode = PAYLOAD_FREE then [srcptr] else [])"
| "freed_by _ = []"

lemma copy_data_writes:
  assumes "payload_ok src" and "payload_region src \<inter> {dest ..< dest + payload_length src} = {}"
  shows "copy_data m src dest = Inr (write_bytes m dest (payload_data m src), freed_by src)"
  using assms
  by (cases src)
    (auto simp: payload_region_def payload_length_def payload_data_def memcpy_def
      copy_spans_writes copy_lines_writes mult.commute)

section \<open>Deferred frees\<close>

text \<open>
  The last \<open>DEFERRED_FREE_COUNT\<close> pointers handed to \<^verbatim>\<open>deferred_free\<close> stay allocated; the
  call returns the pointers it passes to \<^verbatim>\<open>free\<close>.
\<close>

definition DEFERRED_FREE_COUNT :: nat where
  "DEFERRED_FREE_COUNT = 128"

record deferred_state =
  deferred_free_pos :: nat
  deferred_frees :: "addr list"

definition init_deferred_frees :: deferred_state where
  "init_deferred_frees = \<lparr>deferred_free_pos = 0, deferred_frees = replicate DEFERRED_FREE_COUNT 0\<rparr>"

definition deferred_free :: "deferred_state \<Rightarrow> addr \<Rightarrow> deferred_state \<times> addr list" where
  "deferred_free d ptr =
     (let oldptr = deferred_frees d ! deferred_free_pos d in
      (\<lparr>deferred_free_pos = (deferred_free_pos d + 1) mod DEFERRED_FREE_COUNT,
        deferred_frees = (deferred_frees d)[deferred_free_pos d := ptr]\<rparr>,
       if oldptr \<noteq> 0 then [oldptr] else []))"

fun deferred_free_all :: "deferred_state \<Rightarrow> addr list \<Rightarrow> deferred_state \<times> addr list" where
  "deferred_free_all d [] = (d, [])"
| "deferred_free_all d (p # ps) =
     (let (d', fr) = deferred_free d p; (d'', fr') = deferred_free_all d' ps in (d'', fr @ fr'))"

text \<open>The pointers waiting in the ring, oldest first.\<close>

definition deferred_queue :: "deferred_state \<Rightarrow> addr list" where
  "deferred_queue d = drop (deferred_free_pos d) (deferred_frees d) @ take (deferred_free_pos d) (deferred_frees d)"

definition deferred_ok :: "deferred_state \<Rightarrow> bool" where
  "deferred_ok d \<longleftrightarrow> length (deferred_frees d) = DEFERRED_FREE_COUNT \<and> deferred_free_pos d < DEFERRED_FREE_COUNT"

lemma deferred_init_ok: "deferred_ok init_deferred_frees"
  by (simp add: deferred_ok_def init_deferred_frees_def DEFERRED_FREE_COUNT_def)

lemma deferred_free_queue:
  assumes "deferred_ok d" and "deferred_free d p = (d', fr)"
  shows "deferred_ok d'" "deferred_queue d' = tl (deferred_queue d) @ [p]"
    "fr = filter (\<lambda>x. x \<noteq> 0) [hd (deferred_queue d)]" "deferred_queue d \<noteq> []"
proof -
  let ?i = "deferred_free_pos d" and ?xs = "deferred_frees d"
  have i: "?i < length ?xs" "length ?xs = DEFERRED_FREE_COUNT" using assms(1) by (auto simp: deferred_ok_def)
  have dr: "drop ?i ?xs = ?xs ! ?i # drop (Suc ?i) ?xs" using i(1) by (rule Cons_nth_drop_Suc [symmetric])
  show "deferred_ok d'"
    using assms by (auto simp: deferred_ok_def deferred_free_def Let_def DEFERRED_FREE_COUNT_def)
  show "deferred_queue d \<noteq> []" using dr by (simp add: deferred_queue_def)
  show "fr = filter (\<lambda>x. x \<noteq> 0) [hd (deferred_queue d)]"
    using assms(2) by (auto simp: deferred_free_def Let_def deferred_queue_def dr)
  show "deferred_queue d' = tl (deferred_queue d) @ [p]"
  proof (cases "Suc ?i = length ?xs")
    case True
    then have "deferred_queue d' = ?xs[?i := p]"
      using assms(2) i by (auto simp: deferred_free_def Let_def deferred_queue_def)
    also have "\<dots> = take ?i ?xs @ [p]" using True i(1) by (simp add: upd_conv_take_nth_drop)
    finally show ?thesis using True by (simp add: deferred_queue_def dr)
  next
    case False
    then have "deferred_queue d' = drop (Suc ?i) (?xs[?i := p]) @ take (Suc ?i) (?xs[?i := p])"
      using assms(2) i by (auto simp: deferred_free_def Let_def deferred_queue_def)
    also have "\<dots> = drop (Suc ?i) ?xs @ take ?i ?xs @ [p]"
      using i(1) by (simp add: upd_conv_take_nth_drop)
    finally show ?thesis by (simp add: deferred_queue_def dr)
  qed
qed

lemma deferred_free_all_queue:
  assumes "deferred_ok d" and "deferred_free_all d ps = (d', fr)"
  shows "deferred_ok d' \<and> (\<exists>out. out @ deferred_queue d' = deferred_queue d @ ps \<and>
           length out = length ps \<and> fr = filter (\<lambda>x. x \<noteq> 0) out)"
  using assms
proof (induction ps arbitrary: d fr)
  case (Cons p ps)
  obtain d1 f1 f2 where s: "deferred_free d p = (d1, f1)" "deferred_free_all d1 ps = (d', f2)" "fr = f1 @ f2"
    using Cons.prems(2) by (auto split: prod.splits)
  note q = deferred_free_queue [OF Cons.prems(1) s(1)]
  from Cons.IH [OF q(1) s(2)] obtain out where o: "deferred_ok d'"
    "out @ deferred_queue d' = deferred_queue d1 @ ps" "length out = length ps" "f2 = filter (\<lambda>x. x \<noteq> 0) out"
    by blast
  have "(hd (deferred_queue d) # out) @ deferred_queue d' = deferred_queue d @ p # ps"
    using o(2) q(2,4) by simp
  with o s(3) q(3) show ?case by (intro conjI exI [of _ "hd (deferred_queue d) # out"]) auto
qed auto

section \<open>Properties\<close>

text \<open>
  Copying a payload: for every kind of source that is well formed and does not overlap the
  destination, \<^verbatim>\<open>copy_data\<close> returns with the bytes of the source laid out contiguously at the
  destination, and no other byte of memory has changed.
\<close>

theorem copy_data_correct:
  assumes "payload_ok src" and "payload_region src \<inter> {dest ..< dest + payload_length src} = {}"
  shows "\<exists>m'. copy_data m src dest = Inr (m', freed_by src) \<and>
     read_bytes m' dest (payload_length src) = payload_data m src \<and>
     (\<forall>x. x \<notin> {dest ..< dest + payload_length src} \<longrightarrow> m' x = m x)"
proof -
  have len: "payload_length src = length (payload_data m src)"
    by (simp add: payload_length_def payload_data_def)
  show ?thesis
    using copy_data_writes [OF assms, of m] write_bytes_outside [of _ dest "payload_data m src" m]
    unfolding len by auto
qed

theorem copy_data_correct_witness:
  "\<exists>m'. copy_data (\<lambda>a. of_nat a) (TwoDPayload 20 2 3 (- 8) PAYLOAD_COPY) 100 = Inr (m', []) \<and>
     read_bytes m' 100 6 = [20, 21, 12, 13, 4, 5]"
proof -
  have ok: "payload_ok (TwoDPayload 20 2 3 (- 8) PAYLOAD_COPY)" by auto
  have len: "payload_length (TwoDPayload 20 2 3 (- 8) PAYLOAD_COPY) = 6"
    by (simp add: payload_length_def)
  have "payload_region (TwoDPayload 20 2 3 (- 8) PAYLOAD_COPY) \<inter> {100 ..< 100 + 6} = {}"
    by (auto simp: payload_region_def numeral_3_eq_3 span_pair)
  moreover have "payload_data (\<lambda>a. of_nat a) (TwoDPayload 20 2 3 (- 8) PAYLOAD_COPY) = [20, 21, 12, 13, 4, 5]"
    by (simp add: payload_data_def numeral_3_eq_3 read_bytes_def upt_rec)
  ultimately show ?thesis
    using copy_data_correct [OF ok, of 100 "\<lambda>a. of_nat a"] unfolding len
    by (metis freed_by.simps(2))
qed

text \<open>
  The ring of deferred frees is a first-in first-out delay: the pointers passed to \<^verbatim>\<open>free\<close>
  are, in order, the oldest pointers of the ring and of the calls, each once, and after any
  number of calls the last 128 pointers handed in have not been freed.
\<close>

theorem deferred_free_delay:
  assumes "deferred_free_all init_deferred_frees ps = (d, fr)" and "\<forall>p \<in> set ps. p \<noteq> 0"
  shows "fr = take (length ps - DEFERRED_FREE_COUNT) ps"
proof -
  from deferred_free_all_queue [OF deferred_init_ok assms(1)] obtain out where
    ok: "deferred_ok d" and o: "out @ deferred_queue d = deferred_queue init_deferred_frees @ ps"
      "length out = length ps" "fr = filter (\<lambda>x. x \<noteq> 0) out" by blast
  have q: "deferred_queue init_deferred_frees = replicate DEFERRED_FREE_COUNT 0"
    by (simp add: deferred_queue_def init_deferred_frees_def)
  have "out = take (length ps) (replicate DEFERRED_FREE_COUNT 0 @ ps)"
    using o(1,2) unfolding q by (metis append_eq_conv_conj)
  then have "out = replicate (min (length ps) DEFERRED_FREE_COUNT) 0 @ take (length ps - DEFERRED_FREE_COUNT) ps"
    by (simp add: min.commute)
  moreover have "filter (\<lambda>x. x \<noteq> 0) (take k ps) = take k ps" for k
    using assms(2) by (auto simp: filter_id_conv dest: in_set_takeD)
  ultimately show ?thesis using o(3) by simp
qed

theorem deferred_free_delay_witness:
  "snd (deferred_free_all init_deferred_frees [4096, 8192]) = []"
  using deferred_free_delay [of "[4096, 8192]" "fst (deferred_free_all init_deferred_frees [4096, 8192])"
      "snd (deferred_free_all init_deferred_frees [4096, 8192])"]
  by (simp add: DEFERRED_FREE_COUNT_def)

end
