(* ===== verification/Outgoing_Message.thy ===== *)
theory Outgoing_Message
  imports Spill Payload
begin

text \<open>
  \<^verbatim>\<open>OutgoingMessage\<close> of \<^verbatim>\<open>src/templates/activemsg.cc\<close>: construction, attaching a payload,
  moving it to the source data pool (\<^verbatim>\<open>reserve_srcdata\<close>), the delivery of pool memory to a
  message that had to wait (\<^verbatim>\<open>assign_srcdata_pointer\<close>), and destruction.  The state they share
  is a record of the node: its memory, the pool (absent when the pool has size zero), the messages
  by pointer, the pointers passed to \<^verbatim>\<open>free\<close> and the ring of deferred frees.  The address
  that \<^verbatim>\<open>malloc\<close> returns is an argument.
\<close>

section \<open>State\<close>

record OutgoingMessage =
  msgid :: nat
  num_args :: nat
  args :: "32 word list"
  payload :: addr
  payload_size :: nat
  payload_mode :: payload_mode
  dstptr :: addr
  payload_src :: "PayloadSource option"

record am_node =
  nd_mem :: memory
  nd_pool :: "SrcDataPool option"
  nd_msgs :: "msgptr \<Rightarrow> OutgoingMessage"
  nd_freed :: "addr list"
  nd_deferred :: deferred_state

text \<open>The array of sixteen arguments; entries the constructor does not set are taken as zero.\<close>

definition OutgoingMessage_construct :: "nat \<Rightarrow> 32 word list \<Rightarrow> OutgoingMessage outcome" where
  "OutgoingMessage_construct mid as =
     (if length as > 16 then Inl Undefined_Behaviour
      else Inr \<lparr>msgid = mid, num_args = length as, args = as @ replicate (16 - length as) 0, payload = 0, payload_size = 0,
                payload_mode = PAYLOAD_NONE, dstptr = 0, payload_src = None\<rparr>)"

definition set_payload ::
  "nat \<Rightarrow> OutgoingMessage \<Rightarrow> PayloadSource \<Rightarrow> nat \<Rightarrow> payload_mode \<Rightarrow> addr \<Rightarrow> OutgoingMessage outcome" where
  "set_payload lmb_size hdr psrc psize pmode dst =
     (if payload_mode hdr \<noteq> PAYLOAD_NONE then Inl Assert_Failed
      else if pmode = PAYLOAD_NONE then Inl Assert_Failed
      else if \<not> psize > 0 then Inl Assert_Failed
      else if \<not> (dst \<noteq> 0 \<or> psize \<le> lmb_size) then Inl Assert_Failed
      else Inr (hdr\<lparr>dstptr := dst, payload := 0, payload_size := psize, payload_mode := pmode,
                    payload_src := Some psrc\<rparr>))"

definition set_payload_empty :: "OutgoingMessage \<Rightarrow> OutgoingMessage" where
  "set_payload_empty hdr = hdr\<lparr>payload_mode := PAYLOAD_EMPTY\<rparr>"

section \<open>Moving the payload\<close>

definition put_msg :: "am_node \<Rightarrow> msgptr \<Rightarrow> OutgoingMessage \<Rightarrow> am_node" where
  "put_msg nd this msg = nd\<lparr>nd_msgs := (nd_msgs nd)(this := msg)\<rparr>"

abbreviation nd_psz :: "am_node \<Rightarrow> msgptr \<Rightarrow> nat" where
  "nd_psz nd \<equiv> (\<lambda>p. payload_size (nd_msgs nd p))"

abbreviation uses_spill :: "payload_mode \<Rightarrow> bool" where
  "uses_spill mode \<equiv> mode = PAYLOAD_COPY \<or> mode = PAYLOAD_FREE"

definition drop_spill :: "SrcDataPool \<Rightarrow> OutgoingMessage \<Rightarrow> SrcDataPool outcome" where
  "drop_spill sdp msg =
     obind (release_spill_memory sdp (of_nat (payload_size msg)) (msgid msg)) (\<lambda>(sdp', wake). Inr sdp')"

definition reserve_from_pool ::
  "addr \<Rightarrow> am_node \<Rightarrow> msgptr \<Rightarrow> OutgoingMessage \<Rightarrow> PayloadSource \<Rightarrow> SrcDataPool \<Rightarrow> am_node outcome" where
  "reserve_from_pool mallocp nd this msg src sdp =
     obind (alloc_srcptr sdp (payload_size msg)) (\<lambda>(sdp1, srcptr).
       if srcptr \<noteq> 0 then
         obind (if uses_spill (payload_mode msg) then drop_spill sdp1 msg else Inr sdp1) (\<lambda>sdp2.
         obind (copy_data (nd_mem nd) src srcptr) (\<lambda>(m', fr).
           Inr (put_msg (nd\<lparr>nd_mem := m', nd_pool := Some sdp2, nd_freed := nd_freed nd @ fr\<rparr>) this
                  (msg\<lparr>payload_mode := PAYLOAD_SRCPTR, payload := srcptr, payload_src := None\<rparr>))))
       else
         obind
           (if payload_mode msg = PAYLOAD_COPY then
              if mallocp = 0 then Inl Assert_Failed
              else obind (copy_data (nd_mem nd) src mallocp) (\<lambda>(m', fr).
                     Inr (m', fr, ContiguousPayload mallocp (payload_size msg) PAYLOAD_FREE))
            else Inr (nd_mem nd, [], src)) (\<lambda>(m', fr, src').
           let nd1 = put_msg (nd\<lparr>nd_mem := m', nd_freed := nd_freed nd @ fr\<rparr>) this
                       (msg\<lparr>payload_mode := PAYLOAD_PENDING, payload_src := Some src'\<rparr>)
           in obind (add_pending (nd_psz nd1) sdp1 this) (\<lambda>sdp2. Inr (nd1\<lparr>nd_pool := Some sdp2\<rparr>))))"

definition reserve_without_pool ::
  "addr \<Rightarrow> am_node \<Rightarrow> msgptr \<Rightarrow> OutgoingMessage \<Rightarrow> PayloadSource \<Rightarrow> am_node outcome" where
  "reserve_without_pool mallocp nd this msg src =
     obind (get_contig_pointer src) (\<lambda>cp.
       if cp \<noteq> 0 \<and> payload_mode msg \<noteq> PAYLOAD_COPY then
         Inr (put_msg nd this (msg\<lparr>payload := cp, payload_mode := get_payload_mode src, payload_src := None\<rparr>))
       else if mallocp = 0 then Inl Assert_Failed
       else
         obind (copy_data (nd_mem nd) src mallocp) (\<lambda>(m', fr).
           Inr (put_msg (nd\<lparr>nd_mem := m', nd_freed := nd_freed nd @ fr\<rparr>) this
                  (msg\<lparr>payload := mallocp, payload_src := None, payload_mode := PAYLOAD_FREE\<rparr>))))"

definition reserve_srcdata :: "addr \<Rightarrow> am_node \<Rightarrow> msgptr \<Rightarrow> am_node outcome" where
  "reserve_srcdata mallocp nd this =
     (let msg = nd_msgs nd this in
      if payload_mode msg = PAYLOAD_NONE \<or> payload_mode msg = PAYLOAD_EMPTY then Inr nd
      else
        case payload_src msg of
          None \<Rightarrow> Inl Undefined_Behaviour
        | Some src \<Rightarrow>
            obind (if payload_mode msg = PAYLOAD_KEEPREG then get_contig_pointer src else Inr 0) (\<lambda>cp.
              if cp \<noteq> 0 then Inr (put_msg nd this (msg\<lparr>payload := cp\<rparr>))
              else
                case nd_pool nd of
                  Some sdp \<Rightarrow> reserve_from_pool mallocp nd this msg src sdp
                | None \<Rightarrow> reserve_without_pool mallocp nd this msg src))"

definition assign_srcdata_pointer :: "am_node \<Rightarrow> msgptr \<Rightarrow> addr \<Rightarrow> am_node outcome" where
  "assign_srcdata_pointer nd this ptr =
     (let msg = nd_msgs nd this in
      if payload_mode msg \<noteq> PAYLOAD_PENDING then Inl Assert_Failed
      else
        case payload_src msg of
          None \<Rightarrow> Inl Assert_Failed
        | Some src \<Rightarrow>
            obind (copy_data (nd_mem nd) src ptr) (\<lambda>(m', fr).
              let was_using_spill = (get_payload_mode src = PAYLOAD_FREE);
                  nd1 = put_msg (nd\<lparr>nd_mem := m', nd_freed := nd_freed nd @ fr\<rparr>) this
                          (msg\<lparr>payload_src := None, payload := ptr, payload_mode := PAYLOAD_SRCPTR\<rparr>)
              in if was_using_spill then
                   case nd_pool nd1 of
                     None \<Rightarrow> Inl Undefined_Behaviour
                   | Some sdp \<Rightarrow> obind (drop_spill sdp msg) (\<lambda>sdp'. Inr (nd1\<lparr>nd_pool := Some sdp'\<rparr>))
                 else Inr nd1))"

text \<open>
  Releasing a pool pointer on a node: the pool operation under its lock, then the delivery to
  each message it satisfied.
\<close>

fun assign_all :: "am_node \<Rightarrow> (msgptr \<times> addr) list \<Rightarrow> am_node outcome" where
  "assign_all nd [] = Inr nd"
| "assign_all nd ((msg, ptr) # it) = obind (assign_srcdata_pointer nd msg ptr) (\<lambda>nd'. assign_all nd' it)"

definition node_release_srcptr :: "am_node \<Rightarrow> addr \<Rightarrow> am_node outcome" where
  "node_release_srcptr nd srcptr =
     (case nd_pool nd of
        None \<Rightarrow> Inl Assert_Failed
      | Some sdp \<Rightarrow>
          obind (release_srcptr (nd_psz nd) sdp srcptr) (\<lambda>(sdp', satisfied).
            assign_all (nd\<lparr>nd_pool := Some sdp'\<rparr>) satisfied))"

definition destroy_message :: "am_node \<Rightarrow> msgptr \<Rightarrow> am_node outcome" where
  "destroy_message nd this =
     (let msg = nd_msgs nd this in
      obind
        (if uses_spill (payload_mode msg) \<and> payload_size msg > 0 then
           case nd_pool nd of
             None \<Rightarrow> Inl Undefined_Behaviour
           | Some sdp \<Rightarrow>
               obind (drop_spill sdp msg) (\<lambda>sdp'.
                 let (d', fr) = deferred_free (nd_deferred nd) (payload msg)
                 in Inr (nd\<lparr>nd_pool := Some sdp', nd_deferred := d', nd_freed := nd_freed nd @ fr\<rparr>))
         else Inr nd) (\<lambda>nd1.
        if payload_src msg \<noteq> None \<and> payload_mode msg \<noteq> PAYLOAD_KEEPREG then Inl Assert_Failed
        else Inr (put_msg nd1 this (msg\<lparr>payload_src := None\<rparr>))))"

section \<open>Well-formed nodes\<close>

definition pool_bytes :: "addr \<Rightarrow> SrcDataPool \<Rightarrow> addr set" where
  "pool_bytes base sdp = {base ..< base + total_size sdp}"

text \<open>
  A message whose payload can be moved: its source is well formed, has the stated length and
  lies outside the pool; the message number indexes the spill counters.
\<close>

definition msg_ready :: "addr set \<Rightarrow> OutgoingMessage \<Rightarrow> PayloadSource \<Rightarrow> bool" where
  "msg_ready pool msg src \<longleftrightarrow>
     payload_src msg = Some src \<and> payload_ok src \<and> payload_length src = payload_size msg \<and>
     0 < payload_size msg \<and> payload_region src \<inter> pool = {} \<and> msgid msg < 256"

definition node_ok :: "addr \<Rightarrow> am_node \<Rightarrow> bool" where
  "node_ok base nd \<longleftrightarrow>
     (case nd_pool nd of
        None \<Rightarrow> False
      | Some sdp \<Rightarrow>
          sdp_inv (nd_psz nd) base sdp \<and> distinct (pending_allocations sdp) \<and>
          (\<forall>p \<in> set (pending_allocations sdp).
             payload_mode (nd_msgs nd p) = PAYLOAD_PENDING \<and>
             (\<exists>src. msg_ready (pool_bytes base sdp) (nd_msgs nd p) src)))"

lemma node_okE:
  assumes "node_ok base nd"
  obtains sdp where "nd_pool nd = Some sdp" "sdp_inv (nd_psz nd) base sdp"
    "distinct (pending_allocations sdp)"
    "\<And>p. p \<in> set (pending_allocations sdp) \<Longrightarrow> payload_mode (nd_msgs nd p) = PAYLOAD_PENDING"
    "\<And>p. p \<in> set (pending_allocations sdp) \<Longrightarrow> \<exists>src. msg_ready (pool_bytes base sdp) (nd_msgs nd p) src"
  using assms by (auto simp: node_ok_def split: option.splits)

lemma nd_psz_put [simp]:
  "payload_size msg = payload_size (nd_msgs nd this) \<Longrightarrow> nd_psz (put_msg nd this msg) = nd_psz nd"
  by (auto simp: put_msg_def fun_eq_iff)

lemma put_msg_simps [simp]:
  "nd_mem (put_msg nd this msg) = nd_mem nd" "nd_pool (put_msg nd this msg) = nd_pool nd"
  "nd_freed (put_msg nd this msg) = nd_freed nd" "nd_deferred (put_msg nd this msg) = nd_deferred nd"
  "nd_msgs (put_msg nd this msg) = (nd_msgs nd)(this := msg)"
  by (simp_all add: put_msg_def)

text \<open>The spill counters and the ranges of a pool do not interfere.\<close>

lemma sdp_inv_spill_cong:
  assumes "free_list sdp' = free_list sdp" "in_use sdp' = in_use sdp"
    "pending_allocations sdp' = pending_allocations sdp" "total_size sdp' = total_size sdp"
  shows "sdp_inv psz base sdp' = sdp_inv psz base sdp"
  using assms by (simp add: sdp_inv_def sdp_layout_def)

lemma drop_spill_ok:
  assumes "msgid msg < 256"
  obtains sdp' where "drop_spill sdp msg = Inr sdp'" "sdp_inv psz base sdp' = sdp_inv psz base sdp"
    "pending_allocations sdp' = pending_allocations sdp" "total_size sdp' = total_size sdp"
    "in_use sdp' = in_use sdp"
    "current_spill_bytes sdp' = current_spill_bytes sdp - of_nat (payload_size msg)"
proof -
  obtain sdp' b where r: "release_spill_memory sdp (of_nat (payload_size msg)) (msgid msg) = Inr (sdp', b)"
    using assms by (simp add: release_spill_memory_def Let_def)
  note e = release_spill_effect [OF r]
  show ?thesis
    using that [of sdp'] r e sdp_inv_spill_cong [OF e(8-11)] by (simp add: drop_spill_def)
qed

lemma drop_spill_current:
  "drop_spill sdp msg = Inr sdp' \<Longrightarrow>
     current_spill_bytes sdp' = current_spill_bytes sdp - of_nat (payload_size msg)"
  by (auto simp: drop_spill_def dest: release_spill_effect(2))

lemma alloc_srcptr_frame:
  "alloc_srcptr sdp n = Inr (sdp', p) \<Longrightarrow> total_size sdp' = total_size sdp \<and>
     current_spill_bytes sdp' = current_spill_bytes sdp \<and>
     pending_allocations sdp' = pending_allocations sdp"
  by (auto simp: alloc_srcptr_def Let_def split: if_splits sum.splits prod.splits option.splits)

lemma add_pending_frame:
  "add_pending psz sdp m = Inr sdp' \<Longrightarrow> total_size sdp' = total_size sdp \<and>
     current_spill_bytes sdp' = current_spill_bytes sdp \<and>
     pending_allocations sdp' = pending_allocations sdp @ [m]"
  by (auto simp: add_pending_def split: if_splits)

text \<open>An allocation only fails while some range is in use.\<close>

lemma alloc_fails_busy:
  assumes inv: "sdp_inv psz base sdp" and n: "0 < n" "n \<le> total_size sdp"
    and a: "alloc_srcptr sdp n = Inr (sdp', 0)"
  shows "sdp' = sdp" "in_use sdp \<noteq> []"
proof -
  have L: "sdp_layout base sdp" using inv by (simp add: sdp_inv_def)
  from L n have *: "sdp' = sdp \<and> (pending_allocations sdp \<noteq> [] \<or> (\<forall>x \<in> set (free_list sdp). snd x < round_up_size n))"
  proof (cases rule: alloc_srcptr_cases)
    case wait
    with a show ?thesis by simp
  next
    case (got p fl)
    with a show ?thesis by auto
  qed
  then show "sdp' = sdp" by simp
  show "in_use sdp \<noteq> []"
  proof
    assume e: "in_use sdp = []"
    with inv have "pending_allocations sdp = []" by (auto simp: sdp_inv_def)
    moreover have "free_list sdp = [(base, total_size sdp)]"
      using free_when_unused [OF L e] n by linarith
    moreover have "round_up_size n \<le> total_size sdp"
      using n L by (intro round_up_size_least) (auto simp: sdp_layout_def)
    ultimately show False using * by auto
  qed
qed

lemma fresh_range_in_pool:
  assumes "sdp_inv psz base sdp" and "(p, s) \<in> set (in_use sdp)"
  shows "{p ..< p + s} \<subseteq> pool_bytes base sdp"
  using assms span_subset_bytes [OF assms(2)]
  unfolding sdp_inv_def sdp_layout_def pool_bytes_def span_pair by blast

lemma copy_ready:
  assumes r: "msg_ready R msg src" and d: "payload_region src \<inter> {dst ..< dst + payload_size msg} = {}"
  shows "copy_data m src dst = Inr (write_bytes m dst (payload_data m src), freed_by src)"
    "length (payload_data m src) = payload_size msg"
    "read_bytes (write_bytes m dst (payload_data m src)) dst (payload_size msg) = payload_data m src"
proof -
  have len: "length (payload_data m src) = payload_size msg"
    using r by (simp add: msg_ready_def payload_data_def payload_length_def)
  then show "length (payload_data m src) = payload_size msg" .
  show "copy_data m src dst = Inr (write_bytes m dst (payload_data m src), freed_by src)"
    using r d by (intro copy_data_writes) (simp_all add: msg_ready_def)
  show "read_bytes (write_bytes m dst (payload_data m src)) dst (payload_size msg) = payload_data m src"
    unfolding len [symmetric] by (rule read_write_same)
qed

section \<open>Moving a payload: every outcome\<close>

lemma reserve_got:
  assumes ok: "node_ok base nd" and pool: "nd_pool nd = Some sdp"
    and rd: "msg_ready (pool_bytes base sdp) (nd_msgs nd this) src"
    and new: "this \<notin> set (pending_allocations sdp)"
    and a: "alloc_srcptr sdp (payload_size (nd_msgs nd this)) = Inr (sdp1, p)" "p \<noteq> 0"
    and le: "payload_size (nd_msgs nd this) \<le> total_size sdp"
  obtains nd' where
    "reserve_from_pool mp nd this (nd_msgs nd this) src sdp = Inr nd'" "node_ok base nd'"
    "payload_mode (nd_msgs nd' this) = PAYLOAD_SRCPTR" "payload (nd_msgs nd' this) = p"
    "read_bytes (nd_mem nd') p (payload_size (nd_msgs nd this)) = payload_data (nd_mem nd) src"
proof -
  let ?msg = "nd_msgs nd this"
  from ok pool have inv: "sdp_inv (nd_psz nd) base sdp" by (auto elim: node_okE)
  have pos: "0 < payload_size ?msg" and mid: "msgid ?msg < 256" using rd by (simp_all add: msg_ready_def)
  have inv1: "sdp_inv (nd_psz nd) base sdp1" by (rule sdp_inv_alloc [OF inv pos le a(1)])
  have L: "sdp_layout base sdp" using inv by (simp add: sdp_inv_def)
  have fr: "total_size sdp1 = total_size sdp" "pending_allocations sdp1 = pending_allocations sdp"
    using alloc_srcptr_frame [OF a(1)] by auto
  from L pos le have sub: "{p ..< p + payload_size ?msg} \<subseteq> pool_bytes base sdp"
  proof (cases rule: alloc_srcptr_cases)
    case wait
    with a show ?thesis by simp
  next
    case (got q fl)
    have "{q ..< q + payload_size ?msg} \<subseteq> {q ..< q + round_up_size (payload_size ?msg)}"
      using round_up_size_ge [of "payload_size ?msg"] by auto
    moreover have "{q ..< q + round_up_size (payload_size ?msg)} \<subseteq> pool_bytes base sdp"
      using got(4) L unfolding pool_bytes_def sdp_layout_def by blast
    moreover have "q = p" using got(1) a(1) by simp
    ultimately show ?thesis by blast
  qed
  then have dis: "payload_region src \<inter> {p ..< p + payload_size ?msg} = {}"
    using rd by (auto simp: msg_ready_def)
  note c = copy_ready [OF rd dis, of "nd_mem nd"]
  obtain sdp2 where s2: "(if uses_spill (payload_mode ?msg) then drop_spill sdp1 ?msg else Inr sdp1) = Inr sdp2"
    "sdp_inv (nd_psz nd) base sdp2 = sdp_inv (nd_psz nd) base sdp1"
    "pending_allocations sdp2 = pending_allocations sdp1" "total_size sdp2 = total_size sdp1"
    by (cases "uses_spill (payload_mode ?msg)") (auto intro: drop_spill_ok [OF mid, of sdp1 "nd_psz nd" base])
  let ?nd' = "put_msg (nd\<lparr>nd_mem := write_bytes (nd_mem nd) p (payload_data (nd_mem nd) src),
      nd_pool := Some sdp2, nd_freed := nd_freed nd @ freed_by src\<rparr>) this
      (?msg\<lparr>payload_mode := PAYLOAD_SRCPTR, payload := p, payload_src := None\<rparr>)"
  have res: "reserve_from_pool mp nd this ?msg src sdp = Inr ?nd'"
    unfolding reserve_from_pool_def a(1) obind.simps prod.case using a(2) s2(1) c(1) by simp
  have psz: "nd_psz ?nd' = nd_psz nd" by auto
  have "node_ok base ?nd'"
    using ok pool new s2 inv1 fr unfolding node_ok_def psz
    by (auto simp: pool_bytes_def)
  with that res c(3) show ?thesis by simp
qed


lemma reserve_wait:
  assumes ok: "node_ok base nd" and pool: "nd_pool nd = Some sdp"
    and rd: "msg_ready (pool_bytes base sdp) (nd_msgs nd this) src"
    and new: "this \<notin> set (pending_allocations sdp)"
    and a: "alloc_srcptr sdp (payload_size (nd_msgs nd this)) = Inr (sdp, 0)" "in_use sdp \<noteq> []"
    and le: "payload_size (nd_msgs nd this) \<le> total_size sdp"
    and mp: "mp \<noteq> 0" "payload_region src \<inter> {mp ..< mp + payload_size (nd_msgs nd this)} = {}"
      "pool_bytes base sdp \<inter> {mp ..< mp + payload_size (nd_msgs nd this)} = {}"
  obtains nd' src' where
    "reserve_from_pool mp nd this (nd_msgs nd this) src sdp = Inr nd'" "node_ok base nd'"
    "payload_mode (nd_msgs nd' this) = PAYLOAD_PENDING" "payload_src (nd_msgs nd' this) = Some src'"
    "payload_data (nd_mem nd') src' = payload_data (nd_mem nd) src"
    "payload_mode (nd_msgs nd this) = PAYLOAD_COPY \<longrightarrow>
       src' = ContiguousPayload mp (payload_size (nd_msgs nd this)) PAYLOAD_FREE"
proof -
  let ?msg = "nd_msgs nd this"
  from ok pool have inv: "sdp_inv (nd_psz nd) base sdp" by (auto elim: node_okE)
  note c = copy_ready [OF rd mp(2), of "nd_mem nd"]
  obtain m' fr src' where m: "(if payload_mode ?msg = PAYLOAD_COPY then
        if mp = 0 then Inl Assert_Failed
        else obind (copy_data (nd_mem nd) src mp) (\<lambda>(m', fr).
               Inr (m', fr, ContiguousPayload mp (payload_size ?msg) PAYLOAD_FREE))
      else Inr (nd_mem nd, [], src)) = Inr (m', fr, src')"
    and d: "payload_data m' src' = payload_data (nd_mem nd) src"
    and rd': "msg_ready (pool_bytes base sdp) (?msg\<lparr>payload_mode := PAYLOAD_PENDING, payload_src := Some src'\<rparr>) src'"
    and cp: "payload_mode ?msg = PAYLOAD_COPY \<longrightarrow> src' = ContiguousPayload mp (payload_size ?msg) PAYLOAD_FREE"
  proof (cases "payload_mode ?msg = PAYLOAD_COPY")
    case True
    have "msg_ready (pool_bytes base sdp) (?msg\<lparr>payload_mode := PAYLOAD_PENDING,
        payload_src := Some (ContiguousPayload mp (payload_size ?msg) PAYLOAD_FREE)\<rparr>)
        (ContiguousPayload mp (payload_size ?msg) PAYLOAD_FREE)"
      using rd mp(3) by (auto simp: msg_ready_def payload_length_def payload_region_def span_pair)
    with True mp(1) c that show ?thesis by (simp add: payload_data_def)
  next
    case False
    with rd that show ?thesis by (simp add: msg_ready_def)
  qed
  let ?nd1 = "put_msg (nd\<lparr>nd_mem := m', nd_freed := nd_freed nd @ fr\<rparr>) this
      (?msg\<lparr>payload_mode := PAYLOAD_PENDING, payload_src := Some src'\<rparr>)"
  let ?sdp2 = "sdp\<lparr>pending_allocations := pending_allocations sdp @ [this]\<rparr>"
  have psz: "nd_psz ?nd1 = nd_psz nd" by auto
  have ap: "add_pending (nd_psz ?nd1) sdp this = Inr ?sdp2"
    unfolding psz using le by (simp add: add_pending_def)
  have res: "reserve_from_pool mp nd this ?msg src sdp = Inr (?nd1\<lparr>nd_pool := Some ?sdp2\<rparr>)"
    unfolding reserve_from_pool_def a(1) obind.simps prod.case m Let_def ap by simp
  have "sdp_inv (nd_psz nd) base ?sdp2"
    using ap rd unfolding psz by (intro sdp_inv_add_pending [OF inv a(2)]) (simp_all add: msg_ready_def)
  moreover have "nd_psz (?nd1\<lparr>nd_pool := Some ?sdp2\<rparr>) = nd_psz nd" by auto
  ultimately have "node_ok base (?nd1\<lparr>nd_pool := Some ?sdp2\<rparr>)"
    using ok pool new rd' unfolding node_ok_def by (auto simp: pool_bytes_def)
  with that res d cp show ?thesis by simp
qed

section \<open>Delivery\<close>

lemma assign_delivers:
  assumes pool: "nd_pool nd = Some sdp"
    and rd: "msg_ready R (nd_msgs nd this) src" and p: "payload_mode (nd_msgs nd this) = PAYLOAD_PENDING"
    and sub: "{ptr ..< ptr + payload_size (nd_msgs nd this)} \<subseteq> R"
  obtains nd' sdp' where "assign_srcdata_pointer nd this ptr = Inr nd'" "nd_pool nd' = Some sdp'"
    "sdp_inv psz base sdp' = sdp_inv psz base sdp" "pending_allocations sdp' = pending_allocations sdp"
    "total_size sdp' = total_size sdp" "in_use sdp' = in_use sdp"
    "nd_msgs nd' = (nd_msgs nd)(this := (nd_msgs nd this)\<lparr>payload_src := None, payload := ptr, payload_mode := PAYLOAD_SRCPTR\<rparr>)"
    "read_bytes (nd_mem nd') ptr (payload_size (nd_msgs nd this)) = payload_data (nd_mem nd) src"
proof -
  let ?msg = "nd_msgs nd this"
  have src: "payload_src ?msg = Some src" and mid: "msgid ?msg < 256" using rd by (simp_all add: msg_ready_def)
  have "payload_region src \<inter> {ptr ..< ptr + payload_size ?msg} = {}"
    using rd sub by (auto simp: msg_ready_def)
  note c = copy_ready [OF rd this, of "nd_mem nd"]
  obtain sdp2 where s2: "drop_spill sdp ?msg = Inr sdp2"
    "sdp_inv psz base sdp2 = sdp_inv psz base sdp" "pending_allocations sdp2 = pending_allocations sdp"
    "total_size sdp2 = total_size sdp" "in_use sdp2 = in_use sdp"
    by (rule drop_spill_ok [OF mid, of sdp psz base])
  show ?thesis
  proof (cases "get_payload_mode src = PAYLOAD_FREE")
    case True
    with pool p src c(1) s2(1) have "assign_srcdata_pointer nd this ptr =
      Inr ((put_msg (nd\<lparr>nd_mem := write_bytes (nd_mem nd) ptr (payload_data (nd_mem nd) src),
              nd_freed := nd_freed nd @ freed_by src\<rparr>) this
              (?msg\<lparr>payload_src := None, payload := ptr, payload_mode := PAYLOAD_SRCPTR\<rparr>))\<lparr>nd_pool := Some sdp2\<rparr>)"
      by (simp add: assign_srcdata_pointer_def Let_def)
    with that [of _ sdp2] s2 c(3) show ?thesis by simp
  next
    case False
    with pool p src c(1) have "assign_srcdata_pointer nd this ptr =
      Inr (put_msg (nd\<lparr>nd_mem := write_bytes (nd_mem nd) ptr (payload_data (nd_mem nd) src),
              nd_freed := nd_freed nd @ freed_by src\<rparr>) this
              (?msg\<lparr>payload_src := None, payload := ptr, payload_mode := PAYLOAD_SRCPTR\<rparr>))"
      by (simp add: assign_srcdata_pointer_def Let_def)
    with that [of _ sdp] pool c(3) show ?thesis by simp
  qed
qed

section \<open>Spill owed by a message\<close>

text \<open>
  The spill bytes a message is charged for: from the reservation in \<^verbatim>\<open>enqueue_message\<close> until its
  payload is in the pool or the message is destroyed.
\<close>

definition spill_owed :: "OutgoingMessage \<Rightarrow> nat" where
  "spill_owed msg =
     (if uses_spill (payload_mode msg) then payload_size msg
      else if payload_mode msg = PAYLOAD_PENDING then
        (case payload_src msg of
           None \<Rightarrow> 0
         | Some src \<Rightarrow> if get_payload_mode src = PAYLOAD_FREE then payload_size msg else 0)
      else 0)"

definition node_spill :: "am_node \<Rightarrow> size_t" where
  "node_spill nd = (case nd_pool nd of None \<Rightarrow> 0 | Some sdp \<Rightarrow> current_spill_bytes sdp)"

definition spill_balance :: "am_node \<Rightarrow> msgptr \<Rightarrow> size_t" where
  "spill_balance nd this = node_spill nd - of_nat (spill_owed (nd_msgs nd this))"

text \<open>The source frees its memory exactly when the message owns it.\<close>

definition source_matches :: "OutgoingMessage \<Rightarrow> bool" where
  "source_matches msg \<longleftrightarrow>
     (\<forall>src. payload_src msg = Some src \<longrightarrow>
        (get_payload_mode src = PAYLOAD_FREE \<longleftrightarrow> payload_mode msg = PAYLOAD_FREE))"

lemma reserve_pool_spill:
  assumes pool: "nd_pool nd = Some sdp" and sm: "source_matches (nd_msgs nd this)"
    and src: "payload_src (nd_msgs nd this) = Some src"
    and np: "payload_mode (nd_msgs nd this) \<noteq> PAYLOAD_PENDING"
    and r: "reserve_from_pool mp nd this (nd_msgs nd this) src sdp = Inr nd'"
  shows "nd_pool nd' \<noteq> None" "spill_balance nd' this = spill_balance nd this"
proof -
  let ?msg = "nd_msgs nd this"
  obtain sdp1 p where a: "alloc_srcptr sdp (payload_size ?msg) = Inr (sdp1, p)"
    using r by (auto simp: reserve_from_pool_def)
  have cur: "current_spill_bytes sdp1 = current_spill_bytes sdp" using alloc_srcptr_frame [OF a] by simp
  have "nd_pool nd' \<noteq> None \<and> spill_balance nd' this = spill_balance nd this"
  proof (cases "p = 0")
    case True
    with r a obtain m' fr src' sdp2 where n: "nd_pool nd' = Some sdp2"
      "nd_msgs nd' this = ?msg\<lparr>payload_mode := PAYLOAD_PENDING, payload_src := Some src'\<rparr>"
      "current_spill_bytes sdp2 = current_spill_bytes sdp1"
      "payload_mode ?msg = PAYLOAD_COPY \<longrightarrow> get_payload_mode src' = PAYLOAD_FREE"
      "payload_mode ?msg \<noteq> PAYLOAD_COPY \<longrightarrow> src' = src"
      by (auto simp: reserve_from_pool_def Let_def dest!: add_pending_frame split: if_splits)
    have "spill_owed (nd_msgs nd' this) = spill_owed ?msg"
      using n sm src np by (auto simp: spill_owed_def source_matches_def)
    with n cur pool show ?thesis by (simp add: spill_balance_def node_spill_def)
  next
    case False
    with r a obtain sdp2 where n: "nd_pool nd' = Some sdp2" "payload_mode (nd_msgs nd' this) = PAYLOAD_SRCPTR"
      and s: "(if uses_spill (payload_mode ?msg) then drop_spill sdp1 ?msg else Inr sdp1) = Inr sdp2"
      by (auto simp: reserve_from_pool_def Let_def split: if_splits)
    have "current_spill_bytes sdp2 = current_spill_bytes sdp - of_nat (spill_owed ?msg)"
      using s cur np by (auto simp: spill_owed_def dest: drop_spill_current split: if_splits)
    with n pool show ?thesis by (simp add: spill_balance_def node_spill_def spill_owed_def)
  qed
  then show "nd_pool nd' \<noteq> None" "spill_balance nd' this = spill_balance nd this" by auto
qed

lemma reserve_spill:
  assumes pool: "nd_pool nd \<noteq> None" and sm: "source_matches (nd_msgs nd this)"
    and np: "payload_mode (nd_msgs nd this) \<noteq> PAYLOAD_PENDING"
    and r: "reserve_srcdata mp nd this = Inr nd'"
  shows "nd_pool nd' \<noteq> None" "spill_balance nd' this = spill_balance nd this"
proof -
  let ?msg = "nd_msgs nd this"
  from pool obtain sdp where sdp: "nd_pool nd = Some sdp" by auto
  have "nd' = nd \<or> (\<exists>cp. payload_mode ?msg = PAYLOAD_KEEPREG \<and> nd' = put_msg nd this (?msg\<lparr>payload := cp\<rparr>)) \<or>
      (\<exists>src. payload_src ?msg = Some src \<and> reserve_from_pool mp nd this ?msg src sdp = Inr nd')"
  proof (cases "payload_src ?msg")
    case None
    with r show ?thesis by (auto simp: reserve_srcdata_def Let_def split: if_splits)
  next
    case (Some src)
    with r sdp show ?thesis
      by (cases "payload_mode ?msg = PAYLOAD_KEEPREG"; cases src)
        (auto simp: reserve_srcdata_def Let_def split: if_splits)
  qed
  then consider (none) "nd' = nd"
    | (reg) cp where "payload_mode ?msg = PAYLOAD_KEEPREG" "nd' = put_msg nd this (?msg\<lparr>payload := cp\<rparr>)"
    | (pool) src where "payload_src ?msg = Some src" "reserve_from_pool mp nd this ?msg src sdp = Inr nd'"
    by blast
  then have "nd_pool nd' \<noteq> None \<and> spill_balance nd' this = spill_balance nd this"
  proof cases
    case reg
    with pool show ?thesis by (simp add: spill_balance_def node_spill_def spill_owed_def)
  next
    case (pool src)
    from reserve_pool_spill [OF sdp sm pool(1) np pool(2)] show ?thesis by simp
  qed (use pool in simp)
  then show "nd_pool nd' \<noteq> None" "spill_balance nd' this = spill_balance nd this" by auto
qed

lemma assign_spill:
  assumes pool: "nd_pool nd \<noteq> None" and r: "assign_srcdata_pointer nd this ptr = Inr nd'"
  shows "nd_pool nd' \<noteq> None" "spill_balance nd' this = spill_balance nd this"
    "payload_mode (nd_msgs nd' this) = PAYLOAD_SRCPTR"
proof -
  from pool obtain sdp where sdp: "nd_pool nd = Some sdp" by auto
  have "nd_pool nd' \<noteq> None \<and> spill_balance nd' this = spill_balance nd this \<and>
      payload_mode (nd_msgs nd' this) = PAYLOAD_SRCPTR"
    using r sdp
    by (auto simp: assign_srcdata_pointer_def Let_def spill_balance_def node_spill_def spill_owed_def
        dest!: drop_spill_current split: if_splits option.splits)
  then show "nd_pool nd' \<noteq> None" "spill_balance nd' this = spill_balance nd this"
    "payload_mode (nd_msgs nd' this) = PAYLOAD_SRCPTR" by auto
qed

lemma destroy_spill:
  assumes pool: "nd_pool nd \<noteq> None" and np: "payload_mode (nd_msgs nd this) \<noteq> PAYLOAD_PENDING"
    and r: "destroy_message nd this = Inr nd'"
  shows "node_spill nd' = spill_balance nd this"
proof -
  from pool obtain sdp where sdp: "nd_pool nd = Some sdp" by auto
  from r sdp np show ?thesis
    by (auto simp: destroy_message_def Let_def spill_balance_def node_spill_def spill_owed_def
        dest!: drop_spill_current split: if_splits option.splits prod.splits)
qed

text \<open>
  Example: a node over the pool \<open>pool_busy\<close> whose messages carry 150 bytes at address 1000 to
  be copied, with 150 bytes of spill reserved; and the node after message 7 had to wait.
\<close>

definition demo_msg :: OutgoingMessage where
  "demo_msg = \<lparr>msgid = 3, num_args = 0, args = [], payload = 0, payload_size = 150,
     payload_mode = PAYLOAD_COPY, dstptr = 0, payload_src = Some (ContiguousPayload 1000 150 PAYLOAD_COPY)\<rparr>"

definition demo_node :: am_node where
  "demo_node = \<lparr>nd_mem = (\<lambda>a. of_nat a), nd_pool = Some (pool_busy\<lparr>current_spill_bytes := 150\<rparr>),
     nd_msgs = (\<lambda>_. demo_msg), nd_freed = [], nd_deferred = init_deferred_frees\<rparr>"

definition demo_wait :: am_node where
  "demo_wait = demo_node\<lparr>nd_pool := Some (pool_waiting\<lparr>current_spill_bytes := 150\<rparr>),
     nd_msgs := (\<lambda>_. demo_msg\<lparr>payload_mode := PAYLOAD_PENDING,
                              payload_src := Some (ContiguousPayload 2000 150 PAYLOAD_FREE)\<rparr>)\<rparr>"

lemma demo_node_ok: "node_ok 64 demo_node"
  using pool_busy_inv [of "\<lambda>_. 150"]
  by (simp add: node_ok_def demo_node_def demo_msg_def sdp_inv_def sdp_layout_def pool_eval)

lemma demo_wait_ok: "node_ok 64 demo_wait"
proof -
  have "sdp_inv (\<lambda>_. 150) 64 (pool_waiting\<lparr>current_spill_bytes := 150\<rparr>)"
    using pool_waiting_inv by (simp add: sdp_inv_def sdp_layout_def)
  moreover have "msg_ready {64 ..< 256} (nd_msgs demo_wait 7) (ContiguousPayload 2000 150 PAYLOAD_FREE)"
    by (auto simp: demo_wait_def demo_msg_def msg_ready_def payload_length_def payload_region_def span_pair)
  ultimately show ?thesis
    unfolding node_ok_def by (auto simp: demo_wait_def demo_msg_def pool_bytes_def pool_eval)
qed

section \<open>Properties\<close>

text \<open>
  Moving a payload succeeds on a well-formed node and keeps it well formed.  Either the
  message now points at pool memory that holds exactly the bytes of its source, or it is waiting
  and the source it now carries denotes those bytes; a payload that had to be copied has been
  moved to fresh memory, so later writes of the caller cannot reach it.
\<close>

theorem reserve_srcdata_correct:
  assumes "node_ok base nd" and "nd_pool nd = Some sdp"
    and "msg_ready (pool_bytes base sdp) (nd_msgs nd this) src"
    and "payload_mode (nd_msgs nd this) \<in> {PAYLOAD_KEEP, PAYLOAD_FREE, PAYLOAD_COPY}"
    and "payload_size (nd_msgs nd this) \<le> total_size sdp" and "this \<notin> set (pending_allocations sdp)"
    and "mp \<noteq> 0" and "payload_region src \<inter> {mp ..< mp + payload_size (nd_msgs nd this)} = {}"
    and "pool_bytes base sdp \<inter> {mp ..< mp + payload_size (nd_msgs nd this)} = {}"
  shows "\<exists>nd'. reserve_srcdata mp nd this = Inr nd' \<and> node_ok base nd' \<and>
    ((payload_mode (nd_msgs nd' this) = PAYLOAD_SRCPTR \<and>
      read_bytes (nd_mem nd') (payload (nd_msgs nd' this)) (payload_size (nd_msgs nd this)) = payload_data (nd_mem nd) src) \<or>
     (payload_mode (nd_msgs nd' this) = PAYLOAD_PENDING \<and>
      (\<exists>src'. payload_src (nd_msgs nd' this) = Some src' \<and>
        payload_data (nd_mem nd') src' = payload_data (nd_mem nd) src \<and>
        (payload_mode (nd_msgs nd this) = PAYLOAD_COPY \<longrightarrow>
           payload_spans src' = [(mp, payload_size (nd_msgs nd this))]))))"
proof -
  let ?msg = "nd_msgs nd this"
  from assms(1,2) have inv: "sdp_inv (nd_psz nd) base sdp" by (auto elim: node_okE)
  have L: "sdp_layout base sdp" using inv by (simp add: sdp_inv_def)
  have pos: "0 < payload_size ?msg" and src: "payload_src ?msg = Some src"
    using assms(3) by (simp_all add: msg_ready_def)
  have red: "reserve_srcdata mp nd this = reserve_from_pool mp nd this ?msg src sdp"
    using assms(2,4) src by (auto simp: reserve_srcdata_def Let_def)
  obtain sdp1 p where a: "alloc_srcptr sdp (payload_size ?msg) = Inr (sdp1, p)"
    using alloc_srcptr_cases [OF L pos assms(5)] by metis
  show ?thesis
  proof (cases "p = 0")
    case False
    from reserve_got [OF assms(1-3,6) a False assms(5)] red show ?thesis by metis
  next
    case True
    note b = alloc_fails_busy [OF inv pos assms(5) a [unfolded True]]
    note a' = a [unfolded True b(1)]
    obtain nd' src' where "reserve_from_pool mp nd this ?msg src sdp = Inr nd'" "node_ok base nd'"
      "payload_mode (nd_msgs nd' this) = PAYLOAD_PENDING" "payload_src (nd_msgs nd' this) = Some src'"
      "payload_data (nd_mem nd') src' = payload_data (nd_mem nd) src"
      "payload_mode ?msg = PAYLOAD_COPY \<longrightarrow> src' = ContiguousPayload mp (payload_size ?msg) PAYLOAD_FREE"
      by (rule reserve_wait [OF assms(1-3,6) a' b(2) assms(5,7-9)])
    with red show ?thesis by auto
  qed
qed

theorem reserve_srcdata_correct_witness:
  "\<exists>nd'. reserve_srcdata 2000 demo_node 7 = Inr nd' \<and> node_ok 64 nd'"
proof -
  have "msg_ready (pool_bytes 64 (pool_busy\<lparr>current_spill_bytes := 150\<rparr>)) (nd_msgs demo_node 7)
      (ContiguousPayload 1000 150 PAYLOAD_COPY)"
    by (auto simp: demo_node_def demo_msg_def msg_ready_def payload_length_def payload_region_def
        span_pair pool_bytes_def pool_eval)
  from reserve_srcdata_correct [OF demo_node_ok _ this, of 2000] show ?thesis
    by (auto simp: demo_node_def demo_msg_def payload_region_def span_pair pool_bytes_def pool_eval)
qed

text \<open>
  Releasing pool memory on a well-formed node succeeds and keeps the node well formed, and
  every message it serves has, at the pool address it was given, exactly the bytes its source
  denoted before the release.
\<close>

theorem node_release_delivers:
  assumes "node_ok base nd" and "nd_pool nd = Some sdp" and "map_of (in_use sdp) p = Some s"
  shows "\<exists>nd' sdp' sat. release_srcptr (nd_psz nd) sdp p = Inr (sdp', sat) \<and>
    node_release_srcptr nd p = Inr nd' \<and> node_ok base nd' \<and>
    (\<forall>(msg, q) \<in> set sat. payload_mode (nd_msgs nd' msg) = PAYLOAD_SRCPTR \<and> payload (nd_msgs nd' msg) = q \<and>
       (\<exists>src. payload_src (nd_msgs nd msg) = Some src \<and>
          read_bytes (nd_mem nd') q (payload_size (nd_msgs nd msg)) = payload_data (nd_mem nd) src))"
proof -
  from assms(1,2) have N: "sdp_inv (nd_psz nd) base sdp" "distinct (pending_allocations sdp)"
    "\<forall>p \<in> set (pending_allocations sdp). payload_mode (nd_msgs nd p) = PAYLOAD_PENDING \<and>
       (\<exists>src. msg_ready (pool_bytes base sdp) (nd_msgs nd p) src)"
    by (auto simp: node_ok_def)
  have u: "(p, s) \<in> set (in_use sdp)" using assms(3) by (rule map_of_SomeD)
  obtain fl q t where m: "merge_adjacent (free_list sdp) p s = (fl, q, t)" by (metis prod_cases3)
  from N(1) u m show ?thesis
  proof (cases rule: release_srcptr_cases)
    case keep
    have "node_ok base (nd\<lparr>nd_pool := Some (sdp\<lparr>in_use := om_del p (in_use sdp), free_list := om_put q t fl\<rparr>)\<rparr>)"
      using keep(3) N(2,3) by (simp add: node_ok_def pool_bytes_def)
    with keep(1) assms(2) show ?thesis by (simp add: node_release_srcptr_def)
  next
    case (give msg rest a)
    let ?sdp' = "sdp\<lparr>free_list := (if t > a then om_put (q + a) (t - a) fl else fl),
      pending_allocations := rest, in_use := om_put q a (om_del p (in_use sdp))\<rparr>"
    let ?nd1 = "nd\<lparr>nd_pool := Some ?sdp'\<rparr>"
    have ok: "om_ok (om_del p (in_use sdp))" using N(1) by (simp add: sdp_inv_def sdp_layout_def apart_def)
    from N(3) give(1) obtain src where rd: "msg_ready (pool_bytes base sdp) (nd_msgs nd msg) src"
      "payload_mode (nd_msgs nd msg) = PAYLOAD_PENDING" by auto
    have "(q, a) \<in> set (in_use ?sdp')" by (simp add: set_om_put ok)
    from fresh_range_in_pool [OF give(8) this] round_up_size_ge [of "payload_size (nd_msgs nd msg)"] give(3)
    have sub: "{q ..< q + payload_size (nd_msgs nd msg)} \<subseteq> pool_bytes base sdp"
      by (auto simp: pool_bytes_def subset_eq)
    obtain nd' sdp2 where d: "assign_srcdata_pointer ?nd1 msg q = Inr nd'" "nd_pool nd' = Some sdp2"
      "sdp_inv (nd_psz nd) base sdp2 = sdp_inv (nd_psz nd) base ?sdp'" "pending_allocations sdp2 = rest"
      "total_size sdp2 = total_size sdp"
      "nd_msgs nd' = (nd_msgs nd)(msg := (nd_msgs nd msg)\<lparr>payload_src := None, payload := q, payload_mode := PAYLOAD_SRCPTR\<rparr>)"
      "read_bytes (nd_mem nd') q (payload_size (nd_msgs nd msg)) = payload_data (nd_mem nd) src"
      by (rule assign_delivers [of ?nd1 ?sdp' "pool_bytes base sdp" msg src q "nd_psz nd" base])
        (use rd sub in simp_all)
    have psz: "nd_psz nd' = nd_psz nd" unfolding d(6) by auto
    have "node_ok base nd'"
      using give(1,8) N(2,3) unfolding node_ok_def d(2) option.case psz d(3)
      by (auto simp: pool_bytes_def d(4,5,6))
    moreover have "node_release_srcptr nd p = Inr nd'"
      using assms(2) give(7) d(1) by (simp add: node_release_srcptr_def)
    moreover have "payload_src (nd_msgs nd msg) = Some src" using rd by (simp add: msg_ready_def)
    ultimately show ?thesis using give(7) d(6,7) by simp
  qed
qed

theorem node_release_delivers_witness:
  "\<exists>nd'. node_release_srcptr demo_wait 128 = Inr nd' \<and> node_ok 64 nd'"
proof -
  have "map_of (in_use (pool_waiting\<lparr>current_spill_bytes := 150\<rparr>)) 128 = Some 128"
    by (simp add: pool_eval)
  from node_release_delivers [OF demo_wait_ok _ this] show ?thesis by (auto simp: demo_wait_def)
qed

text \<open>
  Spill memory is given back exactly once.  A message that took spill memory when it was
  enqueued returns it by the time it is destroyed, whether its payload moved to the pool at
  once, had to wait for pool memory, or never left its buffer; a message that took none returns
  none.
\<close>

theorem message_spill_returned:
  assumes "nd_pool nd \<noteq> None" and "source_matches (nd_msgs nd this)"
    and "payload_mode (nd_msgs nd this) \<noteq> PAYLOAD_PENDING"
    and "reserve_srcdata mp nd this = Inr nd1"
    and "if payload_mode (nd_msgs nd1 this) = PAYLOAD_PENDING
         then assign_srcdata_pointer nd1 this ptr = Inr nd2 else nd2 = nd1"
    and "destroy_message nd2 this = Inr nd3"
  shows "node_spill nd3 = node_spill nd -
           (if uses_spill (payload_mode (nd_msgs nd this)) then of_nat (payload_size (nd_msgs nd this)) else 0)"
proof -
  note r = reserve_spill [OF assms(1-4)]
  have n2: "nd_pool nd2 \<noteq> None \<and> spill_balance nd2 this = spill_balance nd1 this \<and>
      payload_mode (nd_msgs nd2 this) \<noteq> PAYLOAD_PENDING"
    using assms(5) assign_spill [OF r(1), of this ptr nd2] r(1) by (auto split: if_splits)
  then have "node_spill nd3 = spill_balance nd2 this" using destroy_spill [OF _ _ assms(6)] by blast
  with n2 r(2) assms(3) show ?thesis by (simp add: spill_balance_def spill_owed_def)
qed

theorem message_spill_returned_witness:
  "\<exists>nd3. destroy_message (projr (assign_srcdata_pointer demo_wait 7 64)) 7 = Inr nd3 \<and>
     node_spill (projr (reserve_srcdata 2000 demo_node 7)) = 150 \<and>
     (let nd1 = projr (reserve_srcdata 2000 demo_node 7); nd2 = projr (assign_srcdata_pointer nd1 7 64)
      in node_spill (projr (destroy_message nd2 7)) = 0)"
proof -
  obtain nd1 where r: "reserve_srcdata 2000 demo_node 7 = Inr nd1"
    "payload_mode (nd_msgs nd1 7) = PAYLOAD_PENDING" "node_spill nd1 = 150"
    "payload_src (nd_msgs nd1 7) = Some (ContiguousPayload 2000 150 PAYLOAD_FREE)"
    "msgid (nd_msgs nd1 7) = 3" "nd_pool nd1 \<noteq> None"
    by (simp add: demo_node_def demo_msg_def reserve_srcdata_def reserve_from_pool_def alloc_srcptr_def
        round_up_size_def BLOCK_SIZE_def add_pending_def pool_eval node_spill_def Let_def)
  obtain nd2 where a: "assign_srcdata_pointer nd1 7 64 = Inr nd2" "payload_src (nd_msgs nd2 7) = None"
    "payload_mode (nd_msgs nd2 7) = PAYLOAD_SRCPTR"
    using r(2-6) by (auto simp: assign_srcdata_pointer_def Let_def drop_spill_def release_spill_memory_def)
  obtain nd3 where d: "destroy_message nd2 7 = Inr nd3"
    using a(2,3) by (simp add: destroy_message_def)
  have "node_spill nd3 = node_spill demo_node - of_nat 150"
    using message_spill_returned [of demo_node 7 2000 nd1 64 nd2 nd3] r(1,2) a(1) d
    by (simp add: demo_node_def demo_msg_def source_matches_def)
  then have "node_spill nd3 = 0" by (simp add: demo_node_def node_spill_def)
  moreover have "\<exists>nd3. destroy_message (projr (assign_srcdata_pointer demo_wait 7 64)) 7 = Inr nd3"
    by (simp add: demo_wait_def demo_node_def demo_msg_def assign_srcdata_pointer_def Let_def drop_spill_def
        release_spill_memory_def destroy_message_def)
  ultimately show ?thesis using r(1,3) a(1) d by (simp add: Let_def)
qed

text \<open>
  A strided payload in mode \<open>PAYLOAD_FREE\<close> that has to wait for pool memory loses its spill
  reservation for good: after delivery and destruction the 150 bytes are still charged, because
  the delivery asks the source for its mode and a strided source always answers
  \<open>PAYLOAD_KEEP\<close>.
\<close>

theorem strided_free_leaks_spill:
  "\<exists>nd1 nd2 nd3.
     reserve_srcdata 2000 (demo_node\<lparr>nd_msgs := (\<lambda>_. demo_msg\<lparr>payload_mode := PAYLOAD_FREE,
         payload_src := Some (TwoDPayload 1000 50 3 100 PAYLOAD_FREE)\<rparr>)\<rparr>) 7 = Inr nd1 \<and>
     payload_mode (nd_msgs nd1 7) = PAYLOAD_PENDING \<and>
     assign_srcdata_pointer nd1 7 64 = Inr nd2 \<and> destroy_message nd2 7 = Inr nd3 \<and>
     node_spill nd3 = 150 \<and> nd_freed nd3 = []"
  by (simp add: demo_node_def demo_msg_def reserve_srcdata_def reserve_from_pool_def alloc_srcptr_def
      round_up_size_def BLOCK_SIZE_def add_pending_def pool_eval node_spill_def Let_def
      assign_srcdata_pointer_def destroy_message_def numeral_3_eq_3)

end
