(* ===== verification/Endpoint.thy ===== *)
theory Endpoint
  imports Outgoing_Message
begin

text \<open>
  \<^verbatim>\<open>ActiveMessageEndpoint\<close> of \<^verbatim>\<open>src/templates/activemsg.cc\<close>: the two outgoing queues, the
  long message buffers (LMBs) of the peer that this node writes and of its own that the peer
  writes, the sending of short, medium and long messages, the reassembly of chunked messages and
  the handlers of the flip protocol.  The queues hold message pointers; the messages are in the
  node (theory \<open>Outgoing_Message\<close>).  What is handed to GASNet is a list of \<open>wire\<close> values.
  The constants GASNet reports (largest long request, largest medium payload) and the segment
  table are arguments.
\<close>

section \<open>State\<close>

definition MSGID_RELEASE_SRCPTR :: nat where "MSGID_RELEASE_SRCPTR = 252"
definition MSGID_FLIP_REQ :: nat where "MSGID_FLIP_REQ = 254"
definition MSGID_FLIP_ACK :: nat where "MSGID_FLIP_ACK = 255"
definition MESSAGE_ID_MAGIC :: "32 word" where "MESSAGE_ID_MAGIC = 0x0bad0bad"
definition MESSAGE_CHUNKS_MAGIC :: "32 word" where "MESSAGE_CHUNKS_MAGIC = 0x0a550a55"

record am_config =
  num_lmbs :: nat
  lmb_size :: nat
  max_long_req :: nat
  max_medium :: nat

record segment =
  seg_addr :: nat
  seg_size :: nat

datatype wire =
    AMShort nat "32 word list"
  | AMMedium nat "byte list" "32 word list"
  | AMLong nat "byte list" addr "32 word list"

record ChunkInfo =
  base_ptr :: addr
  ci_chunks :: nat
  ci_total_size :: nat

record ActiveMessageEndpoint =
  out_short_hdrs :: "msgptr list"
  out_long_hdrs :: "msgptr list"
  cur_write_lmb :: nat
  cur_write_count :: nat
  cur_write_offset :: nat
  lmb_w_bases :: "addr list"
  lmb_r_bases :: "addr list"
  lmb_r_counts :: "int list"
  lmb_w_avail :: "bool list"
  observed_messages :: "(int, ChunkInfo) omap"
  next_outgoing_message_id :: "32 word"

text \<open>
  Buffer \<open>i\<close> of the pair: \<open>seg_size\<close> and the products are 64-bit unsigned, so the address is
  taken modulo \<open>2 ^ 64\<close>.
\<close>

definition lmb_base :: "am_config \<Rightarrow> nat \<Rightarrow> nat \<Rightarrow> nat \<Rightarrow> nat \<Rightarrow> addr" where
  "lmb_base cfg addr sz node i =
     nat ((int addr + (int sz - int (lmb_size cfg * (node * num_lmbs cfg + i + 1)))) mod 2 ^ 64)"

definition ActiveMessageEndpoint_construct ::
  "am_config \<Rightarrow> (node_id \<Rightarrow> segment) \<Rightarrow> node_id \<Rightarrow> node_id \<Rightarrow> ActiveMessageEndpoint" where
  "ActiveMessageEndpoint_construct cfg segment_info mynode peer =
     \<lparr>out_short_hdrs = [], out_long_hdrs = [],
      cur_write_lmb = 0, cur_write_count = 0, cur_write_offset = 0,
      lmb_w_bases = map (lmb_base cfg (seg_addr (segment_info peer)) (seg_size (segment_info peer)) mynode) [0 ..< num_lmbs cfg],
      lmb_r_bases = map (lmb_base cfg (seg_addr (segment_info mynode)) (seg_size (segment_info peer)) peer) [0 ..< num_lmbs cfg],
      lmb_r_counts = replicate (num_lmbs cfg) 0,
      lmb_w_avail = replicate (num_lmbs cfg) True,
      observed_messages = [],
      next_outgoing_message_id = 0\<rparr>"

section \<open>Sending\<close>

definition short_arities :: "nat list" where
  "short_arities = [1, 2, 3, 4, 5, 6, 8, 10, 12, 14, 16]"

definition send_short :: "am_node \<Rightarrow> OutgoingMessage \<Rightarrow> wire list outcome" where
  "send_short nd hdr =
     (if num_args hdr \<in> set short_arities then
        if payload_mode hdr \<noteq> PAYLOAD_NONE then
          Inr [AMMedium (msgid hdr) (read_bytes (nd_mem nd) (payload hdr) (payload_size hdr))
                 (take (num_args hdr) (args hdr))]
        else Inr [AMShort (msgid hdr) (take (num_args hdr) (args hdr))]
      else Inl Assert_Failed)"

text \<open>The chunks of a long message, last chunk first: index, offset and length of each.\<close>

definition long_chunks :: "nat \<Rightarrow> nat \<Rightarrow> nat" where
  "long_chunks max_long sz = (sz + max_long - 1) div max_long"

definition chunk_size :: "nat \<Rightarrow> nat \<Rightarrow> nat \<Rightarrow> nat" where
  "chunk_size max_long sz i =
     (let chunks = long_chunks max_long sz
      in if i < chunks - 1 then max_long else sz - (chunks - 1) * max_long)"

fun emit_chunks :: "(nat \<Rightarrow> wire) \<Rightarrow> nat \<Rightarrow> wire list" where
  "emit_chunks f 0 = []"
| "emit_chunks f (Suc i) = f i # emit_chunks f i"

definition srcptr_lo :: "64 word \<Rightarrow> 32 word" where
  "srcptr_lo p = ucast (and p 0x0FFFFFFFF)"

definition srcptr_hi :: "64 word \<Rightarrow> 32 word" where
  "srcptr_hi p = ucast (drop_bit 32 p)"

text \<open>
  \<open>set_long_args\<close> fills in message number, chunk count and source pointer at the place the
  magic numbers mark.
\<close>

definition set_long_args :: "am_config \<Rightarrow> 32 word \<Rightarrow> OutgoingMessage \<Rightarrow> 32 word list outcome" where
  "set_long_args cfg message_id hdr =
     obind
       (if args hdr ! 0 = MESSAGE_ID_MAGIC then
          if args hdr ! 1 = MESSAGE_CHUNKS_MAGIC then Inr 0 else Inl Assert_Failed
        else if args hdr ! 2 = MESSAGE_ID_MAGIC \<and> args hdr ! 3 = MESSAGE_CHUNKS_MAGIC then Inr 2
        else Inl Assert_Failed) (\<lambda>start.
       let chunks = long_chunks (max_long_req cfg) (payload_size hdr);
           p = (if payload_mode hdr = PAYLOAD_SRCPTR then of_nat (payload hdr) else 0)
       in Inr ((args hdr)[start := message_id, start + 1 := of_nat chunks,
                          start + 2 := srcptr_lo p, start + 3 := srcptr_hi p]))"

definition send_long ::
  "am_config \<Rightarrow> am_node \<Rightarrow> ActiveMessageEndpoint \<Rightarrow> OutgoingMessage \<Rightarrow> addr \<Rightarrow>
     (ActiveMessageEndpoint \<times> wire list) outcome" where
  "send_long cfg nd ep hdr dest_ptr =
     obind (set_long_args cfg (next_outgoing_message_id ep) hdr) (\<lambda>as.
       let chunks = long_chunks (max_long_req cfg) (payload_size hdr);
           ep' = ep\<lparr>next_outgoing_message_id := next_outgoing_message_id ep + 1\<rparr>;
           chunk = (\<lambda>i. AMLong (msgid hdr)
                      (read_bytes (nd_mem nd) (payload hdr + i * max_long_req cfg)
                         (chunk_size (max_long_req cfg) (payload_size hdr) i))
                      (dest_ptr + i * max_long_req cfg) (take (num_args hdr) as))
       in if chunks > 0 \<and> \<not> (2 \<le> num_args hdr \<and> num_args hdr \<le> 16) then Inl Assert_Failed
          else Inr (ep', emit_chunks chunk chunks))"

section \<open>Pushing messages\<close>

definition align_128 :: "nat \<Rightarrow> nat" where
  "align_128 off = (if off mod 128 \<noteq> 0 then (off div 128 + 1) * 128 else off)"

abbreviation queues_empty :: "ActiveMessageEndpoint \<Rightarrow> bool" where
  "queues_empty ep \<equiv> out_short_hdrs ep = [] \<and> out_long_hdrs ep = []"

text \<open>
  One round of the loop of \<^verbatim>\<open>push_messages\<close> with the lock held: a message was sent
  (\<open>Sent\<close>), the current buffer was flipped (\<open>Flipped\<close>), or the loop ends because the next
  message waits for pool memory, for a buffer, or because there is nothing to do.
\<close>

datatype push_result =
    Sent ActiveMessageEndpoint am_node "wire list"
  | Flipped ActiveMessageEndpoint "wire list"
  | Waits_Srcdata
  | Waits_Lmb
  | Idle

definition push_short :: "am_node \<Rightarrow> ActiveMessageEndpoint \<Rightarrow> msgptr \<Rightarrow> push_result outcome" where
  "push_short nd ep hdr =
     obind (send_short nd (nd_msgs nd hdr)) (\<lambda>w.
     obind (destroy_message nd hdr) (\<lambda>nd'. Inr (Sent ep nd' w)))"

definition push_long :: "am_config \<Rightarrow> am_node \<Rightarrow> ActiveMessageEndpoint \<Rightarrow> msgptr \<Rightarrow> addr \<Rightarrow> push_result outcome" where
  "push_long cfg nd ep hdr dest_ptr =
     obind (send_long cfg nd ep (nd_msgs nd hdr) dest_ptr) (\<lambda>(ep', w).
     obind (destroy_message nd hdr) (\<lambda>nd'. Inr (Sent ep' nd' w)))"

definition lmb_place :: "ActiveMessageEndpoint \<Rightarrow> nat \<Rightarrow> ActiveMessageEndpoint \<times> addr" where
  "lmb_place ep sz =
     (ep\<lparr>cur_write_offset := align_128 (cur_write_offset ep + sz), cur_write_count := cur_write_count ep + 1\<rparr>,
      lmb_w_bases ep ! cur_write_lmb ep + cur_write_offset ep)"

definition lmb_flip :: "am_config \<Rightarrow> ActiveMessageEndpoint \<Rightarrow> ActiveMessageEndpoint \<times> wire" where
  "lmb_flip cfg ep =
     (ep\<lparr>lmb_w_avail := (lmb_w_avail ep)[cur_write_lmb ep := False],
         cur_write_lmb := (cur_write_lmb ep + 1) mod num_lmbs cfg,
         cur_write_offset := 0, cur_write_count := 0\<rparr>,
      AMShort MSGID_FLIP_REQ [of_nat (cur_write_lmb ep), of_nat (cur_write_count ep)])"

definition push_one :: "am_config \<Rightarrow> am_node \<Rightarrow> ActiveMessageEndpoint \<Rightarrow> push_result outcome" where
  "push_one cfg nd ep =
     (case out_short_hdrs ep of
        hdr # rest \<Rightarrow> push_short nd (ep\<lparr>out_short_hdrs := rest\<rparr>) hdr
      | [] \<Rightarrow>
          (case out_long_hdrs ep of
             [] \<Rightarrow> Inr Idle
           | hdr # rest \<Rightarrow>
               let msg = nd_msgs nd hdr; ep1 = ep\<lparr>out_long_hdrs := rest\<rparr> in
               if payload_size msg = 0 then push_short nd ep1 hdr
               else if payload_mode msg = PAYLOAD_PENDING then Inr Waits_Srcdata
               else if dstptr msg \<noteq> 0 then push_long cfg nd ep1 hdr (dstptr msg)
               else if \<not> lmb_w_avail ep ! cur_write_lmb ep then Inr Waits_Lmb
               else if payload_size msg > lmb_size cfg then Inl Assert_Failed
               else if cur_write_offset ep + payload_size msg \<le> lmb_size cfg then
                 let (ep2, dest_ptr) = lmb_place ep1 (payload_size msg) in push_long cfg nd ep2 hdr dest_ptr
               else let (ep2, w) = lmb_flip cfg ep in Inr (Flipped ep2 [w])))"

lemma push_short_Sent: "push_short nd ep hdr = Inr r \<Longrightarrow> \<exists>nd' w. r = Sent ep nd' w"
  by (auto simp: push_short_def)

lemma push_long_Sent:
  "push_long cfg nd ep hdr d = Inr r \<Longrightarrow>
     \<exists>ep' nd' w. r = Sent ep' nd' w \<and> ep' = ep\<lparr>next_outgoing_message_id := next_outgoing_message_id ep + 1\<rparr>"
  by (auto simp: push_long_def send_long_def Let_def split: if_splits)

lemma lmb_place_queues [simp]:
  "out_short_hdrs (fst (lmb_place ep n)) = out_short_hdrs ep"
  "out_long_hdrs (fst (lmb_place ep n)) = out_long_hdrs ep"
  by (simp_all add: lmb_place_def)

lemma lmb_flip_simps [simp]:
  "out_short_hdrs (fst (lmb_flip cfg ep)) = out_short_hdrs ep"
  "out_long_hdrs (fst (lmb_flip cfg ep)) = out_long_hdrs ep"
  "cur_write_offset (fst (lmb_flip cfg ep)) = 0"
  by (simp_all add: lmb_flip_def)

lemma push_one_Sent_queues:
  assumes "push_one cfg nd ep = Inr (Sent ep' nd' w)"
  shows "(\<exists>h. out_short_hdrs ep = h # out_short_hdrs ep' \<and> out_long_hdrs ep' = out_long_hdrs ep) \<or>
         (\<exists>h. out_short_hdrs ep = [] \<and> out_short_hdrs ep' = [] \<and> out_long_hdrs ep = h # out_long_hdrs ep')"
proof (cases "out_short_hdrs ep")
  case (Cons h rest)
  with assms show ?thesis by (auto simp: push_one_def dest: push_short_Sent)
next
  case Nil
  with assms obtain h rest where h: "out_long_hdrs ep = h # rest"
    by (auto simp: push_one_def split: list.splits)
  with Nil assms have "out_short_hdrs ep' = [] \<and> out_long_hdrs ep' = rest"
    by (auto simp: push_one_def Let_def lmb_place_def split: if_splits prod.splits
        dest!: push_short_Sent push_long_Sent)
  with Nil h show ?thesis by simp
qed

lemma push_one_Flipped:
  assumes "push_one cfg nd ep = Inr (Flipped ep' w)"
  shows "ep' = fst (lmb_flip cfg ep)" "w = [snd (lmb_flip cfg ep)]" "0 < cur_write_offset ep"
    "out_short_hdrs ep = []" "out_long_hdrs ep \<noteq> []" "lmb_w_avail ep ! cur_write_lmb ep"
  using assms
  by (auto simp: push_one_def Let_def split: if_splits prod.splits list.splits
      dest: push_short_Sent push_long_Sent)

text \<open>
  The loop.  \<open>trylock it\<close> says whether the lock was free in round \<open>it\<close>.  It ends: a sent
  message leaves its queue, and after a flip the current buffer is empty, so that the next message
  fits or waits.
\<close>

function push_messages ::
  "am_config \<Rightarrow> (nat \<Rightarrow> bool) \<Rightarrow> nat \<Rightarrow> nat \<Rightarrow> nat \<Rightarrow> am_node \<Rightarrow> ActiveMessageEndpoint \<Rightarrow> bool \<Rightarrow> wire list \<Rightarrow>
     (am_node \<times> ActiveMessageEndpoint \<times> wire list \<times> bool) outcome" where
  "push_messages cfg trylock max_to_send it count nd ep still_more out =
     (if \<not> (still_more \<and> (max_to_send = 0 \<or> count < max_to_send)) then Inr (nd, ep, out, still_more)
      else if \<not> trylock it then Inr (nd, ep, out, still_more)
      else
        case push_one cfg nd ep of
          Inl e \<Rightarrow> Inl e
        | Inr (Sent ep' nd' w) \<Rightarrow>
            push_messages cfg trylock max_to_send (Suc it) (count + 1) nd' ep' (\<not> queues_empty ep') (out @ w)
        | Inr (Flipped ep' w) \<Rightarrow>
            push_messages cfg trylock max_to_send (Suc it) count nd ep' still_more (out @ w)
        | Inr _ \<Rightarrow> Inr (nd, ep, out, still_more))"
  by pat_completeness auto
termination
proof (relation "measures [\<lambda>(cfg, tl, mx, it, c, nd, ep, sm, out). length (out_short_hdrs ep) + length (out_long_hdrs ep),
    \<lambda>(cfg, tl, mx, it, c, nd, ep, sm, out). cur_write_offset ep]", goal_cases)
  case (2 cfg trylock mx it count nd ep sm out r ep' nd' w)
  then have "push_one cfg nd ep = Inr (Sent ep' nd' w)" by simp
  from push_one_Sent_queues [OF this] show ?case by auto
next
  case (3 cfg trylock mx it count nd ep sm out r ep' w)
  then have "push_one cfg nd ep = Inr (Flipped ep' w)" by simp
  from push_one_Flipped [OF this] show ?case by simp
qed simp

declare push_messages.simps [simp del]

section \<open>Enqueueing\<close>

text \<open>
  \<^verbatim>\<open>enqueue_message\<close> first reserves spill memory; a suspended reservation is retried with
  \<open>first_try\<close> false once the thread has been woken (theory \<open>Spill\<close>).
\<close>

definition enqueue_reserve ::
  "spill_config \<Rightarrow> bool \<Rightarrow> am_node \<Rightarrow> msgptr \<Rightarrow> bool \<Rightarrow> (am_node \<times> spill_reply) outcome" where
  "enqueue_reserve scfg always_allow nd hdr first_try =
     (let msg = nd_msgs nd hdr in
      if payload_size msg > 0 \<and> uses_spill (payload_mode msg) then
        case nd_pool nd of
          None \<Rightarrow> Inl Undefined_Behaviour
        | Some sdp \<Rightarrow>
            obind (alloc_spill_memory scfg always_allow sdp (of_nat (payload_size msg)) (msgid msg) first_try)
              (\<lambda>(sdp', reply, lines). Inr (nd\<lparr>nd_pool := Some sdp'\<rparr>, reply))
      else Inr (nd, Granted))"

definition ep_enqueue_message ::
  "am_config \<Rightarrow> addr \<Rightarrow> am_node \<Rightarrow> ActiveMessageEndpoint \<Rightarrow> msgptr \<Rightarrow> bool \<Rightarrow>
     (am_node \<times> ActiveMessageEndpoint \<times> bool) outcome" where
  "ep_enqueue_message cfg mallocp nd ep hdr in_order =
     obind (reserve_srcdata mallocp nd hdr) (\<lambda>nd'.
       let was_empty = queues_empty ep;
           ep' = (if \<not> in_order \<and> payload_size (nd_msgs nd' hdr) \<le> max_medium cfg
                  then ep\<lparr>out_short_hdrs := out_short_hdrs ep @ [hdr]\<rparr>
                  else ep\<lparr>out_long_hdrs := out_long_hdrs ep @ [hdr]\<rparr>)
       in Inr (nd', ep', was_empty))"

section \<open>Receiving\<close>

text \<open>Queueing the acknowledgement of a buffer as a new message at address \<open>newp\<close>.\<close>

definition queue_flip_ack ::
  "am_node \<Rightarrow> ActiveMessageEndpoint \<Rightarrow> msgptr \<Rightarrow> nat \<Rightarrow> (am_node \<times> ActiveMessageEndpoint \<times> bool) outcome" where
  "queue_flip_ack nd ep newp buffer =
     obind (OutgoingMessage_construct MSGID_FLIP_ACK [of_nat buffer]) (\<lambda>hdr.
       Inr (put_msg nd newp hdr, ep\<lparr>out_short_hdrs := out_short_hdrs ep @ [newp]\<rparr>, queues_empty ep))"

fun find_buffer :: "nat \<Rightarrow> addr list \<Rightarrow> addr \<Rightarrow> nat \<Rightarrow> nat option" where
  "find_buffer sz [] ptr i = None"
| "find_buffer sz (b # bs) ptr i = (if b \<le> ptr \<and> ptr < b + sz then Some i else find_buffer sz bs ptr (Suc i))"

definition ep_handle_long_msgptr ::
  "am_config \<Rightarrow> am_node \<Rightarrow> ActiveMessageEndpoint \<Rightarrow> msgptr \<Rightarrow> addr \<Rightarrow>
     (am_node \<times> ActiveMessageEndpoint \<times> bool) outcome" where
  "ep_handle_long_msgptr cfg nd ep newp ptr =
     (case find_buffer (lmb_size cfg) (lmb_r_bases ep) ptr 0 of
        None \<Rightarrow> Inr (nd, ep, False)
      | Some r_buffer \<Rightarrow>
          let ep1 = ep\<lparr>lmb_r_counts := (lmb_r_counts ep)[r_buffer := lmb_r_counts ep ! r_buffer + 1]\<rparr>
          in if lmb_r_counts ep1 ! r_buffer = 0 then queue_flip_ack nd ep1 newp r_buffer
             else Inr (nd, ep1, False))"

definition ep_handle_flip_request ::
  "am_node \<Rightarrow> ActiveMessageEndpoint \<Rightarrow> msgptr \<Rightarrow> nat \<Rightarrow> nat \<Rightarrow>
     (am_node \<times> ActiveMessageEndpoint \<times> bool) outcome" where
  "ep_handle_flip_request nd ep newp buffer count =
     (if \<not> buffer < length (lmb_r_counts ep) then Inl Undefined_Behaviour
      else
        let ep1 = ep\<lparr>lmb_r_counts := (lmb_r_counts ep)[buffer := lmb_r_counts ep ! buffer - int count]\<rparr>
        in if lmb_r_counts ep1 ! buffer = 0 then queue_flip_ack nd ep1 newp buffer
           else Inr (nd, ep1, False))"

definition ep_handle_flip_ack :: "ActiveMessageEndpoint \<Rightarrow> nat \<Rightarrow> ActiveMessageEndpoint outcome" where
  "ep_handle_flip_ack ep buffer =
     (if \<not> buffer < length (lmb_w_avail ep) then Inl Undefined_Behaviour
      else Inr (ep\<lparr>lmb_w_avail := (lmb_w_avail ep)[buffer := True]\<rparr>))"

text \<open>
  Reassembly of a chunked message: result is the endpoint, whether the message is complete, and
  the address and size to use.
\<close>

definition ep_adjust_long_msgsize ::
  "ActiveMessageEndpoint \<Rightarrow> addr \<Rightarrow> nat \<Rightarrow> int \<Rightarrow> nat \<Rightarrow> ActiveMessageEndpoint \<times> bool \<times> addr \<times> nat" where
  "ep_adjust_long_msgsize ep ptr buffer_size message_id chunks =
     (if chunks = 1 then (ep, True, ptr, buffer_size)
      else
        case map_of (observed_messages ep) message_id of
          None \<Rightarrow>
            (ep\<lparr>observed_messages := om_put message_id
                 \<lparr>base_ptr = ptr, ci_chunks = 1, ci_total_size = buffer_size\<rparr> (observed_messages ep)\<rparr>,
             False, ptr, buffer_size)
        | Some info \<Rightarrow>
            let info1 = (if ptr < base_ptr info then info\<lparr>base_ptr := ptr\<rparr> else info);
                info2 = info1\<lparr>ci_total_size := ci_total_size info1 + buffer_size, ci_chunks := ci_chunks info1 + 1\<rparr>
            in if ci_chunks info2 = chunks then
                 (ep\<lparr>observed_messages := om_del message_id (observed_messages ep)\<rparr>, True,
                  base_ptr info2, ci_total_size info2)
               else (ep\<lparr>observed_messages := om_put message_id info2 (observed_messages ep)\<rparr>, False, ptr, buffer_size))"

definition adjust_long_msgsize ::
  "ActiveMessageEndpoint \<Rightarrow> addr \<Rightarrow> nat \<Rightarrow> int \<Rightarrow> nat \<Rightarrow> ActiveMessageEndpoint \<times> bool \<times> addr \<times> nat" where
  "adjust_long_msgsize ep ptr buffer_size message_id chunks =
     (if buffer_size = 0 then (ep, True, ptr, buffer_size)
      else ep_adjust_long_msgsize ep ptr buffer_size message_id chunks)"

text \<open>The handler of the release message puts the pointer together again.\<close>

definition srcptr_of_args :: "32 word \<Rightarrow> 32 word \<Rightarrow> 64 word" where
  "srcptr_of_args arg0 arg1 = or (push_bit 32 (ucast arg1)) (ucast arg0)"

definition release_srcptr_handler :: "am_node \<Rightarrow> 32 word \<Rightarrow> 32 word \<Rightarrow> am_node outcome" where
  "release_srcptr_handler nd arg0 arg1 =
     (let srcptr = srcptr_of_args arg0 arg1
      in if srcptr \<noteq> 0 then node_release_srcptr nd (unat srcptr) else Inr nd)"

section \<open>Chunks\<close>

lemma long_chunks_bounds:
  assumes "0 < mx" and "0 < sz"
  shows "0 < long_chunks mx sz" "(long_chunks mx sz - 1) * mx < sz" "sz \<le> long_chunks mx sz * mx"
proof -
  define k where "k = (sz - 1) div mx"
  have *: "sz + mx - 1 = (sz - 1) + mx" using assms by simp
  have k: "long_chunks mx sz = k + 1" unfolding long_chunks_def * k_def using assms(1) by (simp add: div_add_self2)
  have "k * mx \<le> sz - 1" unfolding k_def by (metis div_times_less_eq_dividend)
  moreover have "sz - 1 < (k + 1) * mx"
    unfolding k_def using assms(1) by (metis Suc_eq_plus1 dividend_less_div_times mult_Suc add.commute)
  ultimately show "0 < long_chunks mx sz" "(long_chunks mx sz - 1) * mx < sz" "sz \<le> long_chunks mx sz * mx"
    using assms unfolding k by simp_all
qed

lemma chunk_in_range:
  assumes "0 < mx" and "0 < sz" and "i < long_chunks mx sz"
  shows "0 < chunk_size mx sz i" "chunk_size mx sz i \<le> mx" "i * mx + chunk_size mx sz i \<le> sz"
    "i < long_chunks mx sz - 1 \<Longrightarrow> i * mx + chunk_size mx sz i = (i + 1) * mx"
    "i = long_chunks mx sz - 1 \<Longrightarrow> i * mx + chunk_size mx sz i = sz"
proof -
  note b = long_chunks_bounds [OF assms(1,2)]
  let ?n = "long_chunks mx sz"
  have n: "?n * mx = (?n - 1) * mx + mx" using b(1) by (cases ?n) auto
  show a: "i < ?n - 1 \<Longrightarrow> i * mx + chunk_size mx sz i = (i + 1) * mx" by (simp add: chunk_size_def Let_def)
  show l: "i = ?n - 1 \<Longrightarrow> i * mx + chunk_size mx sz i = sz" using b(2) by (simp add: chunk_size_def Let_def)
  show "0 < chunk_size mx sz i" "chunk_size mx sz i \<le> mx"
    using assms b n by (auto simp: chunk_size_def Let_def)
  show "i * mx + chunk_size mx sz i \<le> sz"
  proof (cases "i = ?n - 1")
    case False
    with assms(3) have i: "i < ?n - 1" by simp
    then have "(i + 1) * mx \<le> (?n - 1) * mx" by (intro mult_le_mono1) simp
    with a [OF i] b(2) show ?thesis by simp
  qed (use l in simp)
qed

lemma chunk_covers:
  assumes "0 < mx" and "j < sz"
  shows "j div mx < long_chunks mx sz" "j div mx * mx \<le> j" "j < j div mx * mx + chunk_size mx sz (j div mx)"
proof -
  let ?i = "j div mx"
  have sz: "0 < sz" using assms by simp
  note b = long_chunks_bounds [OF assms(1) sz]
  show lo: "?i * mx \<le> j" by simp
  have hi: "j < (?i + 1) * mx" using assms(1) by (metis Suc_eq_plus1 dividend_less_div_times mult_Suc add.commute)
  show i: "?i < long_chunks mx sz"
    using assms b(3) by (metis less_mult_imp_div_less order_less_le_trans)
  show "j < ?i * mx + chunk_size mx sz ?i"
    using chunk_in_range [OF assms(1) sz i] hi assms(2) i by (cases "?i = long_chunks mx sz - 1") auto
qed

lemma set_emit_chunks: "set (emit_chunks f n) = f ` {..< n}"
  by (induction n) (auto simp: lessThan_Suc)

lemma length_emit_chunks [simp]: "length (emit_chunks f n) = n"
  by (induction n) auto

text \<open>Delivery of a long request writes its data at the destination address of the receiver.\<close>

fun deliver :: "wire \<Rightarrow> memory \<Rightarrow> memory" where
  "deliver (AMLong mid bytes dest as) m = write_bytes m dest bytes"
| "deliver _ m = m"

definition writes_at :: "wire \<Rightarrow> addr \<Rightarrow> byte \<Rightarrow> bool" where
  "writes_at w x b \<longleftrightarrow> (\<exists>mid bytes dest as. w = AMLong mid bytes dest as \<and> dest \<le> x \<and> x < dest + length bytes \<and>
     bytes ! (x - dest) = b)"

lemma deliver_writes: "deliver w m x = (if \<exists>b. writes_at w x b then THE b. writes_at w x b else m x)"
  by (cases w) (auto simp: writes_at_def write_bytes_def)

lemma deliver_all:
  assumes "\<forall>w \<in> set ws. \<forall>b. writes_at w x b \<longrightarrow> b = v"
  shows "fold deliver ws m x = (if \<exists>w \<in> set ws. \<exists>b. writes_at w x b then v else m x)"
  using assms
proof (induction ws arbitrary: m)
  case (Cons w ws)
  have "deliver w m x = (if \<exists>b. writes_at w x b then v else m x)"
    using Cons.prems unfolding deliver_writes by (auto intro!: the_equality)
  with Cons show ?case by auto
qed simp

text \<open>The chunk requests of a long message.\<close>

definition chunk_wire :: "am_config \<Rightarrow> memory \<Rightarrow> nat \<Rightarrow> addr \<Rightarrow> nat \<Rightarrow> addr \<Rightarrow> 32 word list \<Rightarrow> nat \<Rightarrow> wire" where
  "chunk_wire cfg m mid p sz dest as i =
     AMLong mid (read_bytes m (p + i * max_long_req cfg) (chunk_size (max_long_req cfg) sz i))
       (dest + i * max_long_req cfg) as"

lemma chunk_wire_writes:
  assumes mx: "0 < max_long_req cfg" and i: "i < long_chunks (max_long_req cfg) sz" and sz: "0 < sz"
    and w: "writes_at (chunk_wire cfg m mid p sz dest as i) x b"
  shows "dest \<le> x" "x < dest + sz" "b = m (p + (x - dest))"
proof -
  from w have x: "dest + i * max_long_req cfg \<le> x"
    "x < dest + i * max_long_req cfg + chunk_size (max_long_req cfg) sz i"
    and b: "b = read_bytes m (p + i * max_long_req cfg) (chunk_size (max_long_req cfg) sz i) ! (x - (dest + i * max_long_req cfg))"
    by (auto simp: writes_at_def chunk_wire_def)
  show "dest \<le> x" using x by simp
  show "x < dest + sz" using x chunk_in_range(3) [OF mx sz i] by simp
  have "x - (dest + i * max_long_req cfg) < chunk_size (max_long_req cfg) sz i" using x by simp
  with b have "b = m (p + i * max_long_req cfg + (x - (dest + i * max_long_req cfg)))"
    by (simp add: nth_read_bytes)
  also have "p + i * max_long_req cfg + (x - (dest + i * max_long_req cfg)) = p + (x - dest)" using x by simp
  finally show "b = m (p + (x - dest))" .
qed

lemma deliver_chunks:
  assumes mx: "0 < max_long_req cfg" and sz: "0 < sz"
    and ws: "set ws = chunk_wire cfg m mid p sz dest as ` {..< long_chunks (max_long_req cfg) sz}"
  shows "read_bytes (fold deliver ws m') dest sz = read_bytes m p sz"
    "x \<notin> {dest ..< dest + sz} \<Longrightarrow> fold deliver ws m' x = m' x"
proof -
  have only: "\<forall>w \<in> set ws. \<forall>b. writes_at w x b \<longrightarrow> b = m (p + (x - dest)) \<and> dest \<le> x \<and> x < dest + sz" for x
    unfolding ws by (auto dest: chunk_wire_writes [OF mx _ sz])
  show "x \<notin> {dest ..< dest + sz} \<Longrightarrow> fold deliver ws m' x = m' x"
    using deliver_all [of ws x "m (p + (x - dest))" m'] only [of x] by auto
  show "read_bytes (fold deliver ws m') dest sz = read_bytes m p sz"
  proof (rule nth_equalityI)
    fix j assume "j < length (read_bytes (fold deliver ws m') dest sz)"
    then have j: "j < sz" by simp
    let ?i = "j div max_long_req cfg"
    note c = chunk_covers [OF mx j]
    have "writes_at (chunk_wire cfg m mid p sz dest as ?i) (dest + j) (m (p + j))"
    proof -
      have "j - ?i * max_long_req cfg < chunk_size (max_long_req cfg) sz ?i" using c(2,3) by linarith
      then have "read_bytes m (p + ?i * max_long_req cfg) (chunk_size (max_long_req cfg) sz ?i) !
          (dest + j - (dest + ?i * max_long_req cfg)) = m (p + ?i * max_long_req cfg + (j - ?i * max_long_req cfg))"
        by (simp add: nth_read_bytes)
      moreover have "p + ?i * max_long_req cfg + (j - ?i * max_long_req cfg) = p + j" using c(2) by linarith
      ultimately show ?thesis using c(2,3) by (auto simp: writes_at_def chunk_wire_def)
    qed
    moreover have "chunk_wire cfg m mid p sz dest as ?i \<in> set ws" using c(1) unfolding ws by blast
    ultimately have "\<exists>w \<in> set ws. \<exists>b. writes_at w (dest + j) b" by blast
    moreover have "\<forall>w \<in> set ws. \<forall>b. writes_at w (dest + j) b \<longrightarrow> b = m (p + j)"
      using only [of "dest + j"] by simp
    ultimately have "fold deliver ws m' (dest + j) = m (p + j)"
      using deliver_all [of ws "dest + j" "m (p + j)" m'] by presburger
    with j show "read_bytes (fold deliver ws m') dest sz ! j = read_bytes m p sz ! j"
      by (simp add: nth_read_bytes)
  qed simp
qed

section \<open>Properties\<close>

text \<open>
  C10. A long message arrives whole: the chunk requests of one \<^verbatim>\<open>send_long\<close>, delivered in any
  order, leave exactly the payload at the destination and change no other byte, and every chunk
  is within the limit of the network.
\<close>

theorem send_long_delivers:
  assumes "send_long cfg nd ep hdr dest = Inr (ep', ws)" and "0 < max_long_req cfg" and "0 < payload_size hdr"
    and "set ws' = set ws"
  shows "read_bytes (fold deliver ws' m) dest (payload_size hdr) = read_bytes (nd_mem nd) (payload hdr) (payload_size hdr) \<and>
    (\<forall>x. x \<notin> {dest ..< dest + payload_size hdr} \<longrightarrow> fold deliver ws' m x = m x) \<and>
    (\<forall>mid bytes d as. AMLong mid bytes d as \<in> set ws \<longrightarrow> bytes \<noteq> [] \<and> length bytes \<le> max_long_req cfg)"
proof -
  let ?n = "long_chunks (max_long_req cfg) (payload_size hdr)"
  from assms(1) obtain as where
    ws: "ws = emit_chunks (chunk_wire cfg (nd_mem nd) (msgid hdr) (payload hdr) (payload_size hdr) dest (take (num_args hdr) as)) ?n"
    by (auto simp: send_long_def Let_def chunk_wire_def [abs_def] split: if_splits)
  then have s: "set ws' = chunk_wire cfg (nd_mem nd) (msgid hdr) (payload hdr) (payload_size hdr) dest (take (num_args hdr) as) ` {..< ?n}"
    using assms(4) by (simp add: set_emit_chunks)
  have "\<forall>mid bytes d as. AMLong mid bytes d as \<in> set ws \<longrightarrow> bytes \<noteq> [] \<and> length bytes \<le> max_long_req cfg"
  proof (intro allI impI)
    fix mid bytes d as' assume "AMLong mid bytes d as' \<in> set ws"
    then obtain i where "i < ?n" "length bytes = chunk_size (max_long_req cfg) (payload_size hdr) i"
      by (auto simp: ws set_emit_chunks chunk_wire_def)
    with chunk_in_range(1,2) [OF assms(2,3), of i] show "bytes \<noteq> [] \<and> length bytes \<le> max_long_req cfg"
      by auto
  qed
  with deliver_chunks [OF assms(2,3) s] show ?thesis by blast
qed

text \<open>
  The source pointer survives the trip: split into two 32-bit handler arguments by the
  sender and put together by the release handler it is the same 64-bit pointer.
\<close>

theorem srcptr_roundtrip: "srcptr_of_args (srcptr_lo p) (srcptr_hi p) = p"
proof -
  have m: "(0x0FFFFFFFF :: 64 word) = mask 32" by (simp add: mask_eq_exp_minus_1)
  show ?thesis
    unfolding srcptr_of_args_def srcptr_lo_def srcptr_hi_def m take_bit_eq_mask [symmetric]
    by (intro bit_word_eqI) (auto simp: bit_simps)
qed

theorem send_long_delivers_witness:
  "let cfg = \<lparr>num_lmbs = 2, lmb_size = 1024, max_long_req = 64, max_medium = 64\<rparr>;
       hdr = demo_msg\<lparr>num_args := 6, payload := 1000, payload_mode := PAYLOAD_KEEP,
               args := [MESSAGE_ID_MAGIC, MESSAGE_CHUNKS_MAGIC, 0, 0, 5, 6] @ replicate 10 0\<rparr>;
       ep = ActiveMessageEndpoint_construct cfg (\<lambda>_. \<lparr>seg_addr = 0, seg_size = 0\<rparr>) 0 1;
       ws = snd (projr (send_long cfg demo_node ep hdr 5000))
   in length ws = 3 \<and>
      read_bytes (fold deliver (rev ws) (\<lambda>_. 0)) 5000 150 = read_bytes (nd_mem demo_node) 1000 150"
proof -
  let ?cfg = "\<lparr>num_lmbs = 2, lmb_size = 1024, max_long_req = 64, max_medium = 64\<rparr>"
  let ?hdr = "demo_msg\<lparr>num_args := 6, payload := 1000, payload_mode := PAYLOAD_KEEP,
               args := [MESSAGE_ID_MAGIC, MESSAGE_CHUNKS_MAGIC, 0, 0, 5, 6] @ replicate 10 0\<rparr>"
  let ?ep = "ActiveMessageEndpoint_construct ?cfg (\<lambda>_. \<lparr>seg_addr = 0, seg_size = 0\<rparr>) 0 1"
  obtain ep' ws where s: "send_long ?cfg demo_node ?ep ?hdr 5000 = Inr (ep', ws)" "length ws = 3"
    by (simp add: send_long_def set_long_args_def Let_def long_chunks_def demo_msg_def)
  from send_long_delivers [OF s(1), of "rev ws" "\<lambda>_. 0"] s show ?thesis
    by (simp add: demo_msg_def)
qed

text \<open>One round of the loop, and the whole loop, on the queues.\<close>

lemma push_messages_queues:
  assumes "push_messages cfg tr mx it c nd ep sm out = Inr (nd', ep', out', mo)"
    and "\<not> sm \<longrightarrow> queues_empty ep" and "mx \<noteq> 0 \<longrightarrow> c \<le> mx"
  shows "(\<exists>ls ss. out_long_hdrs ep = ls @ out_long_hdrs ep' \<and> out_short_hdrs ep = ss @ out_short_hdrs ep' \<and>
            (mx \<noteq> 0 \<longrightarrow> c + length ls + length ss \<le> mx) \<and> (ls \<noteq> [] \<longrightarrow> out_short_hdrs ep' = [])) \<and>
         (\<not> mo \<longrightarrow> queues_empty ep')"
  using assms
proof (induction cfg tr mx it c nd ep sm out rule: push_messages.induct)
  case (1 cfg tr mx it c nd ep sm out)
  show ?case
  proof (cases "sm \<and> (mx = 0 \<or> c < mx) \<and> tr it")
    case False
    with "1.prems" have "nd' = nd" "ep' = ep" "mo = sm"
      by (subst (asm) push_messages.simps; auto split: if_splits)+
    with "1.prems"(2,3) show ?thesis by auto
  next
    case True
    then have go: "\<not> \<not> (sm \<and> (mx = 0 \<or> c < mx))" "\<not> \<not> tr it" by auto
    have r: "push_messages cfg tr mx it c nd ep sm out = (case push_one cfg nd ep of
          Inl e \<Rightarrow> Inl e
        | Inr (Sent ep' nd' w) \<Rightarrow> push_messages cfg tr mx (Suc it) (c + 1) nd' ep' (\<not> queues_empty ep') (out @ w)
        | Inr (Flipped ep' w) \<Rightarrow> push_messages cfg tr mx (Suc it) c nd ep' sm (out @ w)
        | Inr _ \<Rightarrow> Inr (nd, ep, out, sm))"
      using True by (subst push_messages.simps) simp
    show ?thesis
    proof (cases "push_one cfg nd ep")
      case (Inl e)
      with r "1.prems"(1) show ?thesis by simp
    next
      case (Inr res)
      show ?thesis
      proof (cases res)
        case (Sent ep1 nd1 w)
        have p: "push_one cfg nd ep = Inr (Sent ep1 nd1 w)" using Inr Sent by simp
        have "push_messages cfg tr mx (Suc it) (c + 1) nd1 ep1 (\<not> queues_empty ep1) (out @ w) = Inr (nd', ep', out', mo)"
          using r "1.prems"(1) Inr Sent by simp
        from "1.IH"(1) [OF go Inr Sent this] True
        have "(\<exists>ls ss. out_long_hdrs ep1 = ls @ out_long_hdrs ep' \<and> out_short_hdrs ep1 = ss @ out_short_hdrs ep' \<and>
            (mx \<noteq> 0 \<longrightarrow> c + 1 + length ls + length ss \<le> mx) \<and> (ls \<noteq> [] \<longrightarrow> out_short_hdrs ep' = [])) \<and>
          (\<not> mo \<longrightarrow> queues_empty ep')" by fastforce
        then obtain ls ss where q:
          "out_long_hdrs ep1 = ls @ out_long_hdrs ep'" "out_short_hdrs ep1 = ss @ out_short_hdrs ep'"
          "mx \<noteq> 0 \<longrightarrow> c + 1 + length ls + length ss \<le> mx" "ls \<noteq> [] \<longrightarrow> out_short_hdrs ep' = []"
          "\<not> mo \<longrightarrow> queues_empty ep'" by blast
        from push_one_Sent_queues [OF p] show ?thesis
        proof (elim disjE exE conjE)
          fix h assume "out_short_hdrs ep = h # out_short_hdrs ep1" "out_long_hdrs ep1 = out_long_hdrs ep"
          with q show ?thesis by (intro conjI exI [of _ ls] exI [of _ "h # ss"]) auto
        next
          fix h assume "out_short_hdrs ep = []" "out_short_hdrs ep1 = []" "out_long_hdrs ep = h # out_long_hdrs ep1"
          with q show ?thesis by (intro conjI exI [of _ "h # ls"] exI [of _ ss]) auto
        qed
      next
        case (Flipped ep1 w)
        have p: "push_one cfg nd ep = Inr (Flipped ep1 w)" using Inr Flipped by simp
        have f: "out_short_hdrs ep1 = out_short_hdrs ep" "out_long_hdrs ep1 = out_long_hdrs ep"
          using push_one_Flipped(1) [OF p] by simp_all
        have "push_messages cfg tr mx (Suc it) c nd ep1 sm (out @ w) = Inr (nd', ep', out', mo)"
          using r "1.prems"(1) Inr Flipped by simp
        from "1.IH"(2) [OF go Inr Flipped this] "1.prems"(2,3) f show ?thesis by simp
      qed (use r "1.prems" Inr True in auto)
    qed
  qed
qed

section \<open>Buffer space\<close>

lemma align_128_props: "off \<le> align_128 off" "128 dvd align_128 off" "align_128 off < off + 128"
proof -
  define q r where "q = off div 128" and "r = off mod 128"
  have off: "off = 128 * q + r" "r < 128" by (simp_all add: q_def r_def)
  have a: "align_128 off = (if r \<noteq> 0 then (q + 1) * 128 else off)" by (simp add: align_128_def q_def r_def)
  show "off \<le> align_128 off" "128 dvd align_128 off" "align_128 off < off + 128"
    unfolding a using off by auto
qed

text \<open>Placing several messages in the current buffer: the ranges they get.\<close>

fun place_all :: "ActiveMessageEndpoint \<Rightarrow> nat list \<Rightarrow> ActiveMessageEndpoint \<times> (addr \<times> nat) list" where
  "place_all ep [] = (ep, [])"
| "place_all ep (n # ns) =
     (let (ep1, d) = lmb_place ep n; (ep2, rs) = place_all ep1 ns in (ep2, (d, n) # rs))"

text \<open>Each message fits when it is placed, as \<^verbatim>\<open>push_messages\<close> checks.\<close>

fun place_fits :: "am_config \<Rightarrow> ActiveMessageEndpoint \<Rightarrow> nat list \<Rightarrow> bool" where
  "place_fits cfg ep [] = True"
| "place_fits cfg ep (n # ns) =
     (cur_write_offset ep + n \<le> lmb_size cfg \<and> place_fits cfg (fst (lmb_place ep n)) ns)"

lemma place_all_ranges:
  assumes "place_all ep ns = (ep', rs)" and "place_fits cfg ep ns"
  shows "(\<forall>(d, n) \<in> set rs. lmb_w_bases ep ! cur_write_lmb ep + cur_write_offset ep \<le> d \<and>
            d + n \<le> lmb_w_bases ep ! cur_write_lmb ep + lmb_size cfg) \<and>
         sorted_wrt (\<lambda>x y. fst x + snd x \<le> fst y) rs \<and> map snd rs = ns"
  using assms
proof (induction ep ns arbitrary: rs rule: place_all.induct)
  case (2 ep n ns)
  let ?ep1 = "fst (lmb_place ep n)"
  obtain rs1 where r: "place_all ?ep1 ns = (ep', rs1)"
    "rs = (lmb_w_bases ep ! cur_write_lmb ep + cur_write_offset ep, n) # rs1"
    using "2.prems"(1) by (auto simp: lmb_place_def split: prod.splits)
  have f: "cur_write_offset ep + n \<le> lmb_size cfg" "place_fits cfg ?ep1 ns" using "2.prems"(2) by simp_all
  have e: "lmb_w_bases ?ep1 = lmb_w_bases ep" "cur_write_lmb ?ep1 = cur_write_lmb ep"
    "cur_write_offset ep + n \<le> cur_write_offset ?ep1"
    using align_128_props(1) by (simp_all add: lmb_place_def)
  have IH: "(\<forall>(d, n) \<in> set rs1. lmb_w_bases ep ! cur_write_lmb ep + cur_write_offset ?ep1 \<le> d \<and>
            d + n \<le> lmb_w_bases ep ! cur_write_lmb ep + lmb_size cfg) \<and>
         sorted_wrt (\<lambda>x y. fst x + snd x \<le> fst y) rs1 \<and> map snd rs1 = ns"
    using "2.IH" [OF refl prod.collapse, of rs1] r(1) f(2) e by simp
  then show ?case using f(1) e(3) unfolding r(2) by fastforce
qed auto

text \<open>
  Messages sent between two flips never share bytes of the buffer: each lies inside the
  buffer and ends before the next begins.
\<close>

theorem lmb_messages_disjoint:
  assumes "place_all ep ns = (ep', rs)" and "place_fits cfg ep ns"
  shows "(\<forall>(d, n) \<in> set rs. {d ..< d + n} \<subseteq> {lmb_w_bases ep ! cur_write_lmb ep ..<
              lmb_w_bases ep ! cur_write_lmb ep + lmb_size cfg}) \<and>
     sorted_wrt (\<lambda>x y. fst x + snd x \<le> fst y) rs \<and> map snd rs = ns"
  using place_all_ranges [OF assms] by (fastforce simp: subset_eq)

theorem lmb_messages_disjoint_witness:
  "let cfg = \<lparr>num_lmbs = 2, lmb_size = 1024, max_long_req = 64, max_medium = 64\<rparr>;
       ep = ActiveMessageEndpoint_construct cfg (\<lambda>_. \<lparr>seg_addr = 4096, seg_size = 8192\<rparr>) 0 1
   in sorted_wrt (\<lambda>x y. fst x + snd x \<le> fst y) (snd (place_all ep [100, 300, 512]))"
proof -
  let ?cfg = "\<lparr>num_lmbs = 2, lmb_size = 1024, max_long_req = 64, max_medium = 64\<rparr>"
  let ?ep = "ActiveMessageEndpoint_construct ?cfg (\<lambda>_. \<lparr>seg_addr = 4096, seg_size = 8192\<rparr>) 0 1"
  have "place_fits ?cfg ?ep [100, 300, 512]"
    by (simp add: ActiveMessageEndpoint_construct_def lmb_place_def align_128_def)
  from lmb_messages_disjoint [OF surjective_pairing this] show ?thesis by (simp add: Let_def)
qed

text \<open>
  \<^verbatim>\<open>push_messages\<close> sends from the front of each queue, at most the given number of messages
  in all, turns to the long queue only when the short one is empty, and reports that nothing is left
  only when both queues are empty.
\<close>

theorem push_messages_order:
  assumes "push_messages cfg tr mx 0 0 nd ep True [] = Inr (nd', ep', out, mo)"
  shows "(\<exists>ls ss. out_long_hdrs ep = ls @ out_long_hdrs ep' \<and> out_short_hdrs ep = ss @ out_short_hdrs ep' \<and>
            (mx \<noteq> 0 \<longrightarrow> length ls + length ss \<le> mx) \<and> (ls \<noteq> [] \<longrightarrow> out_short_hdrs ep' = [])) \<and>
         (\<not> mo \<longrightarrow> queues_empty ep')"
  using push_messages_queues [OF assms] by simp

theorem push_messages_order_witness:
  "\<exists>nd' ep' out. push_messages \<lparr>num_lmbs = 2, lmb_size = 1024, max_long_req = 64, max_medium = 64\<rparr> (\<lambda>_. True) 8 0 0
      (demo_node\<lparr>nd_msgs := (\<lambda>_. \<lparr>msgid = 9, num_args = 2, args = replicate 16 1, payload = 0, payload_size = 0,
         payload_mode = PAYLOAD_NONE, dstptr = 0, payload_src = None\<rparr>)\<rparr>)
      ((ActiveMessageEndpoint_construct \<lparr>num_lmbs = 2, lmb_size = 1024, max_long_req = 64, max_medium = 64\<rparr>
         (\<lambda>_. \<lparr>seg_addr = 4096, seg_size = 8192\<rparr>) 0 1)\<lparr>out_long_hdrs := [7]\<rparr>) True [] = Inr (nd', ep', out, False) \<and>
      queues_empty ep'"
proof -
  let ?cfg = "\<lparr>num_lmbs = 2, lmb_size = 1024, max_long_req = 64, max_medium = 64\<rparr>"
  let ?nd = "demo_node\<lparr>nd_msgs := (\<lambda>_. \<lparr>msgid = 9, num_args = 2, args = replicate 16 1, payload = 0, payload_size = 0,
         payload_mode = PAYLOAD_NONE, dstptr = 0, payload_src = None\<rparr>)\<rparr>"
  let ?ep = "(ActiveMessageEndpoint_construct ?cfg (\<lambda>_. \<lparr>seg_addr = 4096, seg_size = 8192\<rparr>) 0 1)\<lparr>out_long_hdrs := [7]\<rparr>"
  obtain nd1 w where p: "push_one ?cfg ?nd ?ep = Inr (Sent (?ep\<lparr>out_long_hdrs := []\<rparr>) nd1 w)"
    by (simp add: push_one_def push_short_def send_short_def short_arities_def destroy_message_def
        ActiveMessageEndpoint_construct_def Let_def)
  have q: "queues_empty (?ep\<lparr>out_long_hdrs := []\<rparr>)" by (simp add: ActiveMessageEndpoint_construct_def)
  have "push_messages ?cfg (\<lambda>_. True) 8 1 1 nd1 (?ep\<lparr>out_long_hdrs := []\<rparr>) False ([] @ w) =
      Inr (nd1, ?ep\<lparr>out_long_hdrs := []\<rparr>, w, False)"
    by (subst push_messages.simps) simp
  then have "\<exists>nd' ep' out. push_messages ?cfg (\<lambda>_. True) 8 0 0 ?nd ?ep True [] = Inr (nd', ep', out, False)"
    using q by (subst push_messages.simps) (unfold p, simp)
  then obtain nd' ep' out where r: "push_messages ?cfg (\<lambda>_. True) 8 0 0 ?nd ?ep True [] = Inr (nd', ep', out, False)"
    by blast
  from push_messages_order [OF r] r show ?thesis by blast
qed

end
