(* ===== verification/Endpoint_Manager.thy ===== *)
theory Endpoint_Manager
  imports Endpoint Todo_Ring
begin

text \<open>
  \<^verbatim>\<open>EndpointManager\<close> of \<^verbatim>\<open>src/templates/activemsg.cc\<close>: one endpoint per peer and a todo ring of
  the endpoints with queued messages, and the three entry points \<^verbatim>\<open>enqueue_message\<close>.  The second
  half interleaves the threads that enqueue, the polling threads and the handlers: the entry of an
  endpoint in the ring is a token that exactly one of the ring, a polling thread or a thread about to
  add it holds.
\<close>

section \<open>Operations\<close>

record EndpointManager =
  em_total :: nat
  em_endpoints :: "nat \<Rightarrow> ActiveMessageEndpoint option"
  em_todo :: todo_ring
  em_shutdown :: bool

text \<open>There is no endpoint for the node itself (a null pointer).\<close>

definition EndpointManager_construct ::
  "am_config \<Rightarrow> (node_id \<Rightarrow> segment) \<Rightarrow> node_id \<Rightarrow> nat \<Rightarrow> EndpointManager" where
  "EndpointManager_construct cfg segment_info mynode num_endpoints =
     \<lparr>em_total = num_endpoints,
      em_endpoints = (\<lambda>i. if i < num_endpoints \<and> i \<noteq> mynode
                          then Some (ActiveMessageEndpoint_construct cfg segment_info mynode i) else None),
      em_todo = ring_new num_endpoints, em_shutdown = False\<rparr>"

text \<open>Following the pointer \<^verbatim>\<open>endpoints[i]\<close>.\<close>

definition endpoint_at :: "EndpointManager \<Rightarrow> nat \<Rightarrow> ActiveMessageEndpoint outcome" where
  "endpoint_at em i = (case em_endpoints em i of None \<Rightarrow> Inl Undefined_Behaviour | Some ep \<Rightarrow> Inr ep)"

definition add_todo_entry :: "EndpointManager \<Rightarrow> nat \<Rightarrow> EndpointManager outcome" where
  "add_todo_entry em target =
     obind (ring_push (em_total em) (em_todo em) target) (\<lambda>r. Inr (em\<lparr>em_todo := r\<rparr>))"

definition add_if_empty :: "EndpointManager \<Rightarrow> nat \<Rightarrow> bool \<Rightarrow> EndpointManager outcome" where
  "add_if_empty em target was_empty = (if was_empty then add_todo_entry em target else Inr em)"

definition put_endpoint :: "EndpointManager \<Rightarrow> nat \<Rightarrow> ActiveMessageEndpoint \<Rightarrow> EndpointManager" where
  "put_endpoint em i ep = em\<lparr>em_endpoints := (em_endpoints em)(i := Some ep)\<rparr>"

definition em_enqueue_message ::
  "am_config \<Rightarrow> addr \<Rightarrow> am_node \<Rightarrow> EndpointManager \<Rightarrow> nat \<Rightarrow> msgptr \<Rightarrow> bool \<Rightarrow> (am_node \<times> EndpointManager) outcome" where
  "em_enqueue_message cfg mallocp nd em target hdr in_order =
     obind (endpoint_at em target) (\<lambda>ep.
     obind (ep_enqueue_message cfg mallocp nd ep hdr in_order) (\<lambda>(nd', ep', was_empty).
     obind (add_if_empty (put_endpoint em target ep') target was_empty) (\<lambda>em'. Inr (nd', em'))))"

definition em_handle_flip_request ::
  "am_node \<Rightarrow> EndpointManager \<Rightarrow> nat \<Rightarrow> msgptr \<Rightarrow> nat \<Rightarrow> nat \<Rightarrow> (am_node \<times> EndpointManager) outcome" where
  "em_handle_flip_request nd em src newp flip_buffer flip_count =
     obind (endpoint_at em src) (\<lambda>ep.
     obind (ep_handle_flip_request nd ep newp flip_buffer flip_count) (\<lambda>(nd', ep', was_empty).
     obind (add_if_empty (put_endpoint em src ep') src was_empty) (\<lambda>em'. Inr (nd', em'))))"

definition em_handle_flip_ack :: "EndpointManager \<Rightarrow> nat \<Rightarrow> nat \<Rightarrow> EndpointManager outcome" where
  "em_handle_flip_ack em src ack_buffer =
     obind (endpoint_at em src) (\<lambda>ep.
     obind (ep_handle_flip_ack ep ack_buffer) (\<lambda>ep'. Inr (put_endpoint em src ep')))"

definition em_handle_long_msgptr ::
  "am_config \<Rightarrow> am_node \<Rightarrow> EndpointManager \<Rightarrow> nat \<Rightarrow> msgptr \<Rightarrow> addr \<Rightarrow> (am_node \<times> EndpointManager) outcome" where
  "em_handle_long_msgptr cfg nd em source newp ptr =
     obind (endpoint_at em source) (\<lambda>ep.
     obind (ep_handle_long_msgptr cfg nd ep newp ptr) (\<lambda>(nd', ep', was_empty).
     obind (add_if_empty (put_endpoint em source ep') source was_empty) (\<lambda>em'. Inr (nd', em'))))"

text \<open>
  The polling loop, run by one thread: take the next endpoint of the ring, push its messages, put
  it back when it still has some.  It goes on as long as the ring is not empty, and an endpoint that
  waits for its peer stays in it, so the loop takes fuel; \<open>lock\<close> and \<open>trylock\<close> say which of
  the locks were free.  \<open>None\<close>: out of fuel.
\<close>

fun em_push_messages ::
  "nat \<Rightarrow> am_config \<Rightarrow> (nat \<Rightarrow> bool) \<Rightarrow> (nat \<Rightarrow> nat \<Rightarrow> bool) \<Rightarrow> nat \<Rightarrow> am_node \<Rightarrow> EndpointManager \<Rightarrow> wire list \<Rightarrow>
     (am_node \<times> EndpointManager \<times> wire list \<times> bool) outcome option" where
  "em_push_messages 0 cfg lock trylock max_to_send nd em out = None"
| "em_push_messages (Suc fuel) cfg lock trylock max_to_send nd em out =
     (if \<not> lock fuel then Some (Inr (nd, em, out, True))
      else if ring_empty (em_todo em) then Some (Inr (nd, em, out, False))
      else
        let (target, r) = ring_pop (em_total em) (em_todo em); em1 = em\<lparr>em_todo := r\<rparr>
        in case obind (endpoint_at em1 target)
                  (\<lambda>ep. push_messages cfg (trylock fuel) max_to_send 0 0 nd ep True []) of
             Inl e \<Rightarrow> Some (Inl e)
           | Inr (nd', ep', w, still_more) \<Rightarrow>
               (case add_if_empty (put_endpoint em1 target ep') target still_more of
                  Inl e \<Rightarrow> Some (Inl e)
                | Inr em2 \<Rightarrow> em_push_messages fuel cfg lock trylock max_to_send nd' em2 (out @ w)))"

text \<open>
  \<open>polling_worker_loop\<close>: rounds of \<open>em_push_messages\<close> until shutdown has been asked for and a
  round reports that nothing is left.
\<close>

fun polling_worker_loop ::
  "nat \<Rightarrow> nat \<Rightarrow> am_config \<Rightarrow> (nat \<Rightarrow> nat \<Rightarrow> bool) \<Rightarrow> (nat \<Rightarrow> nat \<Rightarrow> nat \<Rightarrow> bool) \<Rightarrow> nat \<Rightarrow> (nat \<Rightarrow> bool) \<Rightarrow> am_node \<Rightarrow>
     EndpointManager \<Rightarrow> wire list \<Rightarrow> (am_node \<times> EndpointManager \<times> wire list) outcome option" where
  "polling_worker_loop 0 fuel cfg lock trylock max_msgs_to_send shutdown_flag nd em out = None"
| "polling_worker_loop (Suc rounds) fuel cfg lock trylock max_msgs_to_send shutdown_flag nd em out =
     (case em_push_messages fuel cfg (lock rounds) (trylock rounds) max_msgs_to_send nd em out of
        None \<Rightarrow> None
      | Some (Inl e) \<Rightarrow> Some (Inl e)
      | Some (Inr (nd', em', out', still_more)) \<Rightarrow>
          if shutdown_flag rounds \<and> \<not> still_more then Some (Inr (nd', em', out'))
          else polling_worker_loop rounds fuel cfg lock trylock max_msgs_to_send shutdown_flag nd' em' out')"

section \<open>Entry points\<close>

definition is_registered :: "segment \<Rightarrow> addr \<Rightarrow> bool" where
  "is_registered seg ptr \<longleftrightarrow>
     (let offset = int ptr - int (seg_addr seg) in offset \<ge> 0 \<and> nat offset < seg_size seg)"

text \<open>The argument words of a message of \<open>arg_size\<close> bytes.\<close>

definition arg_words :: "nat \<Rightarrow> nat" where
  "arg_words arg_size = (arg_size + 4 - 1) div 4"

text \<open>
  The common part of the three overloads: check the target, build the message with the words of its
  arguments (\<open>as\<close>: the words from the argument pointer on), attach the payload, store the message
  at the address \<open>hdrp\<close> that \<^verbatim>\<open>new\<close> gave, and queue it in order.
\<close>

definition make_message ::
  "nat \<Rightarrow> nat \<Rightarrow> 32 word list \<Rightarrow> nat \<Rightarrow> PayloadSource \<Rightarrow> nat \<Rightarrow> payload_mode \<Rightarrow> addr \<Rightarrow> OutgoingMessage outcome" where
  "make_message lmbsz mid as arg_size src psize pmode dst =
     (if length as < arg_words arg_size then Inl Undefined_Behaviour
      else
        obind (OutgoingMessage_construct mid (take (arg_words arg_size) as)) (\<lambda>hdr.
          if pmode \<noteq> PAYLOAD_NONE then
            if psize > 0 then set_payload lmbsz hdr src psize pmode dst else Inr (set_payload_empty hdr)
          else Inr hdr))"

definition enqueue_made ::
  "am_config \<Rightarrow> node_id \<Rightarrow> addr \<Rightarrow> msgptr \<Rightarrow> am_node \<Rightarrow> EndpointManager \<Rightarrow> node_id \<Rightarrow> OutgoingMessage outcome \<Rightarrow>
     (am_node \<times> EndpointManager) outcome" where
  "enqueue_made cfg mynode mallocp hdrp nd em target made =
     obind (cassert (target \<noteq> mynode)) (\<lambda>_.
     obind made (\<lambda>hdr.
       em_enqueue_message cfg mallocp (nd\<lparr>nd_msgs := (nd_msgs nd)(hdrp := hdr)\<rparr>) em target hdrp True))"

definition enqueue_message_contiguous ::
  "am_config \<Rightarrow> segment \<Rightarrow> node_id \<Rightarrow> addr \<Rightarrow> msgptr \<Rightarrow> am_node \<Rightarrow> EndpointManager \<Rightarrow> node_id \<Rightarrow> nat \<Rightarrow>
     32 word list \<Rightarrow> nat \<Rightarrow> addr \<Rightarrow> nat \<Rightarrow> payload_mode \<Rightarrow> addr \<Rightarrow> (am_node \<times> EndpointManager) outcome" where
  "enqueue_message_contiguous cfg seg mynode mallocp hdrp nd em target mid as arg_size pay psize pmode dst =
     (let mode = (if pmode = PAYLOAD_KEEP \<and> is_registered seg pay then PAYLOAD_KEEPREG else pmode)
      in enqueue_made cfg mynode mallocp hdrp nd em target
           (make_message (lmb_size cfg) mid as arg_size (ContiguousPayload pay psize mode) psize mode dst))"

definition enqueue_message_strided ::
  "am_config \<Rightarrow> node_id \<Rightarrow> addr \<Rightarrow> msgptr \<Rightarrow> am_node \<Rightarrow> EndpointManager \<Rightarrow> node_id \<Rightarrow> nat \<Rightarrow>
     32 word list \<Rightarrow> nat \<Rightarrow> addr \<Rightarrow> nat \<Rightarrow> int \<Rightarrow> nat \<Rightarrow> payload_mode \<Rightarrow> addr \<Rightarrow> (am_node \<times> EndpointManager) outcome" where
  "enqueue_message_strided cfg mynode mallocp hdrp nd em target mid as arg_size pay line_size line_stride line_count pmode dst =
     enqueue_made cfg mynode mallocp hdrp nd em target
       (make_message (lmb_size cfg) mid as arg_size (TwoDPayload pay line_size line_count line_stride pmode)
         (line_size * line_count) pmode dst)"

definition enqueue_message_spans ::
  "am_config \<Rightarrow> node_id \<Rightarrow> addr \<Rightarrow> msgptr \<Rightarrow> am_node \<Rightarrow> EndpointManager \<Rightarrow> node_id \<Rightarrow> nat \<Rightarrow>
     32 word list \<Rightarrow> nat \<Rightarrow> (addr \<times> nat) list \<Rightarrow> nat \<Rightarrow> payload_mode \<Rightarrow> addr \<Rightarrow> (am_node \<times> EndpointManager) outcome" where
  "enqueue_message_spans cfg mynode mallocp hdrp nd em target mid as arg_size spans psize pmode dst =
     enqueue_made cfg mynode mallocp hdrp nd em target
       (make_message (lmb_size cfg) mid as arg_size (SpanPayload spans psize pmode) psize pmode dst)"

definition handle_long_msgptr ::
  "am_config \<Rightarrow> node_id \<Rightarrow> am_node \<Rightarrow> EndpointManager \<Rightarrow> node_id \<Rightarrow> msgptr \<Rightarrow> addr \<Rightarrow> (am_node \<times> EndpointManager) outcome" where
  "handle_long_msgptr cfg mynode nd em source newp ptr =
     obind (cassert (source \<noteq> mynode)) (\<lambda>_. em_handle_long_msgptr cfg nd em source newp ptr)"

section \<open>Threads\<close>

text \<open>
  \<open>es_adders\<close> are threads between an operation on an endpoint and the call of
  \<^verbatim>\<open>add_todo_entry\<close> for it; \<open>es_workers\<close> polling threads that have popped an endpoint.
\<close>

record em_state =
  es_node :: am_node
  es_eps :: "nat \<Rightarrow> ActiveMessageEndpoint"
  es_todo :: todo_ring
  es_adders :: "nat list"
  es_workers :: "nat list"

definition after_op :: "em_state \<Rightarrow> nat \<Rightarrow> am_node \<Rightarrow> ActiveMessageEndpoint \<Rightarrow> bool \<Rightarrow> em_state" where
  "after_op s e nd ep was_empty =
     s\<lparr>es_node := nd, es_eps := (es_eps s)(e := ep),
       es_adders := (if was_empty then e # es_adders s else es_adders s)\<rparr>"

inductive em_step :: "am_config \<Rightarrow> nat \<Rightarrow> em_state \<Rightarrow> em_state \<Rightarrow> bool" for cfg n where
  em_enqueue:
    "e < n \<Longrightarrow> ep_enqueue_message cfg mp (es_node s) (es_eps s e) hdr ord = Inr (nd', ep', was_empty)
     \<Longrightarrow> em_step cfg n s (after_op s e nd' ep' was_empty)"
| em_long:
    "e < n \<Longrightarrow> ep_handle_long_msgptr cfg (es_node s) (es_eps s e) newp ptr = Inr (nd', ep', was_empty)
     \<Longrightarrow> em_step cfg n s (after_op s e nd' ep' was_empty)"
| em_flip:
    "e < n \<Longrightarrow> ep_handle_flip_request (es_node s) (es_eps s e) newp b c = Inr (nd', ep', was_empty)
     \<Longrightarrow> em_step cfg n s (after_op s e nd' ep' was_empty)"
| em_ack:
    "e < n \<Longrightarrow> ep_handle_flip_ack (es_eps s e) b = Inr ep'
     \<Longrightarrow> em_step cfg n s (s\<lparr>es_eps := (es_eps s)(e := ep')\<rparr>)"
| em_add:
    "es_adders s = xs @ e # ys \<Longrightarrow> ring_push n (es_todo s) e = Inr r
     \<Longrightarrow> em_step cfg n s (s\<lparr>es_todo := r, es_adders := xs @ ys\<rparr>)"
| em_pop:
    "\<not> ring_empty (es_todo s) \<Longrightarrow> ring_pop n (es_todo s) = (e, r)
     \<Longrightarrow> em_step cfg n s (s\<lparr>es_todo := r, es_workers := e # es_workers s\<rparr>)"
| em_sent:
    "es_workers s = xs @ e # ys \<Longrightarrow> push_one cfg (es_node s) (es_eps s e) = Inr (Sent ep' nd' w)
     \<Longrightarrow> em_step cfg n s (s\<lparr>es_node := nd', es_eps := (es_eps s)(e := ep'),
           es_workers := (if queues_empty ep' then xs @ ys else es_workers s)\<rparr>)"
| em_flipped:
    "es_workers s = xs @ e # ys \<Longrightarrow> push_one cfg (es_node s) (es_eps s e) = Inr (Flipped ep' w)
     \<Longrightarrow> em_step cfg n s (s\<lparr>es_eps := (es_eps s)(e := ep')\<rparr>)"
| em_give_up:
    "es_workers s = xs @ e # ys
     \<Longrightarrow> em_step cfg n s (s\<lparr>es_workers := xs @ ys, es_adders := e # es_adders s\<rparr>)"

definition em_init :: "nat \<Rightarrow> em_state \<Rightarrow> bool" where
  "em_init n s \<longleftrightarrow> es_todo s = ring_new n \<and> es_adders s = [] \<and> es_workers s = [] \<and> (\<forall>e. queues_empty (es_eps s e))"

definition tokens :: "nat \<Rightarrow> em_state \<Rightarrow> nat \<Rightarrow> nat" where
  "tokens n s e = count_list (ring_abs n (es_todo s)) e + count_list (es_adders s) e + count_list (es_workers s) e"

definition em_inv :: "nat \<Rightarrow> em_state \<Rightarrow> bool" where
  "em_inv n s \<longleftrightarrow> ring_ok n (es_todo s) \<and>
     (\<forall>e. tokens n s e = (if queues_empty (es_eps s e) then 0 else 1)) \<and>
     (\<forall>e \<ge> n. queues_empty (es_eps s e))"

section \<open>The token invariant\<close>

lemma enqueue_flag:
  assumes "ep_enqueue_message cfg mp nd ep hdr ord = Inr (nd', ep', b)"
  shows "b = queues_empty ep" "\<not> queues_empty ep'"
  using assms by (auto simp: ep_enqueue_message_def Let_def split: if_splits)

lemma long_flag:
  assumes "ep_handle_long_msgptr cfg nd ep newp ptr = Inr (nd', ep', b)"
  shows "if b then queues_empty ep \<and> \<not> queues_empty ep' else queues_empty ep' = queues_empty ep"
  using assms
  by (auto simp: ep_handle_long_msgptr_def queue_flip_ack_def Let_def split: option.splits if_splits)

lemma flip_flag:
  assumes "ep_handle_flip_request nd ep newp k c = Inr (nd', ep', b)"
  shows "if b then queues_empty ep \<and> \<not> queues_empty ep' else queues_empty ep' = queues_empty ep"
  using assms
  by (auto simp: ep_handle_flip_request_def queue_flip_ack_def Let_def split: if_splits)

lemma after_op_inv:
  assumes inv: "em_inv n s" and e: "e < n"
    and b: "if b then queues_empty (es_eps s e) \<and> \<not> queues_empty ep' else queues_empty ep' = queues_empty (es_eps s e)"
  shows "em_inv n (after_op s e nd' ep' b)"
  using assms by (auto simp: em_inv_def after_op_def tokens_def split: if_splits)

lemma count_mid: "count_list (xs @ e # ys) k = count_list (xs @ ys) k + (if e = k then 1 else 0)"
  by simp

lemma distinct_count: "(\<And>k. count_list xs k \<le> 1) \<Longrightarrow> distinct xs"
proof (induction xs)
  case (Cons x xs)
  have "count_list xs k \<le> 1" for k using Cons.prems [of k] by (simp split: if_splits)
  moreover have "count_list xs x = 0" using Cons.prems [of x] by simp
  ultimately show ?case using Cons.IH by (simp add: count_list_0_iff)
qed simp

lemma em_inv_init: "em_init n s \<Longrightarrow> em_inv n s"
  by (simp add: em_init_def em_inv_def tokens_def ring_new_ok)

lemma em_push_ok:
  assumes inv: "em_inv n s" and x: "es_adders s = xs @ e # ys"
  obtains r where "ring_push n (es_todo s) e = Inr r" "ring_ok n r" "ring_abs n r = ring_abs n (es_todo s) @ [e]"
proof -
  have tok: "tokens n s k \<le> 1" for k using inv by (simp add: em_inv_def)
  have pos: "tokens n s k = 0" if "n \<le> k" for k using inv that by (simp add: em_inv_def)
  have "count_list (ring_abs n (es_todo s)) k \<le> 1" for k using tok [of k] by (simp add: tokens_def)
  then have "distinct (ring_abs n (es_todo s))" by (rule distinct_count)
  moreover have "set (ring_abs n (es_todo s)) \<subseteq> {..< n}"
    using pos by (fastforce simp: tokens_def count_list_0_iff not_less [symmetric])
  moreover have "e < n" using pos [of e] x by (fastforce simp: tokens_def not_less [symmetric])
  moreover have "e \<notin> set (ring_abs n (es_todo s))"
    using tok [of e] x by (simp add: tokens_def count_list_0_iff [symmetric])
  ultimately show ?thesis
    using ring.push_distinct [of n "es_todo s" e] inv that by (metis em_inv_def)
qed

lemma em_inv_step:
  assumes inv: "em_inv n s" and st: "em_step cfg n s t"
  shows "em_inv n t"
  using st
proof cases
  case (em_enqueue e mp hdr ord nd' ep' b)
  show ?thesis
    unfolding em_enqueue(1) using enqueue_flag [OF em_enqueue(3)] by (intro after_op_inv [OF inv em_enqueue(2)]) auto
next
  case (em_long e newp ptr nd' ep' b)
  show ?thesis unfolding em_long(1) by (rule after_op_inv [OF inv em_long(2) long_flag [OF em_long(3)]])
next
  case (em_flip e newp k c nd' ep' b)
  show ?thesis unfolding em_flip(1) by (rule after_op_inv [OF inv em_flip(2) flip_flag [OF em_flip(3)]])
next
  case (em_ack e b ep')
  then have "queues_empty ep' = queues_empty (es_eps s e)" by (auto simp: ep_handle_flip_ack_def split: if_splits)
  with inv em_ack show ?thesis by (auto simp: em_inv_def tokens_def)
next
  case (em_add xs e ys r)
  from em_push_ok [OF inv em_add(2)] em_add(3) have r: "ring_ok n r" "ring_abs n r = ring_abs n (es_todo s) @ [e]"
    by (metis Inr_inject)+
  have "tokens n t k = tokens n s k" for k unfolding em_add(1) tokens_def using em_add(2) r(2) by simp
  with inv em_add(1) r(1) show ?thesis by (simp add: em_inv_def)
next
  case (em_pop e r)
  have ok: "ring_ok n (es_todo s)" using inv by (simp add: em_inv_def)
  with em_pop(2) have ne: "ring_abs n (es_todo s) \<noteq> []" using ring.empty_abs by blast
  have p: "e = hd (ring_abs n (es_todo s))" "ring_ok n r" "ring_abs n r = tl (ring_abs n (es_todo s))"
    using ring.pop_ok [OF ok ne] em_pop(3) by auto
  have "tokens n t k = tokens n s k" for k
    unfolding em_pop(1) tokens_def using ne p by (cases "ring_abs n (es_todo s)") auto
  with inv em_pop(1) p(2) show ?thesis by (simp add: em_inv_def)
next
  case (em_sent xs e ys ep' nd' w)
  have "0 < tokens n s e" using em_sent(2) by (simp add: tokens_def)
  with inv have e: "tokens n s e = 1" "e < n" by (auto simp: em_inv_def not_less [symmetric] split: if_splits)
  have tok: "tokens n t k = (if k = e \<and> queues_empty ep' then tokens n s k - 1 else tokens n s k)" for k
    unfolding em_sent(1) tokens_def using em_sent(2) by simp
  have eps: "es_eps t = (es_eps s)(e := ep')" "es_todo t = es_todo s" using em_sent(1) by simp_all
  show ?thesis
    unfolding em_inv_def
  proof (intro conjI allI impI)
    show "ring_ok n (es_todo t)" using inv eps by (simp add: em_inv_def)
    show "tokens n t k = (if queues_empty (es_eps t k) then 0 else 1)" for k
      using inv e(1) unfolding tok eps by (cases "k = e") (simp_all add: em_inv_def)
    show "out_short_hdrs (es_eps t k) = []" "out_long_hdrs (es_eps t k) = []" if "n \<le> k" for k
      using inv e(2) that unfolding eps by (auto simp: em_inv_def)
  qed
next
  case (em_flipped xs e ys ep' w)
  have q: "queues_empty ep' = queues_empty (es_eps s e)" using push_one_Flipped(1) [OF em_flipped(3)] by simp
  with inv em_flipped show ?thesis by (auto simp: em_inv_def tokens_def)
next
  case (em_give_up xs e ys)
  have "tokens n t k = tokens n s k" for k unfolding em_give_up(1) tokens_def using em_give_up(2) by simp
  with inv em_give_up(1) show ?thesis by (simp add: em_inv_def)
qed

interpretation em_sys: step_system "em_init n" "em_step cfg n" "em_inv n" for cfg n
  by unfold_locales (rule em_inv_init em_inv_step; assumption)+

text \<open>Example: two nodes; a message without payload is enqueued for node 1.\<close>

definition em_demo0 :: em_state where
  "em_demo0 = \<lparr>es_node = demo_node\<lparr>nd_msgs := (\<lambda>_. \<lparr>msgid = 9, num_args = 2, args = replicate 16 1, payload = 0,
       payload_size = 0, payload_mode = PAYLOAD_NONE, dstptr = 0, payload_src = None\<rparr>)\<rparr>,
     es_eps = (\<lambda>e. ActiveMessageEndpoint_construct \<lparr>num_lmbs = 2, lmb_size = 64, max_long_req = 8, max_medium = 8\<rparr>
                (\<lambda>_. \<lparr>seg_addr = 4096, seg_size = 1024\<rparr>) 0 e),
     es_todo = ring_new 2, es_adders = [], es_workers = []\<rparr>"

definition em_demo1 :: em_state where
  "em_demo1 = after_op em_demo0 1 (es_node em_demo0) ((es_eps em_demo0 1)\<lparr>out_long_hdrs := [7]\<rparr>) True"

lemma em_demo1_reached:
  "reaches (em_init 2) (em_step \<lparr>num_lmbs = 2, lmb_size = 64, max_long_req = 8, max_medium = 8\<rparr> 2) em_demo1"
proof (rule reaches_step)
  show "reaches (em_init 2) (em_step \<lparr>num_lmbs = 2, lmb_size = 64, max_long_req = 8, max_medium = 8\<rparr> 2) em_demo0"
    by (rule reaches_init) (simp add: em_init_def em_demo0_def ActiveMessageEndpoint_construct_def)
  have "ep_enqueue_message \<lparr>num_lmbs = 2, lmb_size = 64, max_long_req = 8, max_medium = 8\<rparr> 0 (es_node em_demo0)
      (es_eps em_demo0 1) 7 True = Inr (es_node em_demo0, (es_eps em_demo0 1)\<lparr>out_long_hdrs := [7]\<rparr>, True)"
    by (simp add: ep_enqueue_message_def reserve_srcdata_def em_demo0_def ActiveMessageEndpoint_construct_def)
  then show "em_step \<lparr>num_lmbs = 2, lmb_size = 64, max_long_req = 8, max_medium = 8\<rparr> 2 em_demo0 em_demo1"
    unfolding em_demo1_def by (rule em_enqueue [rotated]) simp
qed

section \<open>Properties\<close>

text \<open>
  C32. An endpoint with queued messages is never forgotten and never listed twice, under every
  interleaving of the threads: it is in the todo ring, held by a polling thread or about to be
  added, exactly once; an endpoint without messages is nowhere.
\<close>

theorem endpoint_token_unique:
  assumes "reaches (em_init n) (em_step cfg n) s"
  shows "count_list (ring_abs n (es_todo s)) e + count_list (es_adders s) e + count_list (es_workers s) e =
     (if queues_empty (es_eps s e) then 0 else 1)"
  using em_sys.inv_reaches [OF assms] by (simp add: em_inv_def tokens_def)

theorem endpoint_token_unique_witness:
  "count_list (ring_abs 2 (es_todo em_demo1)) 1 + count_list (es_adders em_demo1) 1 + count_list (es_workers em_demo1) 1 = 1"
  using endpoint_token_unique [OF em_demo1_reached, of 1] by (simp add: em_demo1_def after_op_def)

text \<open>
  The assertion of \<^verbatim>\<open>add_todo_entry\<close> never fails, and a polling thread always finds a message
  at the endpoint it has taken: in every reachable state each thread about to add an endpoint can do
  so without the ring wrapping around, and each endpoint held by a polling thread has a non-empty queue.
\<close>

theorem todo_never_wraps:
  assumes "reaches (em_init n) (em_step cfg n) s"
  shows "(e \<in> set (es_adders s) \<longrightarrow> (\<exists>r. ring_push n (es_todo s) e = Inr r)) \<and>
     (e \<in> set (es_workers s) \<longrightarrow> \<not> queues_empty (es_eps s e))"
proof (intro conjI impI)
  have inv: "em_inv n s" using em_sys.inv_reaches [OF assms] .
  show "\<exists>r. ring_push n (es_todo s) e = Inr r" if "e \<in> set (es_adders s)"
    using that em_push_ok [OF inv] by (metis split_list)
  assume "e \<in> set (es_workers s)"
  then have "count_list (es_workers s) e \<noteq> 0" by (simp add: count_list_0_iff)
  then have "tokens n s e \<noteq> 0" by (simp add: tokens_def)
  with inv show "\<not> queues_empty (es_eps s e)" by (auto simp: em_inv_def)
qed

theorem todo_never_wraps_witness: "\<exists>r. ring_push 2 (es_todo em_demo1) 1 = Inr r"
  using todo_never_wraps [OF em_demo1_reached, of 1] by (simp add: em_demo1_def after_op_def)

end
