(* ===== verification/Status_Reports.thy ===== *)
theory Status_Reports
  imports Endpoint_Manager Environment
begin

text \<open>
  What the runtime reports about itself: the status of the endpoints and the messages left at shutdown
  (\<^verbatim>\<open>src/templates/activemsg.cc\<close>, the latter compiled with \<^verbatim>\<open>CHECK_OUTGOING_MESSAGES\<close>) and the events that
  somebody waits for (\<^verbatim>\<open>show_event_waiters\<close> of \<^verbatim>\<open>src/templates/runtime_impl.cc\<close>).  A report is the list of its lines with the
  values they show.
\<close>

section \<open>Status of the endpoints\<close>

record ams_line =
  al_from :: node_id
  al_to :: node_id
  al_short :: nat
  al_long :: nat
  al_front :: nat
  al_write_lmb :: nat
  al_write_count :: nat
  al_write_offset :: nat
  al_avail :: "bool \<times> bool"
  al_counts :: "int \<times> int"

text \<open>The report reads entries 0 and 1 of both arrays, however many buffers there are.\<close>

definition report_endpoint :: "node_id \<Rightarrow> am_node \<Rightarrow> nat \<Rightarrow> ActiveMessageEndpoint \<Rightarrow> ams_line outcome" where
  "report_endpoint mynode nd i e =
     (if 1 < length (lmb_w_avail e) \<and> 1 < length (lmb_r_counts e)
      then Inr \<lparr>al_from = mynode, al_to = i, al_short = length (out_short_hdrs e), al_long = length (out_long_hdrs e),
                al_front = (case out_long_hdrs e of [] \<Rightarrow> 0 | m # _ \<Rightarrow> payload_size (nd_msgs nd m)),
                al_write_lmb = cur_write_lmb e, al_write_count = cur_write_count e, al_write_offset = cur_write_offset e,
                al_avail = (lmb_w_avail e ! 0, lmb_w_avail e ! 1), al_counts = (lmb_r_counts e ! 0, lmb_r_counts e ! 1)\<rparr>
      else Inl Undefined_Behaviour)"

fun report_endpoints :: "node_id \<Rightarrow> am_node \<Rightarrow> EndpointManager \<Rightarrow> nat list \<Rightarrow> ams_line list outcome" where
  "report_endpoints mynode nd em [] = Inr []"
| "report_endpoints mynode nd em (i # is) =
     (case em_endpoints em i of
        None \<Rightarrow> report_endpoints mynode nd em is
      | Some e \<Rightarrow> obind (report_endpoint mynode nd i e) (\<lambda>l. obind (report_endpoints mynode nd em is) (\<lambda>ls. Inr (l # ls))))"

definition report_activemsg_status :: "node_id \<Rightarrow> am_node \<Rightarrow> EndpointManager \<Rightarrow> ams_line list outcome" where
  "report_activemsg_status mynode nd em = report_endpoints mynode nd em [0 ..< em_total em]"

section \<open>Messages left at shutdown\<close>

datatype outstanding = Target nat | SHORT nat nat nat | LONG nat nat nat

definition short_line :: "am_node \<Rightarrow> msgptr \<Rightarrow> outstanding" where
  "short_line nd p = SHORT (msgid (nd_msgs nd p)) (num_args (nd_msgs nd p)) (payload_size (nd_msgs nd p))"

definition long_line :: "am_node \<Rightarrow> msgptr \<Rightarrow> outstanding" where
  "long_line nd p = LONG (msgid (nd_msgs nd p)) (num_args (nd_msgs nd p)) (payload_size (nd_msgs nd p))"

fun drain_shorts :: "am_node \<Rightarrow> ActiveMessageEndpoint \<Rightarrow> msgptr list \<Rightarrow> outstanding list \<times> ActiveMessageEndpoint" where
  "drain_shorts nd e [] = ([], e\<lparr>out_short_hdrs := []\<rparr>)"
| "drain_shorts nd e (p # ps) = (let (ls, e') = drain_shorts nd (e\<lparr>out_short_hdrs := ps\<rparr>) ps in (short_line nd p # ls, e'))"

fun drain_longs :: "am_node \<Rightarrow> ActiveMessageEndpoint \<Rightarrow> msgptr list \<Rightarrow> outstanding list \<times> ActiveMessageEndpoint" where
  "drain_longs nd e [] = ([], e\<lparr>out_long_hdrs := []\<rparr>)"
| "drain_longs nd e (p # ps) = (let (ls, e') = drain_longs nd (e\<lparr>out_long_hdrs := ps\<rparr>) ps in (long_line nd p # ls, e'))"

definition drain_endpoint :: "am_node \<Rightarrow> nat \<Rightarrow> ActiveMessageEndpoint \<Rightarrow> outstanding list \<times> ActiveMessageEndpoint" where
  "drain_endpoint nd target e =
     (let (ss, e1) = drain_shorts nd e (out_short_hdrs e); (ls, e2) = drain_longs nd e1 (out_long_hdrs e1)
      in (Target target # ss @ ls, e2))"

text \<open>The loop over the todo ring; the value is \<open>None\<close> should it not end.\<close>

partial_function (option) drain_todo ::
  "am_node \<Rightarrow> EndpointManager \<Rightarrow> outstanding list \<Rightarrow> (outstanding list \<times> EndpointManager) outcome option" where
  [code]: "drain_todo nd em out =
     (if ring_empty (em_todo em) then Some (Inr (out, em))
      else case endpoint_at em (todo_list (em_todo em) ! todo_oldest (em_todo em)) of
             Inl err \<Rightarrow> Some (Inl err)
           | Inr e \<Rightarrow>
               (let target = todo_list (em_todo em) ! todo_oldest (em_todo em);
                    (ls, e') = drain_endpoint nd target e;
                    oldest = todo_oldest (em_todo em) + 1;
                    r = (em_todo em)\<lparr>todo_oldest := (if oldest > em_total em then 0 else oldest)\<rparr>
                in drain_todo nd ((put_endpoint em target e')\<lparr>em_todo := r\<rparr>) (out @ ls)))"

text \<open>\<open>joined\<close> is what the polling threads do until they have noticed the flag and returned.\<close>

definition stop_threads ::
  "(am_node \<Rightarrow> EndpointManager \<Rightarrow> am_node \<times> EndpointManager) \<Rightarrow> am_node \<Rightarrow> EndpointManager \<Rightarrow>
     (outstanding list \<times> EndpointManager) outcome option" where
  "stop_threads joined nd em =
     (let (nd', em') = joined nd (em\<lparr>em_shutdown := True\<rparr>)
      in if \<not> ring_empty (em_todo em') then drain_todo nd' em' [] else Some (Inr ([], em')))"

section \<open>Events with waiters\<close>

text \<open>The fields of events and barriers the dump reads; the maps are ordered by generation.\<close>

record ('w, 'n) GenEventImpl =
  ge_me :: nat
  ge_generation :: nat
  ge_gen_subscribed :: nat
  current_local_waiters :: "'w list"
  future_local_waiters :: "(nat \<times> 'w list) list"
  remote_waiters :: "(nat \<times> 'n) list"

record 'w BarrierImpl =
  ba_me :: nat
  ba_generation :: nat
  ba_gen_subscribed :: nat
  generations :: "(nat \<times> 'w list) list"

text \<open>The tables of a node: the number of entries and the entries there are.\<close>

record ('w, 'n) event_tables =
  ev_max :: nat
  ev_entry :: "nat \<Rightarrow> ('w, 'n) GenEventImpl option"
  ba_max :: nat
  ba_entry :: "nat \<Rightarrow> 'w BarrierImpl option"

datatype 'w dump_line =
    Printing_All
  | Event_Line (el_me: nat) (el_gen: nat) (el_subscr: nat) (el_local: nat) (el_future: nat) (el_remote: nat)
  | Barrier_Line nat nat nat
  | Waiter_Line nat 'w
  | Done_Line

definition waiter_lines :: "(nat \<times> 'w list) list \<Rightarrow> 'w dump_line list" where
  "waiter_lines gens = concat (map (\<lambda>(g, ws). map (Waiter_Line g) ws) gens)"

definition dump_event :: "('w, 'n) GenEventImpl \<Rightarrow> 'w dump_line list" where
  "dump_event e =
     (if current_local_waiters e = [] \<and> future_local_waiters e = [] \<and> remote_waiters e = [] then []
      else Event_Line (ge_me e) (ge_generation e) (ge_gen_subscribed e) (length (current_local_waiters e))
             (length (future_local_waiters e)) (length (remote_waiters e)) #
           waiter_lines [(ge_generation e + 1, current_local_waiters e)] @ waiter_lines (future_local_waiters e))"

definition dump_barrier :: "'w BarrierImpl \<Rightarrow> 'w dump_line list" where
  "dump_barrier b =
     (if generations b = [] then []
      else Barrier_Line (ba_me b) (ba_generation b) (ba_gen_subscribed b) # waiter_lines (generations b))"

definition dump_node :: "('w, 'n) event_tables \<Rightarrow> 'w dump_line list" where
  "dump_node n =
     concat (map (\<lambda>j. case ev_entry n j of None \<Rightarrow> [] | Some e \<Rightarrow> dump_event e) [0 ..< ev_max n]) @
     concat (map (\<lambda>j. case ba_entry n j of None \<Rightarrow> [] | Some b \<Rightarrow> dump_barrier b) [0 ..< ba_max n])"

definition show_event_waiters :: "node_id \<Rightarrow> (node_id \<Rightarrow> ('w, 'n) event_tables) \<Rightarrow> 'w dump_line list" where
  "show_event_waiters max_node_id nodes =
     [Printing_All] @ concat (map (\<lambda>i. dump_node (nodes i)) [0 ..< max_node_id + 1]) @ [Done_Line]"

text \<open>Where the dump goes: the named file or (\<open>None\<close>) the standard output; \<open>operations\<close> is what \<^verbatim>\<open>print_operations\<close> writes.\<close>

definition realm_show_events ::
  "environment \<Rightarrow> 'o list \<Rightarrow> node_id \<Rightarrow> (node_id \<Rightarrow> ('w, 'n) event_tables) \<Rightarrow> string option \<times> 'o list \<times> 'w dump_line list" where
  "realm_show_events env operations max_node_id nodes =
     (env ''REALM_SHOW_EVENT_FILENAME'', operations, show_event_waiters max_node_id nodes)"

section \<open>Lemmas\<close>

lemma report_endpoints_ok:
  "(\<forall>i \<in> set is. \<forall>e. em_endpoints em i = Some e \<longrightarrow> 1 < length (lmb_w_avail e) \<and> 1 < length (lmb_r_counts e)) \<Longrightarrow>
   \<exists>ls. report_endpoints mynode nd em is = Inr ls \<and> map al_to ls = filter (\<lambda>i. em_endpoints em i \<noteq> None) is"
  by (induction "is") (auto simp: report_endpoint_def split: option.splits)

text \<open>With two buffers or more the report has one line for every peer; with fewer it reads past the end of the arrays.\<close>

lemma new_manager_total [simp]: "em_total (EndpointManager_construct cfg seg mynode N) = N"
  by (simp add: EndpointManager_construct_def)

lemma new_manager_reports:
  assumes "2 \<le> num_lmbs cfg"
  shows "\<exists>ls. report_activemsg_status mynode nd (EndpointManager_construct cfg seg mynode N) = Inr ls \<and>
    map al_to ls = filter (\<lambda>i. i \<noteq> mynode) [0 ..< N]"
proof -
  let ?em = "EndpointManager_construct cfg seg mynode N"
  have "\<exists>ls. report_endpoints mynode nd ?em [0 ..< N] = Inr ls \<and>
      map al_to ls = filter (\<lambda>i. em_endpoints ?em i \<noteq> None) [0 ..< N]"
    using assms by (intro report_endpoints_ok)
      (auto simp: EndpointManager_construct_def ActiveMessageEndpoint_construct_def split: if_splits)
  moreover have "filter (\<lambda>i. em_endpoints ?em i \<noteq> None) [0 ..< N] = filter (\<lambda>i. i \<noteq> mynode) [0 ..< N]"
    by (rule filter_cong) (auto simp: EndpointManager_construct_def)
  ultimately show ?thesis by (simp add: report_activemsg_status_def)
qed

lemma one_buffer_report_undefined:
  assumes "num_lmbs cfg < 2" and "i < N" and "i \<noteq> mynode"
  shows "report_activemsg_status mynode nd (EndpointManager_construct cfg seg mynode N) = Inl Undefined_Behaviour"
proof -
  let ?em = "EndpointManager_construct cfg seg mynode N"
  have bad: "report_endpoints mynode nd ?em is = Inl Undefined_Behaviour"
    if "\<exists>i \<in> set is. em_endpoints ?em i \<noteq> None" for "is"
    using that assms(1) by (induction "is")
      (auto simp: report_endpoint_def EndpointManager_construct_def ActiveMessageEndpoint_construct_def split: if_splits)
  have "em_endpoints ?em i \<noteq> None" using assms by (simp add: EndpointManager_construct_def)
  with assms(2) show ?thesis unfolding report_activemsg_status_def by (intro bad) auto
qed

lemma drain_shorts_eq: "drain_shorts nd e ps = (map (short_line nd) ps, e\<lparr>out_short_hdrs := []\<rparr>)"
  by (induction ps arbitrary: e) (auto simp: Let_def)

lemma drain_longs_eq: "drain_longs nd e ps = (map (long_line nd) ps, e\<lparr>out_long_hdrs := []\<rparr>)"
  by (induction ps arbitrary: e) (auto simp: Let_def)

definition lines_of :: "am_node \<Rightarrow> nat \<Rightarrow> ActiveMessageEndpoint \<Rightarrow> outstanding list" where
  "lines_of nd target e = Target target # map (short_line nd) (out_short_hdrs e) @ map (long_line nd) (out_long_hdrs e)"

lemma drain_endpoint_eq:
  "drain_endpoint nd target e = (lines_of nd target e, e\<lparr>out_short_hdrs := [], out_long_hdrs := []\<rparr>)"
  by (simp add: drain_endpoint_def drain_shorts_eq drain_longs_eq lines_of_def)

lemma drain_todo_pop:
  "drain_todo nd em out =
     (if ring_empty (em_todo em) then Some (Inr (out, em))
      else case ring_pop (em_total em) (em_todo em) of (target, r) \<Rightarrow>
        (case endpoint_at em target of
           Inl err \<Rightarrow> Some (Inl err)
         | Inr e \<Rightarrow> drain_todo nd ((put_endpoint em target (e\<lparr>out_short_hdrs := [], out_long_hdrs := []\<rparr>))\<lparr>em_todo := r\<rparr>)
                      (out @ lines_of nd target e)))"
  by (subst drain_todo.simps) (simp add: ring_pop_def drain_endpoint_eq Let_def split: sum.split)

text \<open>The loop ends, and reports and empties the endpoints of the ring in its order.\<close>

lemma drain_todo_all:
  assumes "ring_ok (em_total em) (em_todo em)" and "ring_abs (em_total em) (em_todo em) = ts" and "distinct ts"
    and "\<And>t. t \<in> set ts \<Longrightarrow> em_endpoints em t = Some (eps t)"
  shows "\<exists>em'. drain_todo nd em out = Some (Inr (out @ concat (map (\<lambda>t. lines_of nd t (eps t)) ts), em')) \<and>
    ring_empty (em_todo em') \<and> (\<forall>t \<in> set ts. \<forall>e. em_endpoints em' t = Some e \<longrightarrow> queues_empty e) \<and>
    (\<forall>t. t \<notin> set ts \<longrightarrow> em_endpoints em' t = em_endpoints em t)"
  using assms
proof (induction ts arbitrary: em out)
  case Nil
  then show ?case using ring.empty_abs [of "em_total em" "em_todo em"] by (subst drain_todo_pop) auto
next
  case (Cons t ts)
  let ?e = "(eps t)\<lparr>out_short_hdrs := [], out_long_hdrs := []\<rparr>"
  obtain r where r: "ring_pop (em_total em) (em_todo em) = (t, r)" "ring_ok (em_total em) r" "ring_abs (em_total em) r = ts"
    using ring.pop_ok [OF Cons.prems(1)] Cons.prems(2) by (cases "ring_pop (em_total em) (em_todo em)") auto
  have ne: "\<not> ring_empty (em_todo em)" using ring.empty_abs [OF Cons.prems(1)] Cons.prems(2) by simp
  let ?em = "(put_endpoint em t ?e)\<lparr>em_todo := r\<rparr>"
  have step: "drain_todo nd em out = drain_todo nd ?em (out @ lines_of nd t (eps t))"
    by (subst drain_todo_pop) (use ne r(1) Cons.prems(4) [of t] in \<open>simp add: endpoint_at_def\<close>)
  have "\<exists>em'. drain_todo nd ?em (out @ lines_of nd t (eps t)) =
      Some (Inr ((out @ lines_of nd t (eps t)) @ concat (map (\<lambda>t. lines_of nd t (eps t)) ts), em')) \<and>
    ring_empty (em_todo em') \<and> (\<forall>t \<in> set ts. \<forall>e. em_endpoints em' t = Some e \<longrightarrow> queues_empty e) \<and>
    (\<forall>t. t \<notin> set ts \<longrightarrow> em_endpoints em' t = em_endpoints ?em t)"
    by (rule Cons.IH) (use r Cons.prems in \<open>auto simp: put_endpoint_def\<close>)
  then show ?case unfolding step using Cons.prems(3) by (elim ex_forward) (auto simp: put_endpoint_def)
qed

section \<open>Property\<close>

text \<open>The endpoint manager in a state of its threads; the node itself has no endpoint.\<close>

definition manager_of :: "nat \<Rightarrow> node_id \<Rightarrow> em_state \<Rightarrow> EndpointManager" where
  "manager_of n mynode s =
     \<lparr>em_total = n, em_endpoints = (\<lambda>e. if e < n \<and> e \<noteq> mynode then Some (es_eps s e) else None), em_todo = es_todo s,
      em_shutdown = True\<rparr>"

lemma quiet_ring:
  assumes "em_inv n s" and "es_adders s = []" and "es_workers s = []"
  shows "distinct (ring_abs n (es_todo s))" and "set (ring_abs n (es_todo s)) = {e. \<not> queues_empty (es_eps s e)}"
    and "{e. \<not> queues_empty (es_eps s e)} \<subseteq> {..< n}"
proof -
  have c: "count_list (ring_abs n (es_todo s)) e = (if queues_empty (es_eps s e) then 0 else 1)" for e
    using assms by (simp add: em_inv_def tokens_def)
  then show "distinct (ring_abs n (es_todo s))" by (intro distinct_count) simp
  show "set (ring_abs n (es_todo s)) = {e. \<not> queues_empty (es_eps s e)}"
    using c count_list_0_iff [of "ring_abs n (es_todo s)"] by (auto split: if_splits) (metis zero_neq_one)+
  show "{e. \<not> queues_empty (es_eps s e)} \<subseteq> {..< n}" using assms(1) by (auto simp: em_inv_def not_less [symmetric])
qed

text \<open>
  C40. No message is left behind unseen: when the polling threads have returned and no thread is about to add an endpoint,
  stopping the threads ends, its report lists for exactly the peers with queued messages the peer, its short and its long messages in the order of their
  queues, each once, and all queues are empty afterwards.
\<close>

theorem outstanding_reported:
  assumes "reaches (em_init n) (em_step cfg n) s" and "es_adders s = []" and "es_workers s = []"
    and "queues_empty (es_eps s mynode)" and "joined nd (em\<lparr>em_shutdown := True\<rparr>) = (es_node s, manager_of n mynode s)"
  shows "\<exists>ts em'. stop_threads joined nd em = Some (Inr (concat (map (\<lambda>t. lines_of (es_node s) t (es_eps s t)) ts), em')) \<and>
    distinct ts \<and> set ts = {e. \<not> queues_empty (es_eps s e)} \<and>
    (\<forall>t e. em_endpoints em' t = Some e \<longrightarrow> queues_empty e)"
proof -
  let ?em = "manager_of n mynode s" and ?ts = "ring_abs n (es_todo s)"
  have inv: "em_inv n s" by (rule em_sys.inv_reaches [OF assms(1)])
  note q = quiet_ring [OF inv assms(2,3)]
  have ok: "ring_ok (em_total ?em) (em_todo ?em)" using inv by (simp add: em_inv_def manager_of_def)
  have eps: "em_endpoints ?em t = Some (es_eps s t)" if "t \<in> set ?ts" for t
    using that q(2,3) assms(4) by (auto simp: manager_of_def)
  have stop: "stop_threads joined nd em = drain_todo (es_node s) ?em []"
    by (simp add: stop_threads_def assms(5) Let_def) (subst drain_todo_pop, simp)
  have abs: "ring_abs (em_total ?em) (em_todo ?em) = ?ts" by (simp add: manager_of_def)
  obtain em' where d: "drain_todo (es_node s) ?em [] = Some (Inr ([] @ concat (map (\<lambda>t. lines_of (es_node s) t (es_eps s t)) ?ts), em'))"
    and e: "\<forall>t \<in> set ?ts. \<forall>e. em_endpoints em' t = Some e \<longrightarrow> queues_empty e" "\<forall>t. t \<notin> set ?ts \<longrightarrow> em_endpoints em' t = em_endpoints ?em t"
    using drain_todo_all [OF ok abs q(1) eps, of "es_node s" "[]"] by blast
  have "queues_empty x" if x: "em_endpoints em' t = Some x" for t x
  proof (cases "t \<in> set ?ts")
    case True
    with e(1) x show ?thesis by blast
  next
    case False
    with e(2) x have "em_endpoints ?em t = Some x" by simp
    then have "x = es_eps s t" by (simp add: manager_of_def split: if_splits)
    moreover from False have "t \<notin> {e. \<not> queues_empty (es_eps s e)}" unfolding q(2) .
    ultimately show ?thesis by blast
  qed
  with d q(1,2) show ?thesis unfolding stop by (intro exI [of _ ?ts] exI [of _ em']) simp
qed

text \<open>Example: the message of the example of the endpoint manager has not been sent when the threads stop.\<close>

definition stop_demo :: em_state where
  "stop_demo = em_demo1\<lparr>es_todo := projr (ring_push 2 (ring_new 2) 1), es_adders := []\<rparr>"

lemma stop_demo_reached:
  "reaches (em_init 2) (em_step \<lparr>num_lmbs = 2, lmb_size = 64, max_long_req = 8, max_medium = 8\<rparr> 2) stop_demo"
  unfolding stop_demo_def
proof (rule reaches_step [OF em_demo1_reached])
  have "es_adders em_demo1 = [] @ 1 # []" "ring_push 2 (es_todo em_demo1) 1 = Inr (projr (ring_push 2 (ring_new 2) 1))"
    by (simp_all add: em_demo1_def em_demo0_def after_op_def ring_push_def ring_new_def)
  from em_add [OF this] show "em_step \<lparr>num_lmbs = 2, lmb_size = 64, max_long_req = 8, max_medium = 8\<rparr> 2 em_demo1
      (em_demo1\<lparr>es_todo := projr (ring_push 2 (ring_new 2) 1), es_adders := []\<rparr>)" by simp
qed

theorem outstanding_reported_witness:
  "\<exists>em'. stop_threads (\<lambda>nd em. (es_node stop_demo, manager_of 2 0 stop_demo)) (es_node stop_demo) (manager_of 2 0 stop_demo) =
     Some (Inr ([Target 1, LONG 9 2 0], em'))"
proof -
  have q: "es_adders stop_demo = []" "es_workers stop_demo = []" "queues_empty (es_eps stop_demo e) \<longleftrightarrow> e \<noteq> 1"
    and l: "lines_of (es_node stop_demo) 1 (es_eps stop_demo 1) = [Target 1, LONG 9 2 0]" for e
    by (simp_all add: stop_demo_def em_demo1_def em_demo0_def after_op_def ActiveMessageEndpoint_construct_def lines_of_def long_line_def)
  have "queues_empty (es_eps stop_demo 0)" using q(3) [of 0] by simp
  from outstanding_reported [OF stop_demo_reached q(1,2) this, of "\<lambda>nd em. (es_node stop_demo, manager_of 2 0 stop_demo)"
      "es_node stop_demo" "manager_of 2 0 stop_demo"]
  obtain ts em' where t: "stop_threads (\<lambda>nd em. (es_node stop_demo, manager_of 2 0 stop_demo)) (es_node stop_demo) (manager_of 2 0 stop_demo) =
      Some (Inr (concat (map (\<lambda>t. lines_of (es_node stop_demo) t (es_eps stop_demo t)) ts), em'))"
    "distinct ts" "set ts = {e. \<not> queues_empty (es_eps stop_demo e)}" by blast
  have "set ts = {1}" unfolding t(3) using q(3) by blast
  with t(2) have "ts = [1]" by (metis distinct_card card_1_singleton_iff length_Suc_conv length_0_conv list.set_intros(1) singletonD card.empty card_insert_disjoint finite.emptyI empty_iff)
  with t(1) l show ?thesis by auto
qed

text \<open>The dump of events lists every local waiter, under the generation it waits for, and nothing else.\<close>

lemma waiter_lines_set: "Waiter_Line g w \<in> set (waiter_lines gens) \<longleftrightarrow> (\<exists>ws. (g, ws) \<in> set gens \<and> w \<in> set ws)"
  by (auto simp: waiter_lines_def)

definition waits_for_event :: "('w, 'n) GenEventImpl \<Rightarrow> nat \<Rightarrow> 'w \<Rightarrow> bool" where
  "waits_for_event e g w \<longleftrightarrow> (g = ge_generation e + 1 \<and> w \<in> set (current_local_waiters e)) \<or>
     (\<exists>ws. (g, ws) \<in> set (future_local_waiters e) \<and> w \<in> set ws)"

lemma dump_event_waiters: "Waiter_Line g w \<in> set (dump_event e) \<longleftrightarrow> waits_for_event e g w"
  by (auto simp: dump_event_def waits_for_event_def waiter_lines_set)

lemma dump_barrier_waiters: "Waiter_Line g w \<in> set (dump_barrier b) \<longleftrightarrow> (\<exists>ws. (g, ws) \<in> set (generations b) \<and> w \<in> set ws)"
  by (auto simp: dump_barrier_def waiter_lines_set)

lemma concat_entries:
  "x \<in> set (concat (map (\<lambda>j. case t j of None \<Rightarrow> [] | Some e \<Rightarrow> f e) [0 ..< m])) \<longleftrightarrow> (\<exists>j < m. \<exists>e. t j = Some e \<and> x \<in> set (f e))"
proof -
  have a: "x \<in> set (case t j of None \<Rightarrow> [] | Some e \<Rightarrow> f e) \<longleftrightarrow> (\<exists>e. t j = Some e \<and> x \<in> set (f e))" for j
    by (cases "t j") auto
  have b: "x \<in> set (concat (map h [0 ..< m])) \<longleftrightarrow> (\<exists>j < m. x \<in> set (h j))" for h by auto
  show ?thesis unfolding b a ..
qed

lemma dump_node_waiters:
  "Waiter_Line g w \<in> set (dump_node n) \<longleftrightarrow>
     (\<exists>j < ev_max n. \<exists>e. ev_entry n j = Some e \<and> waits_for_event e g w) \<or>
     (\<exists>j < ba_max n. \<exists>b. ba_entry n j = Some b \<and> (\<exists>ws. (g, ws) \<in> set (generations b) \<and> w \<in> set ws))"
  unfolding dump_node_def set_append Un_iff concat_entries dump_event_waiters dump_barrier_waiters ..

lemma dump_lists_waiters:
  "Waiter_Line g w \<in> set (show_event_waiters mx nodes) \<longleftrightarrow> (\<exists>i \<le> mx.
     (\<exists>j < ev_max (nodes i). \<exists>e. ev_entry (nodes i) j = Some e \<and> waits_for_event e g w) \<or>
     (\<exists>j < ba_max (nodes i). \<exists>b. ba_entry (nodes i) j = Some b \<and> (\<exists>ws. (g, ws) \<in> set (generations b) \<and> w \<in> set ws)))"
proof -
  have "Waiter_Line g w \<in> set (show_event_waiters mx nodes) \<longleftrightarrow> (\<exists>i \<le> mx. Waiter_Line g w \<in> set (dump_node (nodes i)))"
    by (auto simp: show_event_waiters_def less_Suc_eq_le simp del: upt_Suc)
  then show ?thesis unfolding dump_node_waiters .
qed

end
