(* ===== verification/Monitor.thy ===== *)
theory Monitor
  imports Legion_Prelude "HOL-Library.Sublist"
begin

text \<open>
  Locks, condition variables and the two places that wait for a flag with them: \<^verbatim>\<open>GASNetHSL\<close>,
  \<^verbatim>\<open>GASNetCondVar\<close>, \<^verbatim>\<open>AutoLock\<close> and \<^verbatim>\<open>HandlerReplyFuture\<close> (\<^verbatim>\<open>src/templates/activemsg.cc\<close>, \<^verbatim>\<open>activemsg.h\<close>), and the
  critical sections of \<^verbatim>\<open>RuntimeImpl::shutdown\<close> and \<^verbatim>\<open>RuntimeImpl::wait_for_shutdown\<close>
  (\<^verbatim>\<open>runtime_impl.cc\<close>).  Here the steps of threads interleave, so this is where the other theories get their right to
  take a critical section as one step.  The semantics of the primitives is that of the threads library: a
  mutex has an owner, \<^verbatim>\<open>wait\<close> releases it and sleeps, and a thread that wakes up takes it again.
\<close>

section \<open>Threads\<close>

text \<open>The instructions of the sections, and a thread with what it has left to do.\<close>

datatype mop =
    Lock
  | Unlock
  | Set_Flag
  | Broadcast
  | Wait_While_Unset
  | Return_If_Set

record thread =
  th_code :: "mop list"
  th_asleep :: bool

record monitor =
  mn_owner :: "nat option"
  mn_flag :: bool
  mn_threads :: "thread list"

definition HandlerReplyFuture_set :: "mop list" where
  "HandlerReplyFuture_set = [Lock, Set_Flag, Broadcast, Unlock]"

definition HandlerReplyFuture_wait :: "mop list" where
  "HandlerReplyFuture_wait = [Return_If_Set, Lock, Wait_While_Unset, Unlock]"

section \<open>\<^verbatim>\<open>AutoLock\<close>\<close>

text \<open>An object with its flag; what it does to the mutex is a list of instructions.\<close>

record AutoLock =
  al_held :: bool

definition AutoLock_construct :: "AutoLock \<times> mop list" where
  "AutoLock_construct = (\<lparr>al_held = True\<rparr>, [Lock])"

definition AutoLock_destruct :: "AutoLock \<Rightarrow> mop list" where
  "AutoLock_destruct al = (if al_held al then [Unlock] else [])"

definition AutoLock_release :: "AutoLock \<Rightarrow> (AutoLock \<times> mop list) outcome" where
  "AutoLock_release al = obind (cassert (al_held al)) (\<lambda>_. Inr (al\<lparr>al_held := False\<rparr>, [Unlock]))"

definition AutoLock_reacquire :: "AutoLock \<Rightarrow> (AutoLock \<times> mop list) outcome" where
  "AutoLock_reacquire al = obind (cassert (\<not> al_held al)) (\<lambda>_. Inr (al\<lparr>al_held := True\<rparr>, [Lock]))"

text \<open>A scope with an \<^verbatim>\<open>AutoLock\<close>: some body between construction and destruction.\<close>

definition locked_scope :: "mop list \<Rightarrow> mop list" where
  "locked_scope body = (let (al, pre) = AutoLock_construct in pre @ body @ AutoLock_destruct al)"

definition shutdown_section :: "mop list" where
  "shutdown_section = locked_scope [Set_Flag, Broadcast]"

definition wait_section :: "mop list" where
  "wait_section = locked_scope [Wait_While_Unset]"

section \<open>Steps\<close>

text \<open>\<^verbatim>\<open>lock\<close> blocks (\<open>None\<close>) while another thread holds the mutex; only the owner may unlock.\<close>

definition GASNetHSL_lock :: "nat \<Rightarrow> nat option \<Rightarrow> nat option option" where
  "GASNetHSL_lock i own = (if own = None then Some (Some i) else None)"

definition GASNetHSL_unlock :: "nat \<Rightarrow> nat option \<Rightarrow> nat option outcome" where
  "GASNetHSL_unlock i own = (if own = Some i then Inr None else Inl Undefined_Behaviour)"

definition set_code :: "nat \<Rightarrow> mop list \<Rightarrow> monitor \<Rightarrow> monitor" where
  "set_code i c s = s\<lparr>mn_threads := (mn_threads s)[i := (mn_threads s ! i)\<lparr>th_code := c\<rparr>]\<rparr>"

text \<open>A waiting thread has to take the mutex again before it goes on with \<open>c\<close>.\<close>

definition GASNetCondVar_wait :: "nat \<Rightarrow> mop list \<Rightarrow> monitor \<Rightarrow> monitor outcome" where
  "GASNetCondVar_wait i c s =
     obind (GASNetHSL_unlock i (mn_owner s)) (\<lambda>own.
       Inr (s\<lparr>mn_owner := own, mn_threads := (mn_threads s)[i := \<lparr>th_code = Lock # c, th_asleep = True\<rparr>]\<rparr>))"

definition GASNetCondVar_broadcast :: "monitor \<Rightarrow> monitor" where
  "GASNetCondVar_broadcast s = s\<lparr>mn_threads := map (\<lambda>th. th\<lparr>th_asleep := False\<rparr>) (mn_threads s)\<rparr>"

text \<open>\<^verbatim>\<open>signal\<close> wakes one thread, if any sleeps; which one is up to the system.\<close>

definition GASNetCondVar_signal :: "nat \<Rightarrow> monitor \<Rightarrow> monitor" where
  "GASNetCondVar_signal j s =
     (if j < length (mn_threads s) then s\<lparr>mn_threads := (mn_threads s)[j := (mn_threads s ! j)\<lparr>th_asleep := False\<rparr>]\<rparr> else s)"

fun exec :: "nat \<Rightarrow> mop \<Rightarrow> mop list \<Rightarrow> monitor \<Rightarrow> monitor outcome option" where
  "exec i Lock c s = map_option (\<lambda>own. Inr (set_code i c (s\<lparr>mn_owner := own\<rparr>))) (GASNetHSL_lock i (mn_owner s))"
| "exec i Unlock c s = Some (obind (GASNetHSL_unlock i (mn_owner s)) (\<lambda>own. Inr (set_code i c (s\<lparr>mn_owner := own\<rparr>))))"
| "exec i Set_Flag c s = Some (Inr (set_code i c (s\<lparr>mn_flag := True\<rparr>)))"
| "exec i Broadcast c s = Some (Inr (set_code i c (GASNetCondVar_broadcast s)))"
| "exec i Wait_While_Unset c s =
     Some (if mn_flag s then Inr (set_code i c s) else GASNetCondVar_wait i (Wait_While_Unset # c) s)"
| "exec i Return_If_Set c s = Some (Inr (set_code i (if mn_flag s then [] else c) s))"

text \<open>The next step of thread \<open>i\<close>; \<open>None\<close> when it has returned, sleeps or is blocked.\<close>

definition thread_step :: "nat \<Rightarrow> monitor \<Rightarrow> monitor outcome option" where
  "thread_step i s =
     (if i < length (mn_threads s) \<and> \<not> th_asleep (mn_threads s ! i) then
        case th_code (mn_threads s ! i) of [] \<Rightarrow> None | op # c \<Rightarrow> exec i op c s
      else None)"

definition mon_start :: "mop list list \<Rightarrow> monitor" where
  "mon_start progs = \<lparr>mn_owner = None, mn_flag = False, mn_threads = map (\<lambda>p. \<lparr>th_code = p, th_asleep = False\<rparr>) progs\<rparr>"

text \<open>A thread takes its step, or a sleeper wakes up without reason, as the library allows.\<close>

inductive mon_step :: "monitor \<Rightarrow> monitor \<Rightarrow> bool" where
  mon_thread: "thread_step i s = Some (Inr t) \<Longrightarrow> mon_step s t"
| mon_spurious: "mon_step s (GASNetCondVar_signal i s)"

text \<open>Steps by a given schedule.\<close>

fun mon_run :: "nat list \<Rightarrow> monitor \<Rightarrow> monitor outcome option" where
  "mon_run [] s = Some (Inr s)"
| "mon_run (i # sched) s = (case thread_step i s of Some (Inr t) \<Rightarrow> mon_run sched t | r \<Rightarrow> r)"

section \<open>Invariant\<close>

definition flag_progs :: "mop list list \<Rightarrow> bool" where
  "flag_progs progs \<longleftrightarrow>
     set progs \<subseteq> {HandlerReplyFuture_set, HandlerReplyFuture_wait, shutdown_section, wait_section}"

definition in_section :: "mop list \<Rightarrow> bool" where
  "in_section c \<longleftrightarrow> c \<in> {[Wait_While_Unset, Unlock], [Unlock], [Set_Flag, Broadcast, Unlock], [Broadcast, Unlock]}"

abbreviation code_at :: "monitor \<Rightarrow> nat \<Rightarrow> mop list" where
  "code_at s i \<equiv> th_code (mn_threads s ! i)"

abbreviation asleep_at :: "monitor \<Rightarrow> nat \<Rightarrow> bool" where
  "asleep_at s i \<equiv> th_asleep (mn_threads s ! i)"

definition mon_inv :: "mop list list \<Rightarrow> monitor \<Rightarrow> bool" where
  "mon_inv progs s \<longleftrightarrow> length (mn_threads s) = length progs \<and>
     (\<forall>i < length progs. suffix (code_at s i) (progs ! i)) \<and>
     (\<forall>i < length progs. asleep_at s i \<longrightarrow> code_at s i = [Lock, Wait_While_Unset, Unlock]) \<and>
     (\<forall>i. mn_owner s = Some i \<longleftrightarrow> i < length progs \<and> in_section (code_at s i)) \<and>
     (\<forall>i < length progs. \<not> mn_flag s \<longrightarrow> Set_Flag \<in> set (progs ! i) \<longrightarrow> Set_Flag \<in> set (code_at s i)) \<and>
     (\<forall>i < length progs. mn_flag s \<longrightarrow> asleep_at s i \<longrightarrow> (\<exists>j < length progs. code_at s j = [Broadcast, Unlock]))"

lemmas flag_codes = HandlerReplyFuture_set_def HandlerReplyFuture_wait_def shutdown_section_def wait_section_def locked_scope_def
  AutoLock_construct_def AutoLock_destruct_def

text \<open>The programs, with the object's flag evaluated.\<close>

lemma flag_progs_code:
  assumes "flag_progs progs" and "i < length progs"
  obtains "progs ! i = [Lock, Set_Flag, Broadcast, Unlock]" | "progs ! i = [Return_If_Set, Lock, Wait_While_Unset, Unlock]"
  | "progs ! i = [Lock, Wait_While_Unset, Unlock]"
proof -
  have "progs ! i \<in> set progs" using assms(2) by simp
  then show thesis using assms(1) that by (auto simp: flag_progs_def flag_codes)
qed

lemma code_cases:
  assumes "flag_progs progs" and "mon_inv progs s" and "i < length progs"
  shows "code_at s i \<in> {[], [Unlock], [Broadcast, Unlock], [Set_Flag, Broadcast, Unlock], [Lock, Set_Flag, Broadcast, Unlock],
    [Wait_While_Unset, Unlock], [Lock, Wait_While_Unset, Unlock], [Return_If_Set, Lock, Wait_While_Unset, Unlock]}"
proof -
  have "suffix (code_at s i) (progs ! i)" using assms(2,3) by (simp add: mon_inv_def)
  then show ?thesis by (cases rule: flag_progs_code [OF assms(1,3)]) (auto simp: suffix_Cons)
qed

lemma suffix_tl: "suffix (x # xs) ys \<Longrightarrow> suffix xs ys"
  by (auto simp: suffix_def)

text \<open>A thread advances to \<open>c\<close>, perhaps setting the flag or waking the others.\<close>

lemma mon_inv_advance:
  assumes inv: "mon_inv progs s" and i: "i < length progs" and old: "\<not> asleep_at s i"
    and suf: "suffix c (progs ! i)"
    and own: "mn_owner t = (if in_section c then Some i else if mn_owner s = Some i then None else mn_owner s)"
    and sec: "in_section c \<Longrightarrow> mn_owner s \<in> {None, Some i}"
    and threads: "mn_threads t = (map (\<lambda>th. if w then th\<lparr>th_asleep := False\<rparr> else th) (mn_threads s))[i := \<lparr>th_code = c, th_asleep = False\<rparr>]"
    and flag: "mn_flag t \<longleftrightarrow> mn_flag s \<or> c = [Broadcast, Unlock]"
    and set: "Set_Flag \<in> set (code_at s i) \<Longrightarrow> Set_Flag \<notin> set c \<Longrightarrow> mn_flag t"
    and wake: "code_at s i = [Broadcast, Unlock] \<Longrightarrow> w"
  shows "mon_inv progs t"
proof -
  have n: "length (mn_threads s) = length progs" using inv by (simp add: mon_inv_def)
  have c: "code_at t j = (if j = i then c else code_at s j)" "asleep_at t j = (if j = i then False else \<not> w \<and> asleep_at s j)"
    if "j < length progs" for j using that i n by (auto simp: threads nth_list_update)
  have o: "mn_owner s = Some j \<longleftrightarrow> j < length progs \<and> in_section (code_at s j)" for j using inv by (simp add: mon_inv_def)
  have "mn_owner t = Some j \<longleftrightarrow> j < length progs \<and> in_section (code_at t j)" for j
    using sec o [of j] o [of i] i by (auto simp: own c split: if_splits)
  moreover have "\<exists>k < length progs. code_at t k = [Broadcast, Unlock]" if "j < length progs" "mn_flag t" "asleep_at t j" for j
  proof (cases "c = [Broadcast, Unlock]")
    case False
    have "asleep_at s j" "\<not> w" "mn_flag s" using that c(2) [OF that(1)] flag False by (auto split: if_splits)
    with inv that(1) obtain k where k: "k < length progs" "code_at s k = [Broadcast, Unlock]" by (auto simp: mon_inv_def)
    with wake \<open>\<not> w\<close> have "k \<noteq> i" by auto
    with k c(1) show ?thesis by auto
  qed (use i c(1) in auto)
  moreover have "Set_Flag \<in> set (code_at t j)" if "j < length progs" "\<not> mn_flag t" "Set_Flag \<in> set (progs ! j)" for j
    using inv that set flag c(1) [OF that(1)] by (auto simp: mon_inv_def)
  ultimately show ?thesis
    using inv suf i c unfolding mon_inv_def by (auto simp: threads)
qed

text \<open>A thread goes to sleep, which it does only while the flag is not set.\<close>

lemma mon_inv_sleep:
  assumes inv: "mon_inv progs s" and i: "i < length progs" and code: "code_at s i = [Wait_While_Unset, Unlock]"
    and suf: "suffix [Lock, Wait_While_Unset, Unlock] (progs ! i)" and flag: "\<not> mn_flag s"
  shows "mon_inv progs (s\<lparr>mn_owner := None, mn_threads := (mn_threads s)[i := \<lparr>th_code = [Lock, Wait_While_Unset, Unlock], th_asleep = True\<rparr>]\<rparr>)"
    (is "mon_inv progs ?t")
proof -
  have n: "length (mn_threads s) = length progs" using inv by (simp add: mon_inv_def)
  have c: "code_at ?t j = (if j = i then [Lock, Wait_While_Unset, Unlock] else code_at s j)" "asleep_at ?t j \<longleftrightarrow> j = i \<or> asleep_at s j"
    if "j < length progs" for j using that i n by (auto simp: nth_list_update)
  have o: "mn_owner s = Some j \<longleftrightarrow> j < length progs \<and> in_section (code_at s j)" for j using inv by (simp add: mon_inv_def)
  have "mn_owner s = Some i" using o [of i] i code by (simp add: in_section_def)
  then have "\<not> in_section (code_at s j)" if "j < length progs" "j \<noteq> i" for j using o [of j] that by auto
  then have "\<not> in_section (code_at ?t j)" if "j < length progs" for j using that c(1) by (simp add: in_section_def)
  moreover have "Set_Flag \<in> set (code_at ?t j)" if "j < length progs" "Set_Flag \<in> set (progs ! j)" for j
  proof -
    have "Set_Flag \<in> set (code_at s j)" using inv that flag by (simp add: mon_inv_def)
    with c(1) [OF that(1)] code show ?thesis by auto
  qed
  ultimately show ?thesis using inv suf flag c unfolding mon_inv_def by auto
qed

lemma thread_step_inv:
  assumes progs: "flag_progs progs" and inv: "mon_inv progs s" and step: "thread_step i s = Some r"
  shows "\<exists>t. r = Inr t \<and> mon_inv progs t"
proof -
  have i: "i < length progs" "\<not> asleep_at s i" and n: "length (mn_threads s) = length progs"
    using step inv by (auto simp: thread_step_def mon_inv_def split: if_splits)
  have suf: "suffix (code_at s i) (progs ! i)" using inv i(1) by (simp add: mon_inv_def)
  have o: "mn_owner s = Some i \<longleftrightarrow> in_section (code_at s i)" using inv i(1) by (simp add: mon_inv_def)
  note adv = mon_inv_advance [OF inv i]
  note s = thread_step_def set_code_def GASNetHSL_lock_def GASNetHSL_unlock_def GASNetCondVar_wait_def GASNetCondVar_broadcast_def
  have th: "(mn_threads s ! i)\<lparr>th_code := c\<rparr> = \<lparr>th_code = c, th_asleep = False\<rparr>"
    "(mn_threads s ! i)\<lparr>th_asleep := False, th_code := c\<rparr> = \<lparr>th_code = c, th_asleep = False\<rparr>" for c using i(2) by simp_all
  from code_cases [OF progs inv i(1)] show ?thesis
  proof (elim insertE emptyE)
    assume c: "code_at s i = [Unlock]"
    show ?thesis using step i n o suf by (auto simp: s c in_section_def th intro!: adv [where w = False and c = "[]"])
  next
    assume c: "code_at s i = [Broadcast, Unlock]"
    show ?thesis using step i n o suffix_tl [OF suf [unfolded c]]
      by (auto simp: s c in_section_def th intro!: adv [where w = True and c = "[Unlock]"])
  next
    assume c: "code_at s i = [Set_Flag, Broadcast, Unlock]"
    show ?thesis using step i n o suffix_tl [OF suf [unfolded c]]
      by (auto simp: s c in_section_def th intro!: adv [where w = False and c = "[Broadcast, Unlock]"])
  next
    assume c: "code_at s i = [Lock, Set_Flag, Broadcast, Unlock]"
    show ?thesis using step i n o suffix_tl [OF suf [unfolded c]]
      by (auto simp: s c in_section_def th split: if_splits intro!: adv [where w = False and c = "[Set_Flag, Broadcast, Unlock]"])
  next
    assume c: "code_at s i = [Wait_While_Unset, Unlock]"
    have "suffix [Lock, Wait_While_Unset, Unlock] (progs ! i)"
      using suf unfolding c by (cases rule: flag_progs_code [OF progs i(1)]) (auto simp: suffix_Cons)
    with step i n o suffix_tl [OF suf [unfolded c]] mon_inv_sleep [OF inv i(1) c] show ?thesis
      by (auto simp: s c in_section_def th split: if_splits intro!: adv [where w = False and c = "[Unlock]"])
  next
    assume c: "code_at s i = [Lock, Wait_While_Unset, Unlock]"
    show ?thesis using step i n o suffix_tl [OF suf [unfolded c]]
      by (auto simp: s c in_section_def th split: if_splits intro!: adv [where w = False and c = "[Wait_While_Unset, Unlock]"])
  next
    assume c: "code_at s i = [Return_If_Set, Lock, Wait_While_Unset, Unlock]"
    have "mon_inv progs t" if "t = set_code i (if mn_flag s then [] else [Lock, Wait_While_Unset, Unlock]) s" for t
      by (rule adv [where w = False and c = "if mn_flag s then [] else [Lock, Wait_While_Unset, Unlock]"])
        (use i n o suffix_tl [OF suf [unfolded c]] in \<open>auto simp: that set_code_def c in_section_def th split: if_splits\<close>)
    then show ?thesis using step i n by (auto simp: thread_step_def c)
  qed (use step in \<open>simp add: thread_step_def split: if_splits\<close>)
qed

lemma signal_inv: "mon_inv progs s \<Longrightarrow> mon_inv progs (GASNetCondVar_signal i s)"
  by (auto simp: mon_inv_def GASNetCondVar_signal_def nth_list_update)

lemma mon_start_inv:
  assumes "flag_progs progs"
  shows "mon_inv progs (mon_start progs)"
proof -
  have "\<not> in_section (progs ! i)" if "i < length progs" for i
    by (cases rule: flag_progs_code [OF assms that]) (simp_all add: in_section_def)
  then show ?thesis by (auto simp: mon_inv_def mon_start_def)
qed

interpretation flag_sys: step_system "\<lambda>s. flag_progs progs \<and> s = mon_start progs" mon_step "\<lambda>s. flag_progs progs \<and> mon_inv progs s" for progs
proof
  fix s t assume I: "flag_progs progs \<and> mon_inv progs s" and "mon_step s t"
  from this(2) show "flag_progs progs \<and> mon_inv progs t"
  proof cases
    case (mon_thread i)
    with thread_step_inv [of progs s i] I show ?thesis by auto
  qed (use I signal_inv in auto)
qed (use mon_start_inv in auto)

section \<open>Progress\<close>

text \<open>
  How many steps are left at most when nobody wakes up without reason: going to sleep costs a step but a
  sleeper needs a broadcast to go on, and there are only so many broadcasts.
\<close>

definition th_work :: "nat \<Rightarrow> thread \<Rightarrow> nat" where
  "th_work n th = length (th_code th) + (if th_asleep th then 0 else 3) + 3 * n * count_list (th_code th) Broadcast"

definition mon_work :: "monitor \<Rightarrow> nat" where
  "mon_work s = sum_list (map (th_work (length (mn_threads s))) (mn_threads s))"

lemma sum_list_update_less:
  assumes "i < length xs" and "f y < (f (xs ! i) :: nat)"
  shows "sum_list (map f (xs[i := y])) < sum_list (map f xs)"
  using assms by (induction xs arbitrary: i) (auto split: nat.splits)

lemma sum_list_wake: "sum_list (map (th_work n) (map (\<lambda>th. th\<lparr>th_asleep := False\<rparr>) ts)) \<le> sum_list (map (th_work n) ts) + 3 * length ts"
  by (induction ts) (auto simp: th_work_def)

lemma sum_list_update_drop:
  assumes "i < length xs" and "f y + d \<le> (f (xs ! i) :: nat)"
  shows "sum_list (map f (xs[i := y])) + d \<le> sum_list (map f xs)"
  using assms by (induction xs arbitrary: i) (auto split: nat.splits)

lemma thread_step_work:
  assumes "flag_progs progs" and "mon_inv progs s" and "thread_step i s = Some (Inr t)"
  shows "mon_work t < mon_work s"
proof -
  have i: "i < length progs" "\<not> asleep_at s i" and n: "length (mn_threads s) = length progs"
    using assms(2,3) by (auto simp: thread_step_def mon_inv_def split: if_splits)
  note s = thread_step_def set_code_def GASNetHSL_lock_def GASNetHSL_unlock_def GASNetCondVar_wait_def
  have one: ?thesis
    if "mn_threads t = (mn_threads s)[i := th]" "th_work (length progs) th < th_work (length progs) (mn_threads s ! i)" for th
    using sum_list_update_less [of i "mn_threads s" "th_work (length progs)" th] that i n by (simp add: mon_work_def)
  show ?thesis
  proof (cases "code_at s i = [Broadcast, Unlock]")
    case True
    let ?w = "map (\<lambda>th. th\<lparr>th_asleep := False\<rparr>) (mn_threads s)" and ?f = "th_work (length progs)"
    have t: "mn_threads t = ?w[i := (?w ! i)\<lparr>th_code := [Unlock]\<rparr>]"
      using assms(3) i n True by (auto simp: s GASNetCondVar_broadcast_def)
    have "sum_list (map ?f (?w[i := (?w ! i)\<lparr>th_code := [Unlock]\<rparr>])) + (3 * length progs + 1) \<le> sum_list (map ?f ?w)"
      using i n True by (intro sum_list_update_drop) (simp_all add: th_work_def)
    with sum_list_wake [of "length progs" "mn_threads s"] n show ?thesis by (simp add: mon_work_def t)
  next
    case False
    with assms(3) code_cases [OF assms(1,2) i(1)] i n show ?thesis
      by (intro one [of "mn_threads t ! i"]) (auto simp: s th_work_def split: if_splits)
  qed
qed

lemma mon_run_inv:
  assumes "flag_progs progs" and "mon_inv progs s" and "mon_run sched s = Some r"
  shows "\<exists>t. r = Inr t \<and> mon_inv progs t \<and> mon_work t + length sched \<le> mon_work s"
  using assms(2,3)
proof (induction sched arbitrary: s)
  case (Cons i sched)
  then obtain u where "thread_step i s = Some u" by (auto split: option.splits)
  with thread_step_inv [OF assms(1) Cons.prems(1)] obtain t where t: "thread_step i s = Some (Inr t)" "mon_inv progs t" by blast
  from Cons.IH [OF t(2)] Cons.prems(2) t(1) thread_step_work [OF assms(1) Cons.prems(1) t(1)] show ?case by auto
qed auto

text \<open>Somebody can go on as long as not every thread has returned, provided one of them sets the flag.\<close>

lemma someone_can_step:
  assumes progs: "flag_progs progs" and inv: "mon_inv progs s" and setter: "k < length progs" "Set_Flag \<in> set (progs ! k)"
    and i: "i < length progs" "code_at s i \<noteq> []"
  shows "\<exists>j. thread_step j s \<noteq> None"
proof (rule ccontr)
  assume "\<not> ?thesis"
  then have no: "thread_step j s = None" for j by simp
  have n: "length (mn_threads s) = length progs" using inv by (simp add: mon_inv_def)
  note d = thread_step_def GASNetHSL_lock_def
  have free: "mn_owner s = None"
  proof (cases "mn_owner s")
    case (Some j)
    then have j: "j < length progs" "in_section (code_at s j)" using inv by (auto simp: mon_inv_def)
    then have "code_at s j \<noteq> [Lock, Wait_While_Unset, Unlock]" by (auto simp: in_section_def)
    then have "\<not> asleep_at s j" using inv j(1) unfolding mon_inv_def by blast
    then show ?thesis using no [of j] n j by (auto simp: d in_section_def)
  qed
  have asleep: "asleep_at s j" if "j < length progs" "code_at s j \<noteq> []" for j
    using no [of j] code_cases [OF progs inv that(1)] that n free by (auto simp: d split: if_splits)
  have "\<not> asleep_at s k"
  proof
    assume "asleep_at s k"
    then have "code_at s k = [Lock, Wait_While_Unset, Unlock]" "suffix (code_at s k) (progs ! k)"
      using inv setter(1) by (auto simp: mon_inv_def)
    with setter(2) show False by (cases rule: flag_progs_code [OF progs setter(1)]) (auto simp: suffix_Cons)
  qed
  with asleep [OF setter(1)] have "code_at s k = []" by blast
  with inv setter have "mn_flag s" by (force simp: mon_inv_def)
  with inv i asleep [OF i] obtain j where "j < length progs" "code_at s j = [Broadcast, Unlock]" by (auto simp: mon_inv_def)
  with inv free show False by (auto simp: mon_inv_def in_section_def)
qed

lemma reaches_mon_inv:
  assumes "flag_progs progs" and "reaches (\<lambda>s. s = mon_start progs) mon_step s"
  shows "mon_inv progs s"
proof -
  have "reaches (\<lambda>s. flag_progs progs \<and> s = mon_start progs) mon_step s"
    using assms(2,1) by (induction rule: reaches.induct) (auto intro: reaches.intros)
  then show ?thesis using flag_sys.inv_reaches by blast
qed

text \<open>An \<^verbatim>\<open>AutoLock\<close> locks and unlocks in turn and leaves the mutex free, however it is released and reacquired.\<close>

fun al_run :: "AutoLock \<Rightarrow> bool list \<Rightarrow> (AutoLock \<times> mop list) outcome" where
  "al_run al [] = Inr (al, [])"
| "al_run al (r # rs) =
     obind (if r then AutoLock_release al else AutoLock_reacquire al) (\<lambda>(al1, c1).
     obind (al_run al1 rs) (\<lambda>(al2, c2). Inr (al2, c1 @ c2)))"

fun alternates :: "bool \<Rightarrow> mop list \<Rightarrow> bool" where
  "alternates held [] = (\<not> held)"
| "alternates held (Lock # c) = (\<not> held \<and> alternates True c)"
| "alternates held (Unlock # c) = (held \<and> alternates False c)"
| "alternates held (_ # c) = alternates held c"

lemma auto_lock_balanced:
  assumes "AutoLock_construct = (al0, c0)" and "al_run al0 rs = Inr (al, c)"
  shows "alternates False (c0 @ c @ AutoLock_destruct al)"
proof -
  have "alternates (al_held al0) (c @ AutoLock_destruct al)"
    using assms(2)
  proof (induction rs arbitrary: al0 c)
    case (Cons r rs)
    then show ?case by (force simp: AutoLock_release_def AutoLock_reacquire_def obind_Inr_iff split: if_splits)
  qed (simp add: AutoLock_destruct_def)
  with assms(1) show ?thesis by (auto simp: AutoLock_construct_def)
qed

section \<open>Properties\<close>

text \<open>
  C27. Critical sections exclude each other: however the threads interleave, with wake-ups without reason, at most
  one thread is between taking and releasing the mutex, it is the owner, and no thread ever unlocks or waits
  without owning it.
\<close>

theorem critical_sections_exclusive:
  assumes "flag_progs progs" and "reaches (\<lambda>s. s = mon_start progs) mon_step s"
  shows "(\<forall>i < length progs. \<forall>j < length progs. in_section (code_at s i) \<longrightarrow> in_section (code_at s j) \<longrightarrow> i = j) \<and>
    (\<forall>i < length progs. in_section (code_at s i) \<longrightarrow> mn_owner s = Some i) \<and>
    (\<forall>i e. thread_step i s \<noteq> Some (Inl e))"
proof -
  note inv = reaches_mon_inv [OF assms]
  have o: "mn_owner s = Some i" if "i < length progs" "in_section (code_at s i)" for i using inv that by (simp add: mon_inv_def)
  have "i = j" if "i < length progs" "j < length progs" "in_section (code_at s i)" "in_section (code_at s j)" for i j
    using o [OF that(1,3)] o [OF that(2,4)] by simp
  with o thread_step_inv [OF assms(1) inv] show ?thesis by blast
qed

text \<open>Example: a thread in the section while another wants to enter it.\<close>

theorem critical_sections_exclusive_witness:
  "\<exists>s. mon_run [0, 1] (mon_start [shutdown_section, HandlerReplyFuture_wait]) = Some (Inr s) \<and> mn_owner s = Some 0 \<and>
     in_section (code_at s 0)"
proof -
  let ?p = "[shutdown_section, HandlerReplyFuture_wait]"
  note d = mon_start_def thread_step_def set_code_def GASNetHSL_lock_def flag_codes
  obtain s1 s where s: "thread_step 0 (mon_start ?p) = Some (Inr s1)" "thread_step 1 s1 = Some (Inr s)" "in_section (code_at s 0)"
    by (simp add: d in_section_def)
  have "reaches (\<lambda>s. s = mon_start ?p) mon_step (mon_start ?p)" by (rule reaches_init) simp
  then have "reaches (\<lambda>s. s = mon_start ?p) mon_step s1" by (rule reaches_step) (rule mon_thread [OF s(1)])
  then have "reaches (\<lambda>s. s = mon_start ?p) mon_step s" by (rule reaches_step) (rule mon_thread [OF s(2)])
  from critical_sections_exclusive [OF _ this] s show ?thesis by (auto simp: flag_progs_def)
qed

text \<open>
  C28. Nobody waits for ever for a flag that is set: whenever one of the threads sets it and broadcasts, a
  schedule without wake-ups without reason takes only a bounded number of steps from any reachable state, and when no
  thread can go on every thread has returned, so no wake-up is lost between the test of the
  flag and the sleep.
\<close>

theorem flag_waits_return:
  assumes "flag_progs progs" and "reaches (\<lambda>s. s = mon_start progs) mon_step s"
    and "HandlerReplyFuture_set \<in> set progs \<or> shutdown_section \<in> set progs" and "mon_run sched s = Some r"
  shows "\<exists>t. r = Inr t \<and> length sched \<le> mon_work s \<and>
    ((\<forall>i. thread_step i t = None) \<longrightarrow> (\<forall>i < length progs. code_at t i = [] \<and> \<not> asleep_at t i))"
proof -
  from mon_run_inv [OF assms(1) reaches_mon_inv [OF assms(1,2)] assms(4)] obtain t where
    t: "r = Inr t" "mon_inv progs t" "mon_work t + length sched \<le> mon_work s" by blast
  have "HandlerReplyFuture_set = shutdown_section" by (simp add: flag_codes)
  with assms(3) have "HandlerReplyFuture_set \<in> set progs" by auto
  then obtain k where "k < length progs" "progs ! k = HandlerReplyFuture_set" unfolding in_set_conv_nth by blast
  then have k: "k < length progs" "Set_Flag \<in> set (progs ! k)" by (simp_all add: HandlerReplyFuture_set_def)
  have "code_at t i = []" if "\<forall>i. thread_step i t = None" "i < length progs" for i
    using someone_can_step [OF assms(1) t(2) k that(2)] that(1) by auto
  moreover have "\<not> asleep_at t i" if "code_at t i = []" "i < length progs" for i using t(2) that by (auto simp: mon_inv_def)
  ultimately show ?thesis using t by auto
qed

text \<open>Example: a thread goes to sleep, is woken by the broadcast and returns.\<close>

theorem flag_waits_return_witness:
  "\<exists>t. mon_run [0, 0, 1, 1, 1, 1, 0, 0, 0] (mon_start [wait_section, shutdown_section]) = Some (Inr t) \<and>
     9 \<le> mon_work (mon_start [wait_section, shutdown_section]) \<and> code_at t 0 = [] \<and> code_at t 1 = []"
proof -
  let ?p = "[wait_section, shutdown_section]" and ?sched = "[0, 0, 1, 1, 1, 1, 0, 0, 0] :: nat list"
  note d = mon_start_def thread_step_def set_code_def GASNetHSL_lock_def GASNetHSL_unlock_def GASNetCondVar_wait_def
    GASNetCondVar_broadcast_def flag_codes
  obtain t where t: "mon_run ?sched (mon_start ?p) = Some (Inr t)" "mn_threads t = [\<lparr>th_code = [], th_asleep = False\<rparr>, \<lparr>th_code = [], th_asleep = False\<rparr>]"
    by (simp add: d)
  have none: "thread_step i t = None" for i by (cases i) (auto simp: thread_step_def t(2) less_Suc_eq)
  have "reaches (\<lambda>s. s = mon_start ?p) mon_step (mon_start ?p)" by (rule reaches_init) simp
  from flag_waits_return [OF _ this _ t(1)] t none show ?thesis by (auto simp: flag_progs_def)
qed

end
