(* ===== verification/Shutdown.thy ===== *)
theory Shutdown
  imports Legion_Prelude
begin

text \<open>
  Shutting the runtime down (\<^verbatim>\<open>runtime_impl.cc\<close>): a request on one node, perhaps deferred until an
  event triggers, is passed to every other node; a node filters out duplicates by counting the calls,
  starts the shutdown tasks of its processors and wakes the threads that wait.  The counter is a
  32-bit integer as in the code.  Locks and condition variables are not modelled: a step is one call.
\<close>

section \<open>State and operations\<close>

text \<open>
  The parts of \<^verbatim>\<open>RuntimeImpl\<close> the shutdown uses, with the static counter.  \<open>shutdown_tasks\<close>
  lists the processors a shutdown task has been spawned on.
\<close>

record runtime_node =
  shutdown_count :: "32 word"
  shutdown_requested :: bool
  shutdown_result_code :: int
  run_method_called :: bool
  local_procs :: "nat list"
  shutdown_tasks :: "nat list"

definition RuntimeImpl_construct :: "nat list \<Rightarrow> runtime_node" where
  "RuntimeImpl_construct procs =
     \<lparr>shutdown_count = 0, shutdown_requested = False, shutdown_result_code = 0, run_method_called = False,
      local_procs = procs, shutdown_tasks = []\<rparr>"

text \<open>\<^verbatim>\<open>RuntimeImpl::run\<close> asks for the shutdown tasks before it does anything else.\<close>

definition call_run :: "runtime_node \<Rightarrow> runtime_node" where
  "call_run rt = rt\<lparr>run_method_called := True\<rparr>"

text \<open>A shutdown message: target, initiating node, result code.\<close>

datatype shutdown_message = RuntimeShutdownMessage node_id node_id int

definition rt_shutdown ::
  "node_id \<Rightarrow> node_id \<Rightarrow> runtime_node \<Rightarrow> bool \<Rightarrow> int \<Rightarrow> runtime_node \<times> shutdown_message list" where
  "rt_shutdown my max_node_id rt local_request result_code =
     (let already_started = 0 <s shutdown_count rt;
          rt1 = rt\<lparr>shutdown_count := shutdown_count rt + 1\<rparr>
      in if already_started then (rt1, [])
         else
           let ms = (if local_request
                     then map (\<lambda>i. RuntimeShutdownMessage i my result_code) (filter (\<lambda>i. i \<noteq> my) [0 ..< Suc max_node_id])
                     else []);
               rt2 = (if run_method_called rt1 then rt1\<lparr>shutdown_tasks := shutdown_tasks rt1 @ local_procs rt1\<rparr> else rt1)
           in (rt2\<lparr>shutdown_requested := True, shutdown_result_code := result_code\<rparr>, ms))"

definition handle_shutdown_message ::
  "node_id \<Rightarrow> node_id \<Rightarrow> runtime_node \<Rightarrow> shutdown_message \<Rightarrow> runtime_node \<times> shutdown_message list" where
  "handle_shutdown_message my max_node_id rt msg =
     (case msg of RuntimeShutdownMessage target initiating_node result_code \<Rightarrow>
        rt_shutdown my max_node_id rt False result_code)"

text \<open>
  \<^verbatim>\<open>Runtime::shutdown\<close>: immediate when the event has triggered, otherwise a \<^verbatim>\<open>DeferredShutdown\<close>
  waits for it.  A poisoned event ends in an assertion.
\<close>

datatype DeferredShutdown = DeferredShutdown int

definition request_shutdown ::
  "node_id \<Rightarrow> node_id \<Rightarrow> runtime_node \<Rightarrow> bool \<Rightarrow> int \<Rightarrow>
     runtime_node \<times> shutdown_message list \<times> DeferredShutdown option" where
  "request_shutdown my max_node_id rt has_triggered result_code =
     (if has_triggered then let (rt', ms) = rt_shutdown my max_node_id rt True result_code in (rt', ms, None)
      else (rt, [], Some (DeferredShutdown result_code)))"

definition event_triggered ::
  "node_id \<Rightarrow> node_id \<Rightarrow> runtime_node \<Rightarrow> DeferredShutdown \<Rightarrow> bool \<Rightarrow>
     (runtime_node \<times> shutdown_message list) outcome" where
  "event_triggered my max_node_id rt d poisoned =
     (if poisoned then Inl Assert_Failed
      else case d of DeferredShutdown result_code \<Rightarrow> Inr (rt_shutdown my max_node_id rt True result_code))"

section \<open>The machine\<close>

text \<open>
  All nodes, the messages under way and the deferred requests.  An event of a run is a request on a
  node, the trigger of a deferred request, or the delivery of a message; the latter two name an entry
  by its position, since messages and events come in any order.
\<close>

record machine =
  mc_nodes :: "node_id \<Rightarrow> runtime_node"
  mc_net :: "shutdown_message list"
  mc_waiters :: "(node_id \<times> DeferredShutdown) list"

datatype shutdown_event = Request node_id bool int | Trigger nat | Deliver nat

definition without :: "nat \<Rightarrow> 'a list \<Rightarrow> 'a list" where
  "without i xs = take i xs @ drop (Suc i) xs"

definition machine_step :: "node_id \<Rightarrow> machine \<Rightarrow> shutdown_event \<Rightarrow> machine outcome" where
  "machine_step mx s e =
     (case e of
        Request n trig code \<Rightarrow>
          let (rt, ms, d) = request_shutdown n mx (mc_nodes s n) trig code
          in Inr (s\<lparr>mc_nodes := (mc_nodes s)(n := rt), mc_net := mc_net s @ ms,
                    mc_waiters := mc_waiters s @ (case d of None \<Rightarrow> [] | Some d \<Rightarrow> [(n, d)])\<rparr>)
      | Trigger i \<Rightarrow>
          if i < length (mc_waiters s) then
            let (n, d) = mc_waiters s ! i
            in obind (event_triggered n mx (mc_nodes s n) d False) (\<lambda>(rt, ms).
                 Inr (s\<lparr>mc_nodes := (mc_nodes s)(n := rt), mc_net := mc_net s @ ms,
                        mc_waiters := without i (mc_waiters s)\<rparr>))
          else Inr s
      | Deliver i \<Rightarrow>
          if i < length (mc_net s) then
            case mc_net s ! i of RuntimeShutdownMessage n initiating_node code \<Rightarrow>
              let (rt, ms) = handle_shutdown_message n mx (mc_nodes s n) (mc_net s ! i)
              in Inr (s\<lparr>mc_nodes := (mc_nodes s)(n := rt), mc_net := without i (mc_net s) @ ms\<rparr>)
          else Inr s)"

fun machine_run :: "node_id \<Rightarrow> machine \<Rightarrow> shutdown_event list \<Rightarrow> machine outcome" where
  "machine_run mx s [] = Inr s"
| "machine_run mx s (e # es) = obind (machine_step mx s e) (\<lambda>s'. machine_run mx s' es)"

definition machine_start :: "(node_id \<Rightarrow> bool) \<Rightarrow> (node_id \<Rightarrow> nat list) \<Rightarrow> machine" where
  "machine_start run procs =
     \<lparr>mc_nodes = (\<lambda>n. if run n then call_run (RuntimeImpl_construct (procs n)) else RuntimeImpl_construct (procs n)),
      mc_net = [], mc_waiters = []\<rparr>"

fun event_ok :: "node_id \<Rightarrow> shutdown_event \<Rightarrow> bool" where
  "event_ok mx (Request n trig code) = (n \<le> mx)"
| "event_ok mx e = True"

fun codes_of :: "shutdown_event list \<Rightarrow> int set" where
  "codes_of [] = {}"
| "codes_of (Request n trig code # es) = insert code (codes_of es)"
| "codes_of (e # es) = codes_of es"

text \<open>
  \<^verbatim>\<open>RuntimeImpl::wait_for_shutdown\<close> on node \<open>n\<close>: the thread sleeps until the node is asked to shut
  down and then waits in a barrier for all nodes; \<open>None\<close> while it waits.  The result is the steps of
  the teardown in their order and the code returned; \<open>cleanup_ok\<close> is the answer of
  \<^verbatim>\<open>Threading::cleanup\<close>, and the process exits when it is false.
\<close>

datatype teardown =
    Stop_Partitioning | Stop_DMA_Workers | Stop_DMA_System | Stop_ActiveMsg | Stop_Profiler
  | Shutdown_Processor nat | Cleanup_Query_Caches | Delete_Node node_id | Delete_Globals
  | Delete_Code_Translators | Cleanup_Module nat | Unload_Modules | Threading_Cleanup | Unregister_Signals

definition teardown_steps :: "node_id \<Rightarrow> nat list \<Rightarrow> nat list \<Rightarrow> teardown list" where
  "teardown_steps max_node_id procs modules =
     [Stop_Partitioning, Stop_DMA_Workers, Stop_DMA_System, Stop_ActiveMsg, Stop_Profiler] @
     map Shutdown_Processor procs @ [Cleanup_Query_Caches] @
     map Delete_Node [0 ..< Suc max_node_id] @ [Delete_Globals, Delete_Code_Translators] @
     map Cleanup_Module modules @ [Unload_Modules]"

definition wait_for_shutdown ::
  "node_id \<Rightarrow> machine \<Rightarrow> bool \<Rightarrow> nat list \<Rightarrow> node_id \<Rightarrow> (teardown list \<times> int) outcome option" where
  "wait_for_shutdown mx s cleanup_ok modules n =
     (if \<not> shutdown_requested (mc_nodes s n) then None
      else if \<not> (\<forall>i \<in> {0..mx}. shutdown_requested (mc_nodes s i)) then None
      else
        let td = teardown_steps mx (local_procs (mc_nodes s n)) modules @ [Threading_Cleanup]
        in if \<not> cleanup_ok then Some (Inl (Exit_Process 1))
           else Some (Inr (td @ [Unregister_Signals], shutdown_result_code (mc_nodes s n))))"

text \<open>
  The end of \<^verbatim>\<open>RuntimeImpl::run\<close>: in the background it returns at once, otherwise it waits for the
  shutdown and exits with the result.
\<close>

definition run_end ::
  "node_id \<Rightarrow> machine \<Rightarrow> bool \<Rightarrow> bool \<Rightarrow> nat list \<Rightarrow> node_id \<Rightarrow> unit outcome option" where
  "run_end mx s background cleanup_ok modules n =
     (if background then Some (Inr ())
      else case wait_for_shutdown mx s cleanup_ok modules n of
             None \<Rightarrow> None
           | Some (Inl e) \<Rightarrow> Some (Inl e)
           | Some (Inr (_, result)) \<Rightarrow> Some (Inl (Exit_Process result)))"

section \<open>Invariant\<close>

lemma started_iff:
  assumes "unat (c :: 32 word) < 2 ^ 31"
  shows "0 <s c \<longleftrightarrow> c \<noteq> 0"
proof -
  have "uint c < 2 ^ 31" using assms by (metis of_nat_less_iff of_nat_numeral of_nat_power of_nat_unat)
  then have "signed_take_bit 31 (uint c) = uint c" using uint_ge_0 [of c] by (intro signed_take_bit_int_eq_self) linarith+
  then have "sint c = uint c" by (simp add: sint_uint)
  then show ?thesis by (simp add: word_sless_alt uint_0_iff order_less_le)
qed

text \<open>
  \<open>node_ok k rt\<close>: at most \<open>k\<close> calls so far, the flag is set from the first call on, and by then every
  local processor has one shutdown task if the runtime was started by \<^verbatim>\<open>run\<close>.
\<close>

definition node_ok :: "nat \<Rightarrow> runtime_node \<Rightarrow> bool" where
  "node_ok k rt \<longleftrightarrow> unat (shutdown_count rt) \<le> k \<and> (shutdown_requested rt \<longleftrightarrow> shutdown_count rt \<noteq> 0) \<and>
     shutdown_tasks rt = (if shutdown_requested rt \<and> run_method_called rt then local_procs rt else [])"

lemma node_ok_mono: "node_ok k rt \<Longrightarrow> k \<le> k' \<Longrightarrow> node_ok k' rt"
  by (auto simp: node_ok_def)

lemma rt_shutdown_cases:
  assumes "rt_shutdown my mx rt lr code = (rt', ms)" and "node_ok k rt" and "Suc k < 2 ^ 31"
  obtains (again) "shutdown_requested rt" "rt' = rt\<lparr>shutdown_count := shutdown_count rt + 1\<rparr>" "ms = []" "node_ok (Suc k) rt'"
  | (start) "\<not> shutdown_requested rt" "shutdown_requested rt'" "shutdown_result_code rt' = code" "node_ok (Suc k) rt'"
      "local_procs rt' = local_procs rt" "run_method_called rt' = run_method_called rt"
      "ms = (if lr then map (\<lambda>i. RuntimeShutdownMessage i my code) (filter (\<lambda>i. i \<noteq> my) [0 ..< Suc mx]) else [])"
proof -
  have c: "unat (shutdown_count rt) < 2 ^ 31" using assms(2,3) by (simp add: node_ok_def)
  have s: "0 <s shutdown_count rt \<longleftrightarrow> shutdown_requested rt" using started_iff [OF c] assms(2) by (simp add: node_ok_def)
  have u: "unat (shutdown_count rt + 1) = Suc (unat (shutdown_count rt))" using c by (simp add: unat_word_ariths)
  then have "shutdown_count rt + 1 \<noteq> 0" by (metis nat.distinct(1) unat_0)
  then show ?thesis
    using assms(1,2) u s again start
    by (cases "shutdown_requested rt") (auto simp: rt_shutdown_def Let_def node_ok_def)
qed

definition msg_target :: "shutdown_message \<Rightarrow> node_id" where
  "msg_target m = (case m of RuntimeShutdownMessage t i c \<Rightarrow> t)"

definition msg_code :: "shutdown_message \<Rightarrow> int" where
  "msg_code m = (case m of RuntimeShutdownMessage t i c \<Rightarrow> c)"

lemma msg_simps [simp]:
  "msg_target (RuntimeShutdownMessage t i c) = t" "msg_code (RuntimeShutdownMessage t i c) = c"
  by (simp_all add: msg_target_def msg_code_def)

text \<open>
  \<open>shut_inv\<close>: messages and waiting requests carry codes somebody asked for, and once a node has
  started to shut down every other node has started too or has a message under way.
\<close>

definition spread :: "node_id \<Rightarrow> machine \<Rightarrow> bool" where
  "spread mx s \<longleftrightarrow> (\<forall>m \<le> mx. shutdown_requested (mc_nodes s m) \<or> m \<in> msg_target ` set (mc_net s))"

definition shut_inv :: "node_id \<Rightarrow> nat \<Rightarrow> int set \<Rightarrow> machine \<Rightarrow> bool" where
  "shut_inv mx k C s \<longleftrightarrow>
     (\<forall>n. node_ok k (mc_nodes s n)) \<and>
     (\<forall>n. shutdown_requested (mc_nodes s n) \<longrightarrow> shutdown_result_code (mc_nodes s n) \<in> C) \<and>
     (\<forall>m \<in> set (mc_net s). msg_target m \<le> mx \<and> msg_code m \<in> C) \<and>
     (\<forall>w \<in> set (mc_waiters s). fst w \<le> mx \<and> (case snd w of DeferredShutdown c \<Rightarrow> c \<in> C)) \<and>
     (mc_net s \<noteq> [] \<or> (\<exists>n. shutdown_requested (mc_nodes s n)) \<longrightarrow> spread mx s)"

lemma set_without: "i < length xs \<Longrightarrow> set xs = insert (xs ! i) (set (without i xs))"
  by (subst id_take_nth_drop) (auto simp: without_def)

text \<open>One call on one node, whatever led to it, keeps the invariant.\<close>

lemma shut_inv_call:
  assumes "shut_inv mx k C s" and "Suc k < 2 ^ 31" and "rt_shutdown n mx (mc_nodes s n) lr code = (rt, ms)"
    and "code \<in> C" and net: "set net \<subseteq> set (mc_net s)" "msg_target ` set (mc_net s) \<subseteq> insert n (msg_target ` set net)"
    and "set ws \<subseteq> set (mc_waiters s)" and "lr \<or> mc_net s \<noteq> []"
  shows "shut_inv mx (Suc k) C (s\<lparr>mc_nodes := (mc_nodes s)(n := rt), mc_net := net @ ms, mc_waiters := ws\<rparr>)"
proof -
  have ok: "node_ok k (mc_nodes s j)" "node_ok (Suc k) (mc_nodes s j)" for j
    using assms(1) node_ok_mono [of k _ "Suc k"] by (simp_all add: shut_inv_def)
  have old: "shutdown_requested (mc_nodes s j) \<Longrightarrow> shutdown_result_code (mc_nodes s j) \<in> C" for j
    using assms(1) by (simp add: shut_inv_def)
  from assms(3) ok(1) assms(2)
  have new: "node_ok (Suc k) rt \<and> shutdown_requested rt \<and> shutdown_result_code rt \<in> C \<and>
      (\<forall>m \<in> set ms. msg_target m \<le> mx \<and> msg_code m \<in> C) \<and>
      (shutdown_requested (mc_nodes s n) \<or> ({0..mx} - {n} \<subseteq> msg_target ` set ms \<or> \<not> lr))"
  proof (cases rule: rt_shutdown_cases)
    case again
    then show ?thesis using old [of n] by simp
  next
    case start
    have "set ms = (if lr then (\<lambda>i. RuntimeShutdownMessage i n code) ` ({0..mx} - {n}) else {})"
      using start(7) by (auto simp del: upt_Suc)
    then have "msg_target ` set ms = (if lr then {0..mx} - {n} else {})" "\<forall>m \<in> set ms. msg_target m \<le> mx \<and> msg_code m = code"
      by (simp_all add: image_image)
    then show ?thesis using start assms(4) by simp
  qed
  let ?s = "s\<lparr>mc_nodes := (mc_nodes s)(n := rt), mc_net := net @ ms, mc_waiters := ws\<rparr>"
  have "shutdown_requested (((mc_nodes s)(n := rt)) j) \<or> j \<in> msg_target ` set (net @ ms)" if "j \<le> mx" for j
  proof (cases "j = n \<or> j \<in> msg_target ` set ms")
    case False
    with new that have "shutdown_requested (mc_nodes s n) \<or> \<not> lr" by auto
    with assms(1,8) have "spread mx s" by (auto simp: shut_inv_def)
    with that have "shutdown_requested (mc_nodes s j) \<or> j \<in> msg_target ` set (mc_net s)" by (simp add: spread_def)
    with False net(2) show ?thesis by (auto simp: image_Un)
  qed (use new in auto)
  then have "spread mx ?s" by (simp add: spread_def)
  moreover have "\<forall>m \<in> set (net @ ms). msg_target m \<le> mx \<and> msg_code m \<in> C"
    using new net(1) assms(1) unfolding shut_inv_def by (simp add: ball_Un) blast
  moreover have "\<forall>w \<in> set ws. fst w \<le> mx \<and> (case snd w of DeferredShutdown c \<Rightarrow> c \<in> C)"
    using assms(1,7) unfolding shut_inv_def by blast
  ultimately show ?thesis using new ok(2) old by (simp add: shut_inv_def)
qed

lemma shut_inv_step:
  assumes "machine_step mx s e = Inr s'" and "shut_inv mx k C s" and "Suc k < 2 ^ 31" and "event_ok mx e" and "codes_of [e] \<subseteq> C"
  shows "shut_inv mx (Suc k) C s'"
proof (cases e)
  case (Request n trig code)
  show ?thesis
  proof (cases trig)
    case True
    with Request assms(1) show ?thesis
      using shut_inv_call [OF assms(2,3) surjective_pairing, where lr = True and code = code and net = "mc_net s" and ws = "mc_waiters s" and n = n] assms(5)
      by (auto simp: machine_step_def request_shutdown_def split: prod.splits)
  next
    case False
    then have s': "s' = s\<lparr>mc_waiters := mc_waiters s @ [(n, DeferredShutdown code)]\<rparr>"
      using Request assms(1) by (simp add: machine_step_def request_shutdown_def)
    have "node_ok (Suc k) (mc_nodes s j)" for j using assms(2) node_ok_mono [of k _ "Suc k"] by (simp add: shut_inv_def)
    then show ?thesis using assms(2,4,5) Request by (auto simp: s' shut_inv_def spread_def)
  qed
next
  case (Trigger i)
  show ?thesis
  proof (cases "i < length (mc_waiters s)")
    case True
    obtain n c where w: "mc_waiters s ! i = (n, DeferredShutdown c)" by (metis DeferredShutdown.exhaust surj_pair)
    have "c \<in> C" using assms(2) True w nth_mem [OF True] unfolding shut_inv_def by force
    moreover have "set (without i (mc_waiters s)) \<subseteq> set (mc_waiters s)" using set_without [OF True] by blast
    ultimately show ?thesis
      using shut_inv_call [OF assms(2,3) surjective_pairing, where lr = True and code = c and net = "mc_net s" and ws = "without i (mc_waiters s)" and n = n]
        assms(1) Trigger True w
      by (auto simp: machine_step_def event_triggered_def split: prod.splits)
  qed (use Trigger assms node_ok_mono [of k _ "Suc k"] in \<open>auto simp: machine_step_def shut_inv_def spread_def\<close>)
next
  case (Deliver i)
  show ?thesis
  proof (cases "i < length (mc_net s)")
    case True
    obtain n j c where w: "mc_net s ! i = RuntimeShutdownMessage n j c" by (metis shutdown_message.exhaust)
    have "c \<in> C" using assms(2) w nth_mem [OF True] unfolding shut_inv_def by force
    moreover have "set (mc_net s) = insert (RuntimeShutdownMessage n j c) (set (without i (mc_net s)))" using set_without [OF True] w by simp
    moreover have "mc_net s \<noteq> []" using True by auto
    moreover have "s' = s\<lparr>mc_nodes := (mc_nodes s)(n := fst (rt_shutdown n mx (mc_nodes s n) False c)),
        mc_net := without i (mc_net s) @ snd (rt_shutdown n mx (mc_nodes s n) False c), mc_waiters := mc_waiters s\<rparr>"
      using assms(1) Deliver True w by (simp add: machine_step_def handle_shutdown_message_def split: prod.splits)
    ultimately show ?thesis
      using shut_inv_call [OF assms(2,3) surjective_pairing, where lr = False and code = c and net = "without i (mc_net s)" and ws = "mc_waiters s" and n = n]
      by auto
  qed (use Deliver assms node_ok_mono [of k _ "Suc k"] in \<open>auto simp: machine_step_def shut_inv_def spread_def\<close>)
qed

lemma codes_of_Cons: "codes_of (e # es) = codes_of [e] \<union> codes_of es"
  by (cases e) auto

lemma shut_inv_run:
  assumes "machine_run mx s es = Inr s'" and "shut_inv mx k C s" and "k + length es < 2 ^ 31"
    and "\<forall>e \<in> set es. event_ok mx e" and "codes_of es \<subseteq> C"
  shows "shut_inv mx (k + length es) C s'"
  using assms
proof (induction es arbitrary: s k)
  case (Cons e es)
  then obtain s1 where s1: "machine_step mx s e = Inr s1" "machine_run mx s1 es = Inr s'" by auto
  have "codes_of [e] \<subseteq> C" "codes_of es \<subseteq> C" using Cons.prems(5) codes_of_Cons [of e es] by auto
  with shut_inv_step [OF s1(1) Cons.prems(2)] Cons.IH [OF s1(2), of "Suc k"] Cons.prems(3,4) show ?case by simp
qed simp

lemma shut_inv_start: "shut_inv mx 0 C (machine_start run procs)"
  by (simp add: shut_inv_def machine_start_def call_run_def RuntimeImpl_construct_def node_ok_def)

text \<open>A node that has started only counts further calls.\<close>

definition same_shutdown :: "runtime_node \<Rightarrow> runtime_node \<Rightarrow> bool" where
  "same_shutdown rt rt' \<longleftrightarrow> run_method_called rt' = run_method_called rt \<and> local_procs rt' = local_procs rt \<and>
     (shutdown_requested rt \<longrightarrow> shutdown_requested rt' \<and> shutdown_result_code rt' = shutdown_result_code rt \<and>
        shutdown_tasks rt' = shutdown_tasks rt)"

lemma same_shutdown_refl: "same_shutdown rt rt"
  by (simp add: same_shutdown_def)

lemma same_shutdown_trans: "same_shutdown a b \<Longrightarrow> same_shutdown b c \<Longrightarrow> same_shutdown a c"
  by (auto simp: same_shutdown_def)

lemma rt_shutdown_same:
  assumes "node_ok k rt" and "Suc k < 2 ^ 31"
  shows "same_shutdown rt (fst (rt_shutdown my mx rt lr code))"
  using surjective_pairing assms
  by (rule rt_shutdown_cases [of my mx rt lr code]) (simp_all add: same_shutdown_def)

lemma machine_step_same:
  assumes "machine_step mx s e = Inr s'" and "\<forall>n. node_ok k (mc_nodes s n)" and "Suc k < 2 ^ 31"
  shows "same_shutdown (mc_nodes s n) (mc_nodes s' n)"
proof -
  note rt = rt_shutdown_same [OF spec [OF assms(2)] assms(3)]
  have "mc_nodes s' = mc_nodes s \<or> (\<exists>m lr c. mc_nodes s' = (mc_nodes s)(m := fst (rt_shutdown m mx (mc_nodes s m) lr c)))"
    using assms(1)
    by (auto simp: machine_step_def request_shutdown_def event_triggered_def handle_shutdown_message_def
        split: shutdown_event.splits if_splits prod.splits shutdown_message.splits DeferredShutdown.splits) (metis fst_conv)+
  then show ?thesis using rt by (auto simp: same_shutdown_refl)
qed

lemma machine_run_same:
  assumes "machine_run mx s es = Inr s'" and "shut_inv mx k C s" and "k + length es < 2 ^ 31"
    and "\<forall>e \<in> set es. event_ok mx e" and "codes_of es \<subseteq> C"
  shows "same_shutdown (mc_nodes s n) (mc_nodes s' n)"
  using assms
proof (induction es arbitrary: s k)
  case (Cons e es)
  then obtain s1 where s1: "machine_step mx s e = Inr s1" "machine_run mx s1 es = Inr s'" by auto
  have c: "codes_of [e] \<subseteq> C" "codes_of es \<subseteq> C" using Cons.prems(5) codes_of_Cons [of e es] by auto
  have "shut_inv mx (Suc k) C s1" using shut_inv_step [OF s1(1) Cons.prems(2)] Cons.prems(3,4) c(1) by simp
  then have "same_shutdown (mc_nodes s1 n) (mc_nodes s' n)" using Cons.IH [OF s1(2)] Cons.prems(3,4) c(2) by simp
  moreover have "same_shutdown (mc_nodes s n) (mc_nodes s1 n)"
    using machine_step_same [OF s1(1), of k n] Cons.prems(2,3) by (simp add: shut_inv_def)
  ultimately show ?case by (rule same_shutdown_trans [rotated])
qed (simp add: same_shutdown_refl)

lemma machine_run_total: "\<exists>s'. machine_run mx s es = Inr s'"
proof (induction es arbitrary: s)
  case (Cons e es)
  have "\<exists>s1. machine_step mx s e = Inr s1"
    by (auto simp: machine_step_def event_triggered_def Let_def
        split: shutdown_event.splits prod.splits shutdown_message.splits DeferredShutdown.splits)
  with Cons show ?case by auto
qed simp

section \<open>Properties\<close>

text \<open>
  C15. Shutdown reaches everybody.  However requests, triggers of deferred requests and deliveries
  interleave, once one node has started to shut down and no message is left in the network, the wait
  of every node ends (nobody is left behind in the barrier) and returns a code some request asked
  for, with which a process that runs in the foreground exits; and with the teardown every processor is shut down once.  Fewer than two to the power of 31
  events take place, so the counter of calls does not wrap.
\<close>

theorem shutdown_reaches_all:
  assumes "machine_run mx (machine_start run procs) es = Inr s" and "length es < 2 ^ 31"
    and "\<forall>e \<in> set es. event_ok mx e" and "mc_net s = []" and "shutdown_requested (mc_nodes s n)" and "i \<le> mx"
  shows "\<exists>code td. wait_for_shutdown mx s True modules i = Some (Inr (td, code)) \<and> code \<in> codes_of es \<and>
    run_end mx s False True modules i = Some (Inl (Exit_Process code)) \<and>
    filter (\<lambda>t. \<exists>p. t = Shutdown_Processor p) td = map Shutdown_Processor (procs i) \<and>
    shutdown_tasks (mc_nodes s i) = (if run i then procs i else [])"
proof -
  have inv: "shut_inv mx (length es) (codes_of es) s"
    using shut_inv_run [OF assms(1) shut_inv_start] assms(2,3) by simp
  have "spread mx s" using inv assms(5) unfolding shut_inv_def by blast
  then have all: "\<forall>j \<in> {0..mx}. shutdown_requested (mc_nodes s j)" using assms(4) by (simp add: spread_def)
  have same: "same_shutdown (mc_nodes (machine_start run procs) i) (mc_nodes s i)"
    using machine_run_same [OF assms(1) shut_inv_start [where C = "codes_of es"]] assms(2,3) by simp
  then have c: "run_method_called (mc_nodes s i) = run i" "local_procs (mc_nodes s i) = procs i"
    by (simp_all add: same_shutdown_def machine_start_def call_run_def RuntimeImpl_construct_def)
  have r: "shutdown_requested (mc_nodes s i)" using all assms(6) by simp
  then have "shutdown_result_code (mc_nodes s i) \<in> codes_of es" "shutdown_tasks (mc_nodes s i) = (if run i then procs i else [])"
    using inv c by (simp_all add: shut_inv_def node_ok_def)
  moreover have "filter (\<lambda>t. \<exists>p. t = Shutdown_Processor p)
      (teardown_steps mx (procs i) modules @ [Threading_Cleanup, Unregister_Signals]) = map Shutdown_Processor (procs i)"
    by (simp add: teardown_steps_def filter_map comp_def del: upt_Suc)
  ultimately show ?thesis using all r c by (simp add: run_end_def wait_for_shutdown_def)
qed

theorem shutdown_reaches_all_witness:
  "let s = projr (machine_run 1 (machine_start (\<lambda>_. True) (\<lambda>n. [10 * n, 10 * n + 1])) [Request 1 False 7, Trigger 0, Deliver 0])
   in \<exists>code td. wait_for_shutdown 1 s True [] 0 = Some (Inr (td, code)) \<and> code \<in> {7} \<and> shutdown_tasks (mc_nodes s 0) = [0, 1]"
proof -
  let ?es = "[Request 1 False 7, Trigger 0, Deliver 0]"
  let ?st = "machine_start (\<lambda>_. True) (\<lambda>n. [10 * n, 10 * n + 1])"
  obtain s where s: "machine_run 1 ?st ?es = Inr s" using machine_run_total by blast
  then have "mc_net s = [] \<and> shutdown_requested (mc_nodes s 1)"
    by (auto simp: machine_start_def call_run_def RuntimeImpl_construct_def machine_step_def request_shutdown_def event_triggered_def
        handle_shutdown_message_def rt_shutdown_def without_def upt_rec Let_def)
  then have "\<exists>code td. wait_for_shutdown 1 s True [] 0 = Some (Inr (td, code)) \<and> code \<in> codes_of ?es \<and>
      run_end 1 s False True [] 0 = Some (Inl (Exit_Process code)) \<and>
      filter (\<lambda>t. \<exists>p. t = Shutdown_Processor p) td = map Shutdown_Processor [10 * 0, 10 * 0 + 1] \<and>
      shutdown_tasks (mc_nodes s 0) = (if True then [10 * 0, 10 * 0 + 1] else [])"
    using shutdown_reaches_all [OF s, of 1 0 "[]"] by simp
  then show ?thesis by (simp only: s sum.sel Let_def) auto
qed

text \<open>
  C14. The first call decides.  Once a node has started to shut down, later requests and messages,
  duplicates included, change neither its result code nor the shutdown tasks it has spawned.
\<close>

theorem shutdown_first_call_wins:
  assumes "machine_run mx (machine_start run procs) es = Inr s" and "machine_run mx s es' = Inr s'"
    and "length es + length es' < 2 ^ 31" and "\<forall>e \<in> set (es @ es'). event_ok mx e" and "shutdown_requested (mc_nodes s n)"
  shows "shutdown_requested (mc_nodes s' n) \<and> shutdown_result_code (mc_nodes s' n) = shutdown_result_code (mc_nodes s n) \<and>
    shutdown_tasks (mc_nodes s' n) = shutdown_tasks (mc_nodes s n)"
proof -
  let ?C = "codes_of es \<union> codes_of es'"
  have "shut_inv mx (length es) ?C s"
    using shut_inv_run [OF assms(1) shut_inv_start, where C = ?C] assms(3,4) by simp
  from machine_run_same [OF assms(2) this, of n] assms(3-5) show ?thesis by (simp add: same_shutdown_def)
qed

theorem shutdown_first_call_wins_witness:
  "let s = projr (machine_run 1 (machine_start (\<lambda>_. True) (\<lambda>n. [n])) [Request 0 True 3, Request 1 True 4]);
       s' = projr (machine_run 1 s [Deliver 0, Deliver 0])
   in shutdown_result_code (mc_nodes s 0) = 3 \<and> shutdown_result_code (mc_nodes s 1) = 4 \<and>
      shutdown_result_code (mc_nodes s' 1) = 4 \<and> shutdown_tasks (mc_nodes s' 1) = [1]"
proof -
  let ?st = "machine_start (\<lambda>_. True) (\<lambda>n. [n])"
  obtain s where s: "machine_run 1 ?st [Request 0 True 3, Request 1 True 4] = Inr s" using machine_run_total by blast
  obtain s' where s': "machine_run 1 s [Deliver 0, Deliver 0] = Inr s'" using machine_run_total by blast
  from s have e: "shutdown_requested (mc_nodes s 1)" "shutdown_result_code (mc_nodes s 0) = 3"
      "shutdown_result_code (mc_nodes s 1) = 4" "shutdown_tasks (mc_nodes s 1) = [1]"
    by (auto simp: machine_start_def call_run_def RuntimeImpl_construct_def machine_step_def request_shutdown_def
        rt_shutdown_def upt_rec Let_def)
  with shutdown_first_call_wins [OF s s', of 1] have "shutdown_result_code (mc_nodes s' 1) = 4" "shutdown_tasks (mc_nodes s' 1) = [1]"
    by simp_all
  with e show ?thesis by (simp only: s s' sum.sel Let_def)
qed

end
