(* ===== verification/Reassembly.thy ===== *)
theory Reassembly
  imports Endpoint "HOL-Library.Multiset"
begin

text \<open>
  Reassembly of chunked messages (\<^verbatim>\<open>adjust_long_msgsize\<close>) on sequences of chunk arrivals: the
  chunks of several messages from one peer may arrive in any order and interleaved.
\<close>

section \<open>Reassembly\<close>

text \<open>
  Chunks as they arrive from one peer: message number, address and size.  \<open>arrive_all\<close> runs
  the reassembly over a sequence of them; \<open>chunks_of\<close> is the chunk count in the arguments of
  the messages with that number.
\<close>

fun arrive_all ::
  "(int \<Rightarrow> nat) \<Rightarrow> ActiveMessageEndpoint \<Rightarrow> (int \<times> addr \<times> nat) list \<Rightarrow>
     ActiveMessageEndpoint \<times> (int \<times> bool \<times> addr \<times> nat) list" where
  "arrive_all chunks_of ep [] = (ep, [])"
| "arrive_all chunks_of ep ((i, p, s) # xs) =
     (let (ep1, r) = ep_adjust_long_msgsize ep p s i (chunks_of i);
          (ep2, rs) = arrive_all chunks_of ep1 xs
      in (ep2, (i, r) # rs))"

definition arrivals_of :: "int \<Rightarrow> (int \<times> 'a) list \<Rightarrow> 'a list" where
  "arrivals_of i xs = map snd (filter (\<lambda>x. fst x = i) xs)"

definition seen_info :: "(addr \<times> nat) list \<Rightarrow> ChunkInfo option" where
  "seen_info zs = (if zs = [] then None
     else Some \<lparr>base_ptr = Min (set (map fst zs)), ci_chunks = length zs, ci_total_size = sum_list (map snd zs)\<rparr>)"

lemma arrivals_of_simps [simp]:
  "arrivals_of i [] = []"
  "arrivals_of i ((j, a) # xs) = (if j = i then a # arrivals_of i xs else arrivals_of i xs)"
  by (simp_all add: arrivals_of_def)

lemma adjust_frame:
  assumes "om_ok (observed_messages ep)" and "ep_adjust_long_msgsize ep p s j c = (ep', r)"
  shows "om_ok (observed_messages ep')" "i \<noteq> j \<Longrightarrow> map_of (observed_messages ep') i = map_of (observed_messages ep) i"
  using assms
  by (auto simp: ep_adjust_long_msgsize_def Let_def om_simps split: if_splits option.splits)

lemma adjust_chunk:
  assumes ok: "om_ok (observed_messages ep)" and c: "2 \<le> c" and len: "length zs < c"
    and seen: "map_of (observed_messages ep) i = seen_info zs"
    and a: "ep_adjust_long_msgsize ep p s i c = (ep', r)"
  shows "map_of (observed_messages ep') i = (if length zs + 1 = c then None else seen_info (zs @ [(p, s)]))"
    "r = (if length zs + 1 = c then (True, Min (set (map fst (zs @ [(p, s)]))), sum_list (map snd (zs @ [(p, s)])))
          else (False, p, s))"
proof -
  have "map_of (observed_messages ep') i = (if length zs + 1 = c then None else seen_info (zs @ [(p, s)])) \<and>
    r = (if length zs + 1 = c then (True, Min (set (map fst (zs @ [(p, s)]))), sum_list (map snd (zs @ [(p, s)])))
          else (False, p, s))"
  proof (cases "zs = []")
    case True
    with a c seen ok show ?thesis by (auto simp: ep_adjust_long_msgsize_def seen_info_def om_simps)
  next
    case False
    define mz where "mz = Min (set (map fst zs))"
    have mn: "Min (set (map fst (zs @ [(p, s)]))) = min p mz"
      using False unfolding mz_def by (simp add: Min_insert)
    from False seen have s: "map_of (observed_messages ep) i =
      Some \<lparr>base_ptr = mz, ci_chunks = length zs, ci_total_size = sum_list (map snd zs)\<rparr>"
      by (simp add: seen_info_def mz_def)
    have c1: "c \<noteq> 1" using c by simp
    show ?thesis
      using a s c1 ok unfolding mn seen_info_def
      by (auto simp: ep_adjust_long_msgsize_def Let_def om_simps min_def split: if_splits)
  qed
  then show "map_of (observed_messages ep') i = (if length zs + 1 = c then None else seen_info (zs @ [(p, s)]))"
    "r = (if length zs + 1 = c then (True, Min (set (map fst (zs @ [(p, s)]))), sum_list (map snd (zs @ [(p, s)])))
          else (False, p, s))" by auto
qed

lemma arrive_all_completes:
  assumes "om_ok (observed_messages ep)" and "2 \<le> chunks_of i" and "length zs < chunks_of i"
    and "map_of (observed_messages ep) i = seen_info zs"
    and "length zs + length (arrivals_of i xs) = chunks_of i"
    and "arrive_all chunks_of ep xs = (ep', rs)"
  shows "map_of (observed_messages ep') i = None \<and>
    arrivals_of i rs = map (Pair False) (butlast (arrivals_of i xs)) @
      [(True, Min (set (map fst (zs @ arrivals_of i xs))), sum_list (map snd (zs @ arrivals_of i xs)))]"
  using assms
proof (induction xs arbitrary: ep zs rs)
  case Nil
  then show ?case by simp
next
  case (Cons x xs)
  obtain j p s where x: "x = (j, p, s)" by (cases x)
  obtain ep1 r where a: "ep_adjust_long_msgsize ep p s j (chunks_of j) = (ep1, r)" by (metis surj_pair)
  obtain rs' where rest: "arrive_all chunks_of ep1 xs = (ep', rs')" "rs = (j, r) # rs'"
    using Cons.prems(6) by (auto simp: x a split: prod.splits)
  note ok1 = adjust_frame(1) [OF Cons.prems(1) a]
  show ?case
  proof (cases "j = i")
    case False
    with Cons.IH [OF ok1 Cons.prems(2,3) _ _ rest(1)] Cons.prems(4,5) adjust_frame(2) [OF Cons.prems(1) a, of i] rest(2)
    show ?thesis by (simp add: x)
  next
    case True
    note c = adjust_chunk [OF Cons.prems(1,2,3,4) a [unfolded True]]
    show ?thesis
    proof (cases "length zs + 1 = chunks_of i")
      case last: True
      from Cons.prems(5) True have "length zs + Suc (length (arrivals_of i xs)) = chunks_of i" by (simp add: x)
      also have "\<dots> = length zs + 1" using last by simp
      finally have none: "arrivals_of i xs = []" by simp
      have "map_of (observed_messages ep') i = None \<and> arrivals_of i rs' = []"
        using rest(1) none ok1 c(1) last
      proof (induction xs arbitrary: ep1 rs')
        case (Cons y ys)
        obtain k q t where y: "y = (k, q, t)" by (cases y)
        obtain ep2 r2 where b: "ep_adjust_long_msgsize ep1 q t k (chunks_of k) = (ep2, r2)" by (metis surj_pair)
        have k: "k \<noteq> i" "arrivals_of i ys = []" using Cons.prems(2) by (auto simp: y split: if_splits)
        obtain rs2 where r2: "arrive_all chunks_of ep2 ys = (ep', rs2)" "rs' = (k, r2) # rs2"
          using Cons.prems(1) by (auto simp: y b split: prod.splits)
        with Cons.IH [OF r2(1) k(2) adjust_frame(1) [OF Cons.prems(3) b]] adjust_frame(2) [OF Cons.prems(3) b, of i]
          k Cons.prems(4,5) show ?case by simp
      qed simp
      with c(2) last none True rest(2) show ?thesis by (simp add: x)
    next
      case more: False
      have l: "length (zs @ [(p, s)]) < chunks_of i" using more Cons.prems(3) by simp
      have ne: "arrivals_of i xs \<noteq> []" using Cons.prems(5) more True by (auto simp: x)
      from Cons.IH [OF ok1 Cons.prems(2) l _ _ rest(1)] c(1,2) more Cons.prems(5) True rest(2) ne
      show ?thesis by (simp add: x)
    qed
  qed
qed

lemma sum_chunk_sizes:
  assumes "0 < mx" and "0 < sz"
  shows "sum_list (map (chunk_size mx sz) [0 ..< long_chunks mx sz]) = sz"
proof -
  obtain n where n: "long_chunks mx sz = Suc n" using long_chunks_bounds(1) [OF assms] by (cases "long_chunks mx sz") auto
  have "map (chunk_size mx sz) [0 ..< n] = replicate n mx"
    by (rule nth_equalityI) (auto simp: chunk_size_def Let_def n)
  then have "sum_list (map (chunk_size mx sz) [0 ..< Suc n]) = n * mx + (sz - n * mx)"
    by (simp add: chunk_size_def Let_def n sum_list_replicate)
  with long_chunks_bounds(2) [OF assms] n show ?thesis by simp
qed

lemma chunk_spans:
  assumes "0 < mx" and "0 < sz"
    and "mset zs = mset (map (\<lambda>k. (dest + k * mx, chunk_size mx sz k)) [0 ..< long_chunks mx sz])"
  shows "length zs = long_chunks mx sz" "Min (set (map fst zs)) = dest" "sum_list (map snd zs) = sz"
proof -
  let ?cs = "map (\<lambda>k. (dest + k * mx, chunk_size mx sz k)) [0 ..< long_chunks mx sz]"
  show "length zs = long_chunks mx sz" using mset_eq_length [OF assms(3)] by simp
  have "set (map fst zs) = fst ` set ?cs" using mset_eq_setD [OF assms(3)] by simp
  also have "\<dots> = (\<lambda>k. dest + k * mx) ` {0 ..< long_chunks mx sz}"
    by (simp only: set_map image_image fst_conv set_upt)
  finally have "set (map fst zs) = (\<lambda>k. dest + k * mx) ` {0 ..< long_chunks mx sz}" .
  then have "Min (set (map fst zs)) = Min ((\<lambda>k. dest + k * mx) ` {0 ..< long_chunks mx sz})" by (simp only:)
  also have "\<dots> = dest"
    using long_chunks_bounds(1) [OF assms(1,2)] by (intro Min_eqI) (auto intro!: image_eqI [of _ _ 0])
  finally show "Min (set (map fst zs)) = dest" .
  have "mset (map snd zs) = mset (map snd ?cs)" using assms(3) by (metis mset_map)
  then have "sum_list (map snd zs) = sum_list (map snd ?cs)" by (metis sum_mset_sum_list)
  also have "\<dots> = sz" using sum_chunk_sizes [OF assms(1,2)] by (simp add: comp_def)
  finally show "sum_list (map snd zs) = sz" .
qed

section \<open>Property\<close>

text \<open>
  C11. Reassembly: when the chunks that \<^verbatim>\<open>send_long\<close> produces for one message arrive, in any
  order and interleaved with chunks of other messages, every call but the last reports that the
  message is incomplete and the last reports the address and the size of the whole payload; then
  the message number is free again.
\<close>

theorem reassembly_any_order:
  assumes "om_ok (observed_messages ep)" and "map_of (observed_messages ep) i = None"
    and "0 < mx" and "0 < sz" and "chunks_of i = long_chunks mx sz" and "2 \<le> long_chunks mx sz"
    and "mset (arrivals_of i xs) =
           mset (map (\<lambda>k. (dest + k * mx, chunk_size mx sz k)) [0 ..< long_chunks mx sz])"
    and "arrive_all chunks_of ep xs = (ep', rs)"
  shows "arrivals_of i rs = map (Pair False) (butlast (arrivals_of i xs)) @ [(True, dest, sz)] \<and>
     map_of (observed_messages ep') i = None"
proof -
  note spans = chunk_spans [OF assms(3,4,7)]
  with arrive_all_completes [of ep chunks_of i "[]" xs ep' rs] assms(1,2,5,6,8) show ?thesis
    by (simp add: seen_info_def)
qed

theorem reassembly_any_order_witness:
  "arrivals_of 7 (snd (arrive_all (\<lambda>i. if i = 7 then 2 else 3) (ActiveMessageEndpoint_construct
      \<lparr>num_lmbs = 0, lmb_size = 0, max_long_req = 8, max_medium = 0\<rparr> (\<lambda>_. \<lparr>seg_addr = 0, seg_size = 0\<rparr>) 0 1)
      [(7, 108, 2), (9, 300, 8), (7, 100, 8)])) = [(False, 108, 2), (True, 100, 10)]"
proof -
  let ?ep = "ActiveMessageEndpoint_construct
      \<lparr>num_lmbs = 0, lmb_size = 0, max_long_req = 8, max_medium = 0\<rparr> (\<lambda>_. \<lparr>seg_addr = 0, seg_size = 0\<rparr>) 0 1"
  let ?xs = "[(7, 108, 2), (9, 300, 8), (7, 100, 8)] :: (int \<times> addr \<times> nat) list"
  have n: "long_chunks 8 10 = 2" by (simp add: long_chunks_def)
  have "mset (arrivals_of 7 ?xs) = mset (map (\<lambda>k. (100 + k * 8, chunk_size 8 10 k)) [0 ..< long_chunks 8 10])"
    by (simp add: n chunk_size_def upt_rec)
  moreover obtain ep' rs where r: "arrive_all (\<lambda>i. if i = 7 then 2 else 3) ?ep ?xs = (ep', rs)" by (metis surj_pair)
  ultimately have "arrivals_of 7 rs = map (Pair False) (butlast (arrivals_of 7 ?xs)) @ [(True, 100, 10)]"
    using reassembly_any_order [of ?ep 7 8 10 "\<lambda>i. if i = 7 then 2 else 3" ?xs 100 ep' rs]
    by (simp add: n ActiveMessageEndpoint_construct_def del: arrive_all.simps)
  with r show ?thesis by (simp del: arrive_all.simps)
qed

end
