(* ===== verification/Segment_Layout.thy ===== *)
theory Segment_Layout
  imports Endpoint
begin

text \<open>
  \<^verbatim>\<open>init_endpoints\<close> of \<^verbatim>\<open>src/templates/activemsg.cc\<close>: the command-line options it reads, the
  table of message handlers, the size of the segment it attaches, and the place of the source data
  pool in it.  The command-line parser and GASNet are not part of the sources: the options arrive
  as a list of names with values, the segment table and the node numbers as arguments.  Sizes are
  64-bit words; the three memory sizes in megabytes are \<^verbatim>\<open>int\<close>, and the second time they are
  shifted the shift is done in 32 bits.
\<close>

section \<open>Options and handlers\<close>

record am_options =
  opt_num_lmbs :: nat
  opt_lmbsize_in_kb :: size_t
  opt_force_long :: bool
  opt_sdpsize_in_mb :: size_t
  opt_maxsend :: nat
  opt_spillwarn_in_mb :: size_t
  opt_spillstep_in_mb :: size_t
  opt_spillstall_in_mb :: size_t

definition default_options :: am_options where
  "default_options = \<lparr>opt_num_lmbs = 2, opt_lmbsize_in_kb = 0, opt_force_long = True, opt_sdpsize_in_mb = 64,
     opt_maxsend = 8, opt_spillwarn_in_mb = 0, opt_spillstep_in_mb = 0, opt_spillstall_in_mb = 0\<rparr>"

text \<open>The variable each option name is bound to.\<close>

definition set_option :: "string \<Rightarrow> nat \<Rightarrow> am_options \<Rightarrow> am_options" where
  "set_option nm v op =
     (if nm = ''-ll:numlmbs'' then op\<lparr>opt_num_lmbs := v\<rparr>
      else if nm = ''-ll:lmbsize'' then op\<lparr>opt_lmbsize_in_kb := of_nat v\<rparr>
      else if nm = ''-ll:forcelong'' then op\<lparr>opt_force_long := (v \<noteq> 0)\<rparr>
      else if nm = ''-ll:sdpsize'' then op\<lparr>opt_sdpsize_in_mb := of_nat v\<rparr>
      else if nm = ''-ll:maxsend'' then op\<lparr>opt_maxsend := v\<rparr>
      else if nm = ''-ll:spillwarn'' then op\<lparr>opt_spillwarn_in_mb := of_nat v\<rparr>
      else if nm = ''-ll:spillstep'' then op\<lparr>opt_spillstep_in_mb := of_nat v\<rparr>
      else if nm = ''-ll:spillstall'' then op\<lparr>opt_spillstep_in_mb := of_nat v\<rparr>
      else op)"

definition parse_options :: "(string \<times> nat) list \<Rightarrow> am_options" where
  "parse_options cmdline = fold (\<lambda>(nm, v). set_option nm v) cmdline default_options"

definition MAX_HANDLERS :: nat where
  "MAX_HANDLERS = 128"

definition add_handler_entry :: "nat list \<Rightarrow> nat \<Rightarrow> nat list outcome" where
  "add_handler_entry handlers mid =
     (if length handlers < MAX_HANDLERS then Inr (handlers @ [mid]) else Inl Assert_Failed)"

section \<open>Layout\<close>

record am_setup =
  su_num_lmbs :: nat
  su_lmb_size :: size_t
  su_total_lmb :: size_t
  su_attach_size :: size_t
  su_pool_base :: size_t
  su_pool_size :: size_t
  su_spill :: spill_config
  su_handlers :: "nat list"

definition mb_bytes :: "int \<Rightarrow> size_t" where
  "mb_bytes mb = push_bit 20 (of_int mb)"

definition mb_shift_int :: "int \<Rightarrow> size_t" where
  "mb_shift_int mb = scast (push_bit 20 (of_int mb :: 32 word))"

definition spill_setup :: "spill_config \<Rightarrow> am_options \<Rightarrow> spill_config" where
  "spill_setup sc op =
     (let sc1 = (if opt_spillwarn_in_mb op \<noteq> 0 then sc\<lparr>print_spill_threshold := push_bit 20 (opt_spillwarn_in_mb op)\<rparr> else sc);
          sc2 = (if opt_spillstep_in_mb op \<noteq> 0 then sc1\<lparr>print_spill_step := push_bit 20 (opt_spillstep_in_mb op)\<rparr> else sc1)
      in if opt_spillstall_in_mb op \<noteq> 0 then sc2\<lparr>max_spill_bytes := push_bit 20 (opt_spillstall_in_mb op)\<rparr> else sc2)"

definition init_endpoints ::
  "(string \<times> nat) list \<Rightarrow> nat \<Rightarrow> size_t \<Rightarrow> size_t \<Rightarrow> int \<Rightarrow> int \<Rightarrow> int \<Rightarrow> nat list \<Rightarrow> am_setup outcome" where
  "init_endpoints cmdline nodes saddr ssize gasnet_mb reg_mb reg_ib_mb handlers =
     (let op = parse_options cmdline;
          srcdatapool_size = push_bit 20 (opt_sdpsize_in_mb op);
          lmbsize = (if opt_lmbsize_in_kb op \<noteq> 0 then push_bit 10 (opt_lmbsize_in_kb op) else 2 ^ 20);
          total_lmb_size = of_nat nodes * of_nat (opt_num_lmbs op) * lmbsize;
          attach_size = mb_bytes gasnet_mb + mb_bytes reg_mb + mb_bytes reg_ib_mb + srcdatapool_size + total_lmb_size
      in if \<not> length handlers < MAX_HANDLERS - 3 then Inl Assert_Failed
         else
           let pool_base = saddr + mb_shift_int gasnet_mb + mb_shift_int reg_mb + mb_shift_int reg_ib_mb;
               my_segment = pool_base + srcdatapool_size + total_lmb_size
           in if my_segment \<le> saddr + ssize then
                Inr \<lparr>su_num_lmbs = opt_num_lmbs op, su_lmb_size = lmbsize, su_total_lmb = total_lmb_size,
                     su_attach_size = attach_size, su_pool_base = pool_base, su_pool_size = srcdatapool_size,
                     su_spill = spill_setup default_spill_config op,
                     su_handlers = handlers @ [MSGID_FLIP_REQ, MSGID_FLIP_ACK, MSGID_RELEASE_SRCPTR]\<rparr>
              else Inl Assert_Failed)"

section \<open>Lemmas\<close>

lemma set_option_spillstall: "opt_spillstall_in_mb (set_option nm v op) = opt_spillstall_in_mb op"
  by (simp add: set_option_def)

lemma parse_spillstall: "opt_spillstall_in_mb (parse_options cmdline) = 0"
proof -
  have "opt_spillstall_in_mb (fold (\<lambda>(nm, v). set_option nm v) cmdline op) = opt_spillstall_in_mb op" for op
    by (induction cmdline arbitrary: op) (auto simp: set_option_spillstall)
  then show ?thesis by (simp add: parse_options_def default_options_def)
qed

lemma mb_small:
  assumes "0 \<le> mb" and "mb < 2048"
  shows "mb_shift_int mb = mb_bytes mb" "unat (mb_bytes mb) = nat mb * 2 ^ 20"
proof -
  define n where "n = nat mb"
  have n: "mb = int n" "n < 2048" using assms by (auto simp: n_def)
  have "unat (of_nat (n * 2 ^ 20) :: size_t) = n * 2 ^ 20"
    using n(2) by (simp only: unsigned_of_nat) (simp add: take_bit_nat_eq_self)
  then have sz: "unat (of_nat n * 2 ^ 20 :: size_t) = n * 2 ^ 20" by simp
  have p: "(push_bit 20 (of_int mb) :: 32 word) = of_nat (n * 2 ^ 20)"
    by (simp add: n push_bit_eq_mult)
  have sc: "(scast (of_nat k :: 32 word) :: size_t) = of_nat k" if "k < 2 ^ 31" for k
  proof -
    have "sint (of_nat k :: 32 word) = int k"
      using that by (simp add: sint_uint signed_take_bit_int_eq_self unsigned_of_nat take_bit_nat_eq_self)
    then show ?thesis by (metis of_int_of_nat_eq of_int_sint scast_eq)
  qed
  have "mb_shift_int mb = of_nat (n * 2 ^ 20)"
    unfolding mb_shift_int_def p using n(2) by (intro sc) simp
  then show "mb_shift_int mb = mb_bytes mb"
    by (simp add: n mb_bytes_def push_bit_eq_mult)
  show "unat (mb_bytes mb) = nat mb * 2 ^ 20"
    using sz n by (simp add: mb_bytes_def push_bit_eq_mult)
qed

lemma unat_add_fits: "unat x + unat y < 2 ^ 64 \<Longrightarrow> unat (x + y) = unat x + unat y" for x y :: size_t
  using unat_add_lem [of x y] by simp

text \<open>The bytes of one buffer, by the option or one megabyte.\<close>

abbreviation lmb_bytes :: "am_options \<Rightarrow> size_t" where
  "lmb_bytes op \<equiv> (if opt_lmbsize_in_kb op \<noteq> 0 then push_bit 10 (opt_lmbsize_in_kb op) else 2 ^ 20)"

text \<open>When memories, pool and buffers fit into the segment, initialisation passes its assertions.\<close>

lemma init_endpoints_ok:
  assumes "0 \<le> g" "g < 2048" "0 \<le> r" "r < 2048" "0 \<le> ib" "ib < 2048" and "length hs < MAX_HANDLERS - 3"
    and "unat saddr + unat ssize < 2 ^ 64"
    and "(nat g + nat r + nat ib) * 2 ^ 20 + unat (push_bit 20 (opt_sdpsize_in_mb (parse_options cmdline))) +
      nodes * opt_num_lmbs (parse_options cmdline) * unat (lmb_bytes (parse_options cmdline)) \<le> unat ssize"
  shows "\<exists>su. init_endpoints cmdline nodes saddr ssize g r ib hs = Inr su \<and>
    su_handlers su = hs @ [MSGID_FLIP_REQ, MSGID_FLIP_ACK, MSGID_RELEASE_SRCPTR]"
proof -
  define op where "op = parse_options cmdline"
  define lmb where "lmb = lmb_bytes op"
  define total where "total = nodes * opt_num_lmbs op * unat lmb"
  define pool where "pool = push_bit 20 (opt_sdpsize_in_mb op)"
  define k where "k = [nat g * 2 ^ 20, nat r * 2 ^ 20, nat ib * 2 ^ 20]"
  note m = mb_small [OF assms(1,2)] mb_small [OF assms(3,4)] mb_small [OF assms(5,6)]
  have sum: "unat saddr + (k ! 0 + k ! 1 + k ! 2 + unat pool + total) \<le> unat saddr + unat ssize"
    using assms(9) unfolding op_def [symmetric] lmb_def [symmetric] pool_def [symmetric] total_def [symmetric]
    by (simp add: k_def add_mult_distrib)
  have t: "of_nat nodes * of_nat (opt_num_lmbs op) * lmb = (of_nat total :: size_t)" by (simp add: total_def)
  have ut: "unat (of_nat total :: size_t) = total" using sum assms(8) by (simp add: unsigned_of_nat take_bit_nat_eq_self)
  note a = unat_add_fits
  have 1: "unat (saddr + mb_bytes g) = unat saddr + k ! 0"
    using a [of saddr "mb_bytes g"] sum assms(8) by (simp add: k_def m)
  have 2: "unat (saddr + mb_bytes g + mb_bytes r) = unat saddr + k ! 0 + k ! 1"
    using a [of "saddr + mb_bytes g" "mb_bytes r"] sum assms(8) unfolding 1 by (simp add: k_def m)
  have 3: "unat (saddr + mb_bytes g + mb_bytes r + mb_bytes ib) = unat saddr + k ! 0 + k ! 1 + k ! 2"
    using a [of "saddr + mb_bytes g + mb_bytes r" "mb_bytes ib"] sum assms(8) unfolding 2 by (simp add: k_def m)
  have 4: "unat (saddr + mb_bytes g + mb_bytes r + mb_bytes ib + pool) = unat saddr + k ! 0 + k ! 1 + k ! 2 + unat pool"
    using a [of "saddr + mb_bytes g + mb_bytes r + mb_bytes ib" pool] sum assms(8) unfolding 3 by linarith
  have "unat (saddr + mb_bytes g + mb_bytes r + mb_bytes ib + pool + of_nat total) = unat saddr + k ! 0 + k ! 1 + k ! 2 + unat pool + total"
    using a [of "saddr + mb_bytes g + mb_bytes r + mb_bytes ib + pool" "of_nat total"] sum assms(8) unfolding 4 ut by linarith
  moreover have "unat (saddr + ssize) = unat saddr + unat ssize" using assms(8) by (rule a)
  ultimately have "saddr + mb_bytes g + mb_bytes r + mb_bytes ib + pool + of_nat total \<le> saddr + ssize"
    unfolding word_le_nat_alt using sum by linarith
  then show ?thesis
    using assms(7) unfolding init_endpoints_def Let_def op_def [symmetric] lmb_def [symmetric] pool_def [symmetric] t m by simp
qed

text \<open>Buffer addresses without wrap-around.\<close>

lemma lmb_base_eq:
  assumes "lmb_size cfg * (node * num_lmbs cfg + i + 1) \<le> sz" and "addr + sz < 2 ^ 64"
  shows "lmb_base cfg addr sz node i = addr + sz - lmb_size cfg * (node * num_lmbs cfg + i + 1)"
proof -
  let ?k = "lmb_size cfg * (node * num_lmbs cfg + i + 1)"
  have "int addr + (int sz - int ?k) = int (addr + sz - ?k)" using assms(1) by simp
  moreover have "addr + sz - ?k < 2 ^ 64" using assms(2) by simp
  ultimately have "lmb_base cfg addr sz node i = nat (int (addr + sz - ?k) mod int (2 ^ 64))"
    by (simp add: lmb_base_def)
  also have "\<dots> = addr + sz - ?k" using assms(2) by (simp del: of_nat_diff)
  finally show ?thesis .
qed

lemma lmb_index_less:
  assumes "a < nodes" and "(i::nat) < n"
  shows "a * n + i + 1 \<le> nodes * n"
proof -
  have "(a + 1) * n \<le> nodes * n" using assms(1) by (intro mult_le_mono1) simp
  with assms(2) show ?thesis by simp
qed

lemma lmb_index_inj:
  assumes "(i::nat) < n" "j < n" "a * n + i = b * n + j"
  shows "a = b \<and> i = j"
proof -
  have "a = (a * n + i) div n" "b = (b * n + j) div n" using assms(1,2) by simp_all
  with assms(3) have "a = b" by simp
  with assms(3) show ?thesis by simp
qed

lemma lmb_apart:
  assumes "a < nodes" and "b < nodes" and "i < num_lmbs cfg" and "j < num_lmbs cfg" and "(a, i) \<noteq> (b, j)"
    and "nodes * num_lmbs cfg * lmb_size cfg \<le> sz" and "addr + sz < 2 ^ 64"
  shows "{lmb_base cfg addr sz a i ..< lmb_base cfg addr sz a i + lmb_size cfg} \<inter>
         {lmb_base cfg addr sz b j ..< lmb_base cfg addr sz b j + lmb_size cfg} = {} \<and>
         {lmb_base cfg addr sz a i ..< lmb_base cfg addr sz a i + lmb_size cfg} \<subseteq>
         {addr + sz - nodes * num_lmbs cfg * lmb_size cfg ..< addr + sz}"
proof -
  let ?L = "lmb_size cfg" and ?n = "num_lmbs cfg"
  define x y where "x = a * ?n + i" and "y = b * ?n + j"
  have ne: "x \<noteq> y" using lmb_index_inj [OF assms(3,4)] assms(5) by (auto simp: x_def y_def)
  have le: "x + 1 \<le> nodes * ?n" "y + 1 \<le> nodes * ?n"
    using lmb_index_less [OF assms(1,3)] lmb_index_less [OF assms(2,4)] by (simp_all add: x_def y_def)
  have Lx: "?L * (x + 1) \<le> nodes * ?n * ?L" "?L * (y + 1) \<le> nodes * ?n * ?L"
    using le by (metis mult.commute mult_le_mono2)+
  have bx: "lmb_base cfg addr sz a i = addr + sz - ?L * (x + 1)" "lmb_base cfg addr sz b j = addr + sz - ?L * (y + 1)"
    using lmb_base_eq Lx assms(6,7) by (simp_all add: x_def y_def add.assoc)
  have "?L * (x + 1) \<le> ?L * y \<or> ?L * (y + 1) \<le> ?L * x"
    using ne by (metis Suc_eq_plus1 Suc_leI mult_le_mono2 nat_neq_iff)
  moreover have "?L * (x + 1) = ?L * x + ?L" "?L * (y + 1) = ?L * y + ?L" by simp_all
  ultimately show ?thesis unfolding bx using Lx assms(6) by (auto simp: disjoint_iff) 
qed

section \<open>Properties\<close>

text \<open>
  The buffers of a segment are laid out apart: buffer \<open>i\<close> that node \<open>a\<close> writes and buffer
  \<open>j\<close> that node \<open>b\<close> writes at the same peer never overlap, and all of them lie in the last
  \<open>nodes * num_lmbs * lmb_size\<close> bytes of the segment.
\<close>

theorem lmb_buffers_apart:
  assumes "a < nodes" and "b < nodes" and "i < num_lmbs cfg" and "j < num_lmbs cfg" and "(a, i) \<noteq> (b, j)"
    and "nodes * num_lmbs cfg * lmb_size cfg \<le> sz" and "addr + sz < 2 ^ 64"
  shows "{lmb_base cfg addr sz a i ..< lmb_base cfg addr sz a i + lmb_size cfg} \<inter>
         {lmb_base cfg addr sz b j ..< lmb_base cfg addr sz b j + lmb_size cfg} = {} \<and>
         {lmb_base cfg addr sz a i ..< lmb_base cfg addr sz a i + lmb_size cfg} \<subseteq>
         {addr + sz - nodes * num_lmbs cfg * lmb_size cfg ..< addr + sz}"
  by (rule lmb_apart [OF assms])

theorem lmb_buffers_apart_witness:
  "{lmb_base \<lparr>num_lmbs = 2, lmb_size = 64, max_long_req = 8, max_medium = 8\<rparr> 4096 1024 0 1 ..< 4096 + 1024 - 64} \<inter>
   {lmb_base \<lparr>num_lmbs = 2, lmb_size = 64, max_long_req = 8, max_medium = 8\<rparr> 4096 1024 1 0 ..< 4096 + 1024 - 128} = {}"
  using lmb_buffers_apart [of 0 2 1 1 "\<lparr>num_lmbs = 2, lmb_size = 64, max_long_req = 8, max_medium = 8\<rparr>" 0 1024 4096]
  by (simp add: lmb_base_def)

text \<open>
  Both sides agree where a buffer is: the address node \<open>a\<close> writes for its peer \<open>b\<close> is the
  address \<open>b\<close> reads for \<open>a\<close>, provided the two segments have the same size (the code takes
  the size of the peer's segment on both sides).
\<close>

theorem lmb_sides_agree:
  assumes "seg_size (segment_info a) = seg_size (segment_info b)"
  shows "lmb_w_bases (ActiveMessageEndpoint_construct cfg segment_info a b) =
         lmb_r_bases (ActiveMessageEndpoint_construct cfg segment_info b a)"
  using assms by (simp add: ActiveMessageEndpoint_construct_def)

theorem lmb_sides_agree_witness:
  "lmb_w_bases (ActiveMessageEndpoint_construct \<lparr>num_lmbs = 2, lmb_size = 64, max_long_req = 8, max_medium = 8\<rparr>
      (\<lambda>n. \<lparr>seg_addr = 4096 + n, seg_size = 1024\<rparr>) 0 1) =
   lmb_r_bases (ActiveMessageEndpoint_construct \<lparr>num_lmbs = 2, lmb_size = 64, max_long_req = 8, max_medium = 8\<rparr>
      (\<lambda>n. \<lparr>seg_addr = 4096 + n, seg_size = 1024\<rparr>) 1 0)"
  by (rule lmb_sides_agree) simp

text \<open>
  The source data pool and the buffers of all nodes do not overlap: whenever initialisation
  passes its assertions, with each memory below 2048 megabytes and no 64-bit overflow, the pool
  ends before the area at the end of the segment where the buffers are.
\<close>

theorem pool_below_buffers:
  assumes "init_endpoints cmdline nodes saddr ssize g r ib hs = Inr su"
    and "0 \<le> g" "g < 2048" "0 \<le> r" "r < 2048" "0 \<le> ib" "ib < 2048"
    and "unat saddr + unat ssize < 2 ^ 64"
    and "unat saddr + (nat g + nat r + nat ib) * 2 ^ 20 + unat (su_pool_size su) + unat (su_total_lmb su) < 2 ^ 64"
  shows "unat (su_pool_base su) = unat saddr + (nat g + nat r + nat ib) * 2 ^ 20 \<and>
     unat (su_pool_base su) + unat (su_pool_size su) \<le> unat saddr + unat ssize - unat (su_total_lmb su)"
proof -
  have b: "su_pool_base su = saddr + mb_bytes g + mb_bytes r + mb_bytes ib"
    and a: "su_pool_base su + su_pool_size su + su_total_lmb su \<le> saddr + ssize"
    using assms(1-7) by (auto simp: init_endpoints_def Let_def mb_small split: if_splits)
  note m = mb_small(2) [OF assms(2,3)] mb_small(2) [OF assms(4,5)] mb_small(2) [OF assms(6,7)]
  note add = unat_add_fits
  define G where "G = nat g * 2 ^ 20"
  define R where "R = nat r * 2 ^ 20"
  define I where "I = nat ib * 2 ^ 20"
  have gri: "(nat g + nat r + nat ib) * 2 ^ 20 = G + R + I" by (simp add: G_def R_def I_def algebra_simps)
  note m' = m [folded G_def R_def I_def]
  have s1: "unat (saddr + mb_bytes g) = unat saddr + G" using add [of saddr "mb_bytes g"] assms(9) unfolding m' gri by linarith
  have s2: "unat (saddr + mb_bytes g + mb_bytes r) = unat saddr + G + R"
    using add [of "saddr + mb_bytes g" "mb_bytes r"] assms(9) unfolding m' gri s1 by linarith
  have base: "unat (su_pool_base su) = unat saddr + (nat g + nat r + nat ib) * 2 ^ 20"
    using add [of "saddr + mb_bytes g + mb_bytes r" "mb_bytes ib"] assms(9) unfolding b m' gri s2 by linarith
  have s3: "unat (su_pool_base su + su_pool_size su) = unat (su_pool_base su) + unat (su_pool_size su)"
    using add [of "su_pool_base su" "su_pool_size su"] assms(9) base by linarith
  have "unat (su_pool_base su + su_pool_size su + su_total_lmb su) =
      unat (su_pool_base su) + unat (su_pool_size su) + unat (su_total_lmb su)"
    using add [of "su_pool_base su + su_pool_size su" "su_total_lmb su"] assms(9) base unfolding s3 by linarith
  moreover have "unat (saddr + ssize) = unat saddr + unat ssize" using assms(8) by (rule add)
  ultimately have "unat (su_pool_base su) + unat (su_pool_size su) + unat (su_total_lmb su) \<le> unat saddr + unat ssize"
    using a unfolding word_le_nat_alt by simp
  with base show ?thesis by linarith
qed

theorem pool_below_buffers_witness:
  "\<exists>su. init_endpoints [] 2 (2 ^ 40) (2 ^ 28) 16 16 0 [] = Inr su \<and> unat (su_pool_base su) = 2 ^ 40 + 2 ^ 25"
proof -
  obtain su where s: "init_endpoints [] 2 (2 ^ 40) (2 ^ 28) 16 16 0 [] = Inr su"
    "su_pool_size su = 2 ^ 26" "su_total_lmb su = 2 ^ 22"
    by (simp add: init_endpoints_def Let_def parse_options_def default_options_def MAX_HANDLERS_def
        mb_shift_int_def mb_bytes_def push_bit_eq_mult)
  from pool_below_buffers [OF s(1)] s show ?thesis by simp
qed

text \<open>
  The option that should limit spilling has no effect: whatever the command line, the limit
  stays at its default of no limit.
\<close>

theorem spillstall_has_no_effect:
  assumes "init_endpoints cmdline nodes saddr ssize g r ib hs = Inr su"
  shows "max_spill_bytes (su_spill su) = 0"
  using assms parse_spillstall [of cmdline]
  by (auto simp: init_endpoints_def Let_def spill_setup_def default_spill_config_def split: if_splits)

theorem spillstall_has_no_effect_witness:
  "\<exists>su. init_endpoints [(''-ll:spillstall'', 32)] 2 (2 ^ 40) (2 ^ 28) 16 16 0 [] = Inr su \<and>
     max_spill_bytes (su_spill su) = 0"
proof -
  obtain su where s: "init_endpoints [(''-ll:spillstall'', 32)] 2 (2 ^ 40) (2 ^ 28) 16 16 0 [] = Inr su"
    by (simp add: init_endpoints_def Let_def parse_options_def set_option_def default_options_def MAX_HANDLERS_def
        mb_shift_int_def mb_bytes_def push_bit_eq_mult)
  from spillstall_has_no_effect [OF s] s show ?thesis by simp
qed

text \<open>
  With 2048 megabytes of GASNet memory the 32-bit shift goes negative: the pool is placed
  \<open>2 ^ 31\<close> bytes before the start of the segment, and the assertion does not notice.
\<close>

theorem pool_base_shift_overflow:
  "\<exists>su. init_endpoints [] 2 (2 ^ 40) (2 ^ 31 + 2 ^ 27) 2048 0 0 [] = Inr su \<and> su_pool_base su = 2 ^ 40 - 2 ^ 31"
  by (simp add: init_endpoints_def Let_def parse_options_def default_options_def MAX_HANDLERS_def
      mb_shift_int_def mb_bytes_def push_bit_eq_mult)

end
