(* ===== verification/Message_Handlers.thy ===== *)
theory Message_Handlers
  imports Endpoint_Manager Reassembly Incoming_Manager Segment_Layout
begin

text \<open>
  The message classes of \<^verbatim>\<open>src/templates/activemsg.h\<close>: \<^verbatim>\<open>ActiveMessageShortNoReply\<close> and
  \<^verbatim>\<open>ActiveMessageMediumNoReply\<close> with their \<^verbatim>\<open>request\<close> and \<^verbatim>\<open>add_handler_entries\<close>, the
  handlers that \<^verbatim>\<open>MessageRawArgs\<close> registers with GASNet, and the incoming message objects whose
  \<^verbatim>\<open>run_handler\<close> the handler threads call.  A template argument (message number, size of the
  argument type) is a field of \<open>message_class\<close>.  This is where the message layer meets itself: what
  \<open>send_long\<close> put on the wire goes through reassembly into the incoming message manager, and the
  release of the source data goes back.
\<close>

section \<open>Message classes\<close>

record message_class =
  mc_msgid :: nat
  mc_sizeof :: nat

text \<open>
  The size of \<^verbatim>\<open>AtLeastEightBytes\<close>: a union with a 64-bit integer is as large as its larger
  member, rounded up to a multiple of eight; \<open>raw_args\<close> is the number of handler arguments.
\<close>

definition sizeof_AtLeastEightBytes :: "nat \<Rightarrow> nat" where
  "sizeof_AtLeastEightBytes sz = (max sz 8 + 7) div 8 * 8"

definition raw_args :: "message_class \<Rightarrow> nat" where
  "raw_args mc = (sizeof_AtLeastEightBytes (mc_sizeof mc) + 3) div 4"

definition add_handler_entries :: "nat list \<Rightarrow> message_class \<Rightarrow> nat list outcome" where
  "add_handler_entries handlers mc =
     obind (cassert (4 * raw_args mc \<le> 64)) (\<lambda>_. add_handler_entry handlers (mc_msgid mc))"

text \<open>The words of the base structure that every medium or long message starts with.\<close>

definition set_magic :: "32 word list \<Rightarrow> 32 word list" where
  "set_magic as = as[0 := MESSAGE_ID_MAGIC, 1 := MESSAGE_CHUNKS_MAGIC, 2 := 0, 3 := 0]"

definition request_short ::
  "am_config \<Rightarrow> segment \<Rightarrow> node_id \<Rightarrow> addr \<Rightarrow> msgptr \<Rightarrow> am_node \<Rightarrow> EndpointManager \<Rightarrow> node_id \<Rightarrow> message_class \<Rightarrow>
     32 word list \<Rightarrow> (am_node \<times> EndpointManager) outcome" where
  "request_short cfg seg mynode mallocp hdrp nd em dest mc as =
     enqueue_message_contiguous cfg seg mynode mallocp hdrp nd em dest (mc_msgid mc) as (mc_sizeof mc) 0 0 PAYLOAD_NONE 0"

definition request_medium ::
  "am_config \<Rightarrow> segment \<Rightarrow> node_id \<Rightarrow> addr \<Rightarrow> msgptr \<Rightarrow> am_node \<Rightarrow> EndpointManager \<Rightarrow> node_id \<Rightarrow> message_class \<Rightarrow>
     32 word list \<Rightarrow> addr \<Rightarrow> nat \<Rightarrow> payload_mode \<Rightarrow> addr \<Rightarrow> (am_node \<times> EndpointManager) outcome" where
  "request_medium cfg seg mynode mallocp hdrp nd em dest mc as pay datalen pmode dst =
     enqueue_message_contiguous cfg seg mynode mallocp hdrp nd em dest (mc_msgid mc) (set_magic as) (mc_sizeof mc)
       pay datalen pmode dst"

definition request_medium_strided ::
  "am_config \<Rightarrow> node_id \<Rightarrow> addr \<Rightarrow> msgptr \<Rightarrow> am_node \<Rightarrow> EndpointManager \<Rightarrow> node_id \<Rightarrow> message_class \<Rightarrow>
     32 word list \<Rightarrow> addr \<Rightarrow> nat \<Rightarrow> int \<Rightarrow> nat \<Rightarrow> payload_mode \<Rightarrow> addr \<Rightarrow> (am_node \<times> EndpointManager) outcome" where
  "request_medium_strided cfg mynode mallocp hdrp nd em dest mc as pay line_len line_stride line_count pmode dst =
     enqueue_message_strided cfg mynode mallocp hdrp nd em dest (mc_msgid mc) (set_magic as) (mc_sizeof mc)
       pay line_len line_stride line_count pmode dst"

definition request_medium_spans ::
  "am_config \<Rightarrow> node_id \<Rightarrow> addr \<Rightarrow> msgptr \<Rightarrow> am_node \<Rightarrow> EndpointManager \<Rightarrow> node_id \<Rightarrow> message_class \<Rightarrow>
     32 word list \<Rightarrow> (addr \<times> nat) list \<Rightarrow> nat \<Rightarrow> payload_mode \<Rightarrow> addr \<Rightarrow> (am_node \<times> EndpointManager) outcome" where
  "request_medium_spans cfg mynode mallocp hdrp nd em dest mc as spans datalen pmode dst =
     enqueue_message_spans cfg mynode mallocp hdrp nd em dest (mc_msgid mc) (set_magic as) (mc_sizeof mc)
       spans datalen pmode dst"

section \<open>Incoming messages\<close>

text \<open>
  An incoming message object: the sender, the class, for a medium message the address and length of
  its data, and the argument words that the handler copied.
\<close>

datatype IncomingMessage =
    IncomingShortMessage node_id message_class "32 word list"
  | IncomingMediumMessage node_id message_class addr nat "32 word list"

fun get_peer :: "IncomingMessage \<Rightarrow> node_id" where
  "get_peer (IncomingShortMessage sender mc as) = sender"
| "get_peer (IncomingMediumMessage sender mc msgdata msglen as) = sender"

fun get_msgid :: "IncomingMessage \<Rightarrow> nat" where
  "get_msgid (IncomingShortMessage sender mc as) = mc_msgid mc"
| "get_msgid (IncomingMediumMessage sender mc msgdata msglen as) = mc_msgid mc"

fun get_msgsize :: "IncomingMessage \<Rightarrow> nat" where
  "get_msgsize (IncomingShortMessage sender mc as) = mc_sizeof mc"
| "get_msgsize (IncomingMediumMessage sender mc msgdata msglen as) = mc_sizeof mc + msglen"

text \<open>
  The receiving side of a node: its memory, the endpoint manager, the incoming message manager (null
  before \<^verbatim>\<open>init_endpoints\<close>), the \<^verbatim>\<open>next_msg\<close> fields and the message objects.
\<close>

record receiver =
  rv_mem :: memory
  rv_em :: EndpointManager
  rv_im :: "IncomingMessageManager option"
  rv_next :: next_store
  rv_msgs :: "msgptr \<Rightarrow> IncomingMessage option"

definition new_incoming :: "receiver \<Rightarrow> msgptr \<Rightarrow> IncomingMessage \<Rightarrow> receiver" where
  "new_incoming rv newp imsg = rv\<lparr>rv_next := (rv_next rv)(newp := 0), rv_msgs := (rv_msgs rv)(newp := Some imsg)\<rparr>"

definition enqueue_incoming :: "receiver \<Rightarrow> node_id \<Rightarrow> msgptr \<Rightarrow> receiver outcome" where
  "enqueue_incoming rv sender msg =
     (case rv_im rv of
        None \<Rightarrow> Inl Assert_Failed
      | Some im \<Rightarrow>
          obind (add_incoming_message im (rv_next rv) sender msg) (\<lambda>(im', nxt', woken).
            Inr (rv\<lparr>rv_im := Some im', rv_next := nxt'\<rparr>)))"

definition em_adjust_long_msgsize ::
  "EndpointManager \<Rightarrow> node_id \<Rightarrow> addr \<Rightarrow> nat \<Rightarrow> int \<Rightarrow> nat \<Rightarrow> (EndpointManager \<times> bool \<times> addr \<times> nat) outcome" where
  "em_adjust_long_msgsize em source ptr buffer_size message_id chunks =
     obind (endpoint_at em source) (\<lambda>ep.
       let (ep', r) = ep_adjust_long_msgsize ep ptr buffer_size message_id chunks
       in Inr (put_endpoint em source ep', r))"

definition node_adjust_long_msgsize ::
  "node_id \<Rightarrow> EndpointManager \<Rightarrow> node_id \<Rightarrow> addr \<Rightarrow> nat \<Rightarrow> int \<Rightarrow> nat \<Rightarrow>
     (EndpointManager \<times> bool \<times> addr \<times> nat) outcome" where
  "node_adjust_long_msgsize mynode em source ptr buffer_size message_id chunks =
     (if buffer_size = 0 then Inr (em, True, ptr, buffer_size)
      else obind (cassert (source \<noteq> mynode)) (\<lambda>_.
             em_adjust_long_msgsize em source ptr buffer_size message_id chunks))"

text \<open>The field \<^verbatim>\<open>srcptr\<close> of the base structure: the third and fourth word.\<close>

definition typed_srcptr :: "32 word list \<Rightarrow> 64 word" where
  "typed_srcptr as = srcptr_of_args (as ! 2) (as ! 3)"

definition send_srcptr_release :: "64 word \<Rightarrow> wire" where
  "send_srcptr_release srcptr = AMShort MSGID_RELEASE_SRCPTR [ucast srcptr, ucast (drop_bit 32 srcptr)]"

text \<open>
  The handlers.  GASNet gives the source of the message (\<open>src\<close>), \<open>newp\<close> is the address of the
  object if one is made.  The handler arguments are signed: a negative number of chunks is
  never reached by counting up, like zero.  The wires are the replies.
\<close>

definition handler_short ::
  "message_class \<Rightarrow> msgptr \<Rightarrow> receiver \<Rightarrow> node_id \<Rightarrow> 32 word list \<Rightarrow> (receiver \<times> wire list) outcome" where
  "handler_short mc newp rv src as =
     obind (enqueue_incoming (new_incoming rv newp (IncomingShortMessage src mc as)) src newp) (\<lambda>rv'. Inr (rv', []))"

definition handler_medium ::
  "node_id \<Rightarrow> message_class \<Rightarrow> msgptr \<Rightarrow> receiver \<Rightarrow> node_id \<Rightarrow> addr \<Rightarrow> nat \<Rightarrow> 32 word list \<Rightarrow>
     (receiver \<times> wire list) outcome" where
  "handler_medium mynode mc newp rv src buf nbytes as =
     obind (node_adjust_long_msgsize mynode (rv_em rv) src buf nbytes (sint (as ! 0)) (nat (sint (as ! 1))))
       (\<lambda>(em', handle_now, buf', nbytes').
       let rv1 = rv\<lparr>rv_em := em'\<rparr> in
       if handle_now then
         let srcptr = typed_srcptr as in
         obind (enqueue_incoming (new_incoming rv1 newp (IncomingMediumMessage src mc buf' nbytes' as)) src newp)
           (\<lambda>rv2.
           if srcptr \<noteq> 0 then
             obind (cassert (nbytes' > 0)) (\<lambda>_. Inr (rv2, [send_srcptr_release srcptr]))
           else Inr (rv2, []))
       else Inr (rv1, []))"

text \<open>
  Arrival of a request for this class: a short one runs \<open>handler_short\<close>; GASNet has written the data
  of a long one at its destination when it runs \<open>handler_medium\<close>; the data of a medium one are in a
  buffer of GASNet at \<open>bufp\<close>.
\<close>

fun receive :: "node_id \<Rightarrow> message_class \<Rightarrow> addr \<Rightarrow> node_id \<Rightarrow> receiver \<Rightarrow> msgptr \<times> wire \<Rightarrow> (receiver \<times> wire list) outcome" where
  "receive mynode mc bufp src rv (newp, AMShort mid as) = handler_short mc newp rv src as"
| "receive mynode mc bufp src rv (newp, AMMedium mid bytes as) =
     handler_medium mynode mc newp (rv\<lparr>rv_mem := write_bytes (rv_mem rv) bufp bytes\<rparr>) src bufp (length bytes) as"
| "receive mynode mc bufp src rv (newp, AMLong mid bytes dest as) =
     handler_medium mynode mc newp (rv\<lparr>rv_mem := write_bytes (rv_mem rv) dest bytes\<rparr>) src dest (length bytes) as"

fun receive_all ::
  "node_id \<Rightarrow> message_class \<Rightarrow> addr \<Rightarrow> node_id \<Rightarrow> receiver \<Rightarrow> (msgptr \<times> wire) list \<Rightarrow> (receiver \<times> wire list) outcome" where
  "receive_all mynode mc bufp src rv [] = Inr (rv, [])"
| "receive_all mynode mc bufp src rv (x # xs) =
     obind (receive mynode mc bufp src rv x) (\<lambda>(rv1, out1).
     obind (receive_all mynode mc bufp src rv1 xs) (\<lambda>(rv2, out2). Inr (rv2, out1 @ out2)))"

text \<open>
  \<^verbatim>\<open>run_handler\<close>: the handler function of the class, then for a medium message the count of
  handled messages of the buffer its data came in.  The functions are parameters: they act on the
  node, its endpoints and a state of their own.
\<close>

record 's handlers =
  short_hndl :: "nat \<Rightarrow> 32 word list \<Rightarrow> am_node \<times> EndpointManager \<times> 's \<Rightarrow> (am_node \<times> EndpointManager \<times> 's) outcome"
  med_hndl :: "nat \<Rightarrow> 32 word list \<Rightarrow> addr \<Rightarrow> nat \<Rightarrow> am_node \<times> EndpointManager \<times> 's \<Rightarrow>
     (am_node \<times> EndpointManager \<times> 's) outcome"

fun run_handler ::
  "am_config \<Rightarrow> node_id \<Rightarrow> msgptr \<Rightarrow> 's handlers \<Rightarrow> IncomingMessage \<Rightarrow> am_node \<times> EndpointManager \<times> 's \<Rightarrow>
     (am_node \<times> EndpointManager \<times> 's) outcome" where
  "run_handler cfg mynode newp h (IncomingShortMessage sender mc as) w = short_hndl h (mc_msgid mc) as w"
| "run_handler cfg mynode newp h (IncomingMediumMessage sender mc msgdata msglen as) w =
     obind (med_hndl h (mc_msgid mc) as msgdata msglen w) (\<lambda>(nd, em, s).
     obind (handle_long_msgptr cfg mynode nd em sender newp msgdata) (\<lambda>(nd', em'). Inr (nd', em', s)))"

text \<open>
  The messages of a batch are handled one after the other (\<open>newp\<close>: the address of the
  acknowledgement, if the message completes a buffer).
\<close>

fun run_batch ::
  "am_config \<Rightarrow> node_id \<Rightarrow> 's handlers \<Rightarrow> (msgptr \<times> IncomingMessage) list \<Rightarrow> am_node \<times> EndpointManager \<times> 's \<Rightarrow>
     (am_node \<times> EndpointManager \<times> 's) outcome" where
  "run_batch cfg mynode h [] w = Inr w"
| "run_batch cfg mynode h ((newp, imsg) # xs) w = obind (run_handler cfg mynode newp h imsg w) (run_batch cfg mynode h xs)"

section \<open>Reply futures\<close>

text \<open>
  \<^verbatim>\<open>HandlerReplyFuture\<close>: a value a handler sets and another thread waits for.  \<open>v0\<close> is whatever the
  value is before it is set; waiting gives \<open>None\<close> when the caller sleeps on the condition variable.
\<close>

record 'v HandlerReplyFuture =
  fut_valid :: bool
  fut_value :: 'v

definition HandlerReplyFuture_construct :: "'v \<Rightarrow> 'v HandlerReplyFuture" where
  "HandlerReplyFuture_construct v0 = \<lparr>fut_valid = False, fut_value = v0\<rparr>"

definition future_set :: "'v \<Rightarrow> 'v HandlerReplyFuture \<Rightarrow> 'v HandlerReplyFuture" where
  "future_set v fut = fut\<lparr>fut_valid := True, fut_value := v\<rparr>"

definition future_wait :: "'v HandlerReplyFuture \<Rightarrow> unit option" where
  "future_wait fut = (if fut_valid fut then Some () else None)"

lemma future_wait_get:
  "future_wait (fold future_set vs (HandlerReplyFuture_construct v0)) = (if vs = [] then None else Some ())"
  "fut_value (fold future_set vs (HandlerReplyFuture_construct v0)) = last (v0 # vs)"
proof -
  have "fut_valid (fold future_set vs f) = (fut_valid f \<or> vs \<noteq> []) \<and>
      fut_value (fold future_set vs f) = last (fut_value f # vs)" for f :: "'a HandlerReplyFuture"
    by (induction vs arbitrary: f) (auto simp: future_set_def)
  then show "future_wait (fold future_set vs (HandlerReplyFuture_construct v0)) = (if vs = [] then None else Some ())"
    "fut_value (fold future_set vs (HandlerReplyFuture_construct v0)) = last (v0 # vs)"
    by (simp_all add: future_wait_def HandlerReplyFuture_construct_def)
qed

section \<open>Delivery of one message\<close>

text \<open>The spans \<open>zs\<close> of message \<open>i\<close> from \<open>src\<close> have arrived so far.\<close>

definition seen_of :: "receiver \<Rightarrow> node_id \<Rightarrow> int \<Rightarrow> (addr \<times> nat) list \<Rightarrow> bool" where
  "seen_of rv src i zs \<longleftrightarrow>
     (\<exists>ep. em_endpoints (rv_em rv) src = Some ep \<and> om_ok (observed_messages ep) \<and>
        map_of (observed_messages ep) i = seen_info zs)"

lemma node_adjust_more:
  assumes "seen_of rv src i zs" and "src \<noteq> mynode" and "0 < s" and "length zs + 1 < c"
  obtains em' where "node_adjust_long_msgsize mynode (rv_em rv) src p s i c = Inr (em', False, p, s)"
    "\<And>m. seen_of (rv\<lparr>rv_mem := m, rv_em := em'\<rparr>) src i (zs @ [(p, s)])"
proof -
  obtain ep where ep: "em_endpoints (rv_em rv) src = Some ep" "om_ok (observed_messages ep)"
    "map_of (observed_messages ep) i = seen_info zs" using assms(1) by (auto simp: seen_of_def)
  obtain ep' r where a: "ep_adjust_long_msgsize ep p s i c = (ep', r)" by (metis surj_pair)
  have c: "2 \<le> c" "length zs < c" "length zs + 1 \<noteq> c" using assms(4) by simp_all
  have "r = (False, p, s)" "map_of (observed_messages ep') i = seen_info (zs @ [(p, s)])"
    using adjust_chunk [OF ep(2) c(1,2) ep(3) a] c(3) by simp_all
  with adjust_frame(1) [OF ep(2) a] ep(1) a assms(2,3) that [of "put_endpoint (rv_em rv) src ep'"] show ?thesis
    by (simp add: node_adjust_long_msgsize_def em_adjust_long_msgsize_def endpoint_at_def put_endpoint_def seen_of_def)
qed

lemma node_adjust_last:
  assumes "seen_of rv src i zs" and "src \<noteq> mynode" and "0 < s" and "length zs + 1 = c"
  obtains em' where "node_adjust_long_msgsize mynode (rv_em rv) src p s i c =
      Inr (em', True, Min (set (map fst (zs @ [(p, s)]))), sum_list (map snd (zs @ [(p, s)])))"
    "\<And>m. seen_of (rv\<lparr>rv_mem := m, rv_em := em'\<rparr>) src i []"
proof -
  obtain ep where ep: "em_endpoints (rv_em rv) src = Some ep" "om_ok (observed_messages ep)"
    "map_of (observed_messages ep) i = seen_info zs" using assms(1) by (auto simp: seen_of_def)
  obtain ep' r where a: "ep_adjust_long_msgsize ep p s i c = (ep', r)" by (metis surj_pair)
  have "r = (True, Min (set (map fst (zs @ [(p, s)]))), sum_list (map snd (zs @ [(p, s)]))) \<and>
    map_of (observed_messages ep') i = None"
  proof (cases "c = 1")
    case True
    with assms(4) have z: "zs = []" by simp
    show ?thesis using a ep(3) by (auto simp: True z ep_adjust_long_msgsize_def seen_info_def)
  next
    case False
    then have c: "2 \<le> c" "length zs < c" using assms(4) by auto
    show ?thesis using adjust_chunk [OF ep(2) c ep(3) a] assms(4) by simp
  qed
  with adjust_frame(1) [OF ep(2) a] ep(1) a assms(2,3) that [of "put_endpoint (rv_em rv) src ep'"] show ?thesis
    by (simp add: node_adjust_long_msgsize_def em_adjust_long_msgsize_def endpoint_at_def put_endpoint_def seen_of_def
        seen_info_def)
qed

lemma receive_all_append:
  "receive_all mynode mc bufp src rv (xs @ ys) =
     obind (receive_all mynode mc bufp src rv xs) (\<lambda>(rv1, out1).
     obind (receive_all mynode mc bufp src rv1 ys) (\<lambda>(rv2, out2). Inr (rv2, out1 @ out2)))"
proof (induction xs arbitrary: rv)
  case Nil
  show ?case by (cases "receive_all mynode mc bufp src rv ys") auto
next
  case (Cons x xs)
  show ?case
  proof (cases "receive mynode mc bufp src rv x")
    case (Inr r)
    obtain rv1 o1 where r: "r = (rv1, o1)" by (cases r)
    show ?thesis
    proof (cases "receive_all mynode mc bufp src rv1 xs")
      case (Inr q)
      obtain rv2 o2 where q: "q = (rv2, o2)" by (cases q)
      show ?thesis using \<open>receive mynode mc bufp src rv x = Inr r\<close> Inr Cons.IH [of rv1]
        by (cases "receive_all mynode mc bufp src rv2 ys") (auto simp: r q)
    qed (use Inr Cons.IH [of rv1] in \<open>simp add: r\<close>)
  qed simp
qed

text \<open>The requests of one long message: the same arguments, non-empty data.\<close>

fun chunk_of :: "32 word list \<Rightarrow> wire \<Rightarrow> bool" where
  "chunk_of as (AMLong mid bytes d as') = (as' = as \<and> bytes \<noteq> [])"
| "chunk_of as _ = False"

fun wire_span :: "wire \<Rightarrow> addr \<times> nat" where
  "wire_span (AMLong mid bytes d as) = (d, length bytes)"
| "wire_span _ = (0, 0)"

lemma chunk_ofE:
  assumes "chunk_of as w"
  obtains mid bytes d where "w = AMLong mid bytes d as" "bytes \<noteq> []"
  using assms by (cases w) auto

lemma receive_more:
  assumes "seen_of rv src (sint (as ! 0)) zs" and "src \<noteq> mynode"
    and "list_all (\<lambda>x. chunk_of as (snd x)) xs" and "length zs + length xs < nat (sint (as ! 1))"
  shows "\<exists>rv'. receive_all mynode mc bufp src rv xs = Inr (rv', []) \<and>
    seen_of rv' src (sint (as ! 0)) (zs @ map (\<lambda>x. wire_span (snd x)) xs) \<and>
    rv_mem rv' = fold deliver (map snd xs) (rv_mem rv) \<and>
    rv_im rv' = rv_im rv \<and> rv_next rv' = rv_next rv \<and> rv_msgs rv' = rv_msgs rv"
  using assms
proof (induction xs arbitrary: rv zs)
  case (Cons x xs)
  obtain newp w where x: "x = (newp, w)" by (cases x)
  obtain mid bytes d where w: "w = AMLong mid bytes d as" "bytes \<noteq> []"
    using Cons.prems(3) by (auto simp: x elim: chunk_ofE)
  have len: "length zs + 1 < nat (sint (as ! 1))" using Cons.prems(4) by simp
  obtain em' where a: "node_adjust_long_msgsize mynode (rv_em rv) src d (length bytes) (sint (as ! 0))
      (nat (sint (as ! 1))) = Inr (em', False, d, length bytes)"
    "\<And>m. seen_of (rv\<lparr>rv_mem := m, rv_em := em'\<rparr>) src (sint (as ! 0)) (zs @ [(d, length bytes)])"
    using node_adjust_more [OF Cons.prems(1,2) _ len, of "length bytes" d] w(2) by auto
  let ?rv = "rv\<lparr>rv_mem := write_bytes (rv_mem rv) d bytes, rv_em := em'\<rparr>"
  have "receive mynode mc bufp src rv x = Inr (?rv, [])"
    using a(1) by (simp add: x w handler_medium_def)
  moreover obtain rv' where "receive_all mynode mc bufp src ?rv xs = Inr (rv', [])"
    "seen_of rv' src (sint (as ! 0)) ((zs @ [(d, length bytes)]) @ map (\<lambda>x. wire_span (snd x)) xs)"
    "rv_mem rv' = fold deliver (map snd xs) (rv_mem ?rv)"
    "rv_im rv' = rv_im ?rv" "rv_next rv' = rv_next ?rv" "rv_msgs rv' = rv_msgs ?rv"
    using Cons.IH [OF a(2) Cons.prems(2)] Cons.prems(3,4) by fastforce
  ultimately show ?case by (simp add: x w)
qed simp

lemma enqueue_fresh:
  assumes R: "rv_im rv = Some im" "im_rel im (rv_next rv) qs todo" and s: "src < im_nodes im"
    and m: "newp \<noteq> 0" "\<forall>t. newp \<notin> set (qs t)"
  shows "\<exists>im' nxt'. enqueue_incoming (new_incoming rv newp imsg) src newp =
       Inr (rv\<lparr>rv_im := Some im', rv_next := nxt', rv_msgs := (rv_msgs rv)(newp := Some imsg)\<rparr>) \<and>
    im_rel im' nxt' (qs(src := qs src @ [newp])) (if qs src = [] then todo @ [src] else todo)"
proof -
  have R0: "im_rel im ((rv_next rv)(newp := 0)) qs todo"
    using R(2) m(2) by (auto simp: im_rel_def chain_frame)
  obtain im' nxt' b where "add_incoming_message im ((rv_next rv)(newp := 0)) src newp = Inr (im', nxt', b)"
    "im_rel im' nxt' (qs(src := qs src @ [newp])) (if qs src = [] then todo @ [src] else todo)"
    by (rule im_rel_add [OF R0 s m(1) _ m(2)]) simp
  with R(1) show ?thesis
    by (intro exI [of _ im'] exI [of _ nxt'] conjI) (simp_all only: enqueue_incoming_def new_incoming_def, simp)
qed

lemma mset_emit_chunks: "mset (emit_chunks f n) = mset (map f [0 ..< n])"
  by (induction n) auto

text \<open>What \<open>send_long\<close> puts on the wire for a message whose base structure comes first.\<close>

definition long_args :: "am_config \<Rightarrow> 32 word \<Rightarrow> OutgoingMessage \<Rightarrow> 32 word list" where
  "long_args cfg i hdr =
     (let p = (if payload_mode hdr = PAYLOAD_SRCPTR then of_nat (payload hdr) else 0)
      in take (num_args hdr) ((args hdr)[0 := i, 1 := of_nat (long_chunks (max_long_req cfg) (payload_size hdr)),
           2 := srcptr_lo p, 3 := srcptr_hi p]))"

lemma send_long_wires:
  assumes "send_long cfg nd ep hdr dest = Inr (ep', ws)" and "args hdr ! 0 = MESSAGE_ID_MAGIC"
  shows "ws = emit_chunks (chunk_wire cfg (nd_mem nd) (msgid hdr) (payload hdr) (payload_size hdr) dest
     (long_args cfg (next_outgoing_message_id ep) hdr)) (long_chunks (max_long_req cfg) (payload_size hdr))"
  using assms
  by (auto simp: send_long_def set_long_args_def Let_def chunk_wire_def [abs_def] long_args_def numeral_eq_Suc
      split: if_splits)

lemma long_args_nth:
  assumes "length (args hdr) = 16" and "4 \<le> num_args hdr"
  shows "long_args cfg i hdr ! 0 = i"
    "long_args cfg i hdr ! 1 = of_nat (long_chunks (max_long_req cfg) (payload_size hdr))"
    "typed_srcptr (long_args cfg i hdr) = (if payload_mode hdr = PAYLOAD_SRCPTR then of_nat (payload hdr) else 0)"
  using assms by (simp_all add: long_args_def typed_srcptr_def srcptr_roundtrip Let_def)

lemma release_roundtrip:
  "srcptr_of_args (ucast p) (ucast (drop_bit 32 p)) = (p :: 64 word)"
  unfolding srcptr_of_args_def by (intro bit_word_eqI) (auto simp: bit_simps)

text \<open>The last request of a message: the message is queued whole and the source data are released.\<close>

lemma receive_last:
  assumes R: "rv_im rv = Some im" "im_rel im (rv_next rv) qs todo" and s: "src < im_nodes im"
    and m: "newp \<noteq> 0" "\<forall>t. newp \<notin> set (qs t)"
    and seen: "seen_of rv src (sint (as ! 0)) zs" and o: "src \<noteq> mynode"
    and w: "chunk_of as w" and len: "length zs + 1 = nat (sint (as ! 1))"
  shows "\<exists>rv' im'. receive mynode mc bufp src rv (newp, w) =
      Inr (rv', if typed_srcptr as \<noteq> 0 then [send_srcptr_release (typed_srcptr as)] else []) \<and>
    rv_mem rv' = deliver w (rv_mem rv) \<and> seen_of rv' src (sint (as ! 0)) [] \<and>
    rv_msgs rv' = (rv_msgs rv)(newp := Some (IncomingMediumMessage src mc (Min (set (map fst (zs @ [wire_span w]))))
      (sum_list (map snd (zs @ [wire_span w]))) as)) \<and>
    rv_im rv' = Some im' \<and>
    im_rel im' (rv_next rv') (qs(src := qs src @ [newp])) (if qs src = [] then todo @ [src] else todo)"
proof -
  obtain mid bytes d where wd: "w = AMLong mid bytes d as" "bytes \<noteq> []" using w by (rule chunk_ofE)
  define b n where "b = Min (set (map fst (zs @ [wire_span w])))" and "n = sum_list (map snd (zs @ [wire_span w]))"
  have n: "0 < n" using wd by (simp add: n_def)
  let ?rv = "rv\<lparr>rv_mem := deliver w (rv_mem rv)\<rparr>"
  have pos: "0 < length bytes" using wd(2) by simp
  have bn: "Min (set (map fst (zs @ [(d, length bytes)]))) = b" "sum_list (map snd (zs @ [(d, length bytes)])) = n"
    by (simp_all only: b_def n_def wd(1) wire_span.simps)
  obtain em' where
    a: "node_adjust_long_msgsize mynode (rv_em rv) src d (length bytes) (sint (as ! 0)) (nat (sint (as ! 1))) =
      Inr (em', True, b, n)" "\<And>m. seen_of (rv\<lparr>rv_mem := m, rv_em := em'\<rparr>) src (sint (as ! 0)) []"
    by (rule node_adjust_last [OF seen o pos len, of d, unfolded bn]) (rule that)
  let ?imsg = "IncomingMediumMessage src mc b n as"
  obtain im' nxt' where e: "enqueue_incoming (new_incoming (?rv\<lparr>rv_em := em'\<rparr>) newp ?imsg) src newp =
       Inr (?rv\<lparr>rv_em := em', rv_im := Some im', rv_next := nxt', rv_msgs := (rv_msgs rv)(newp := Some ?imsg)\<rparr>)"
    "im_rel im' nxt' (qs(src := qs src @ [newp])) (if qs src = [] then todo @ [src] else todo)"
    using enqueue_fresh [of "?rv\<lparr>rv_em := em'\<rparr>" im qs todo src newp ?imsg] R s m by auto
  have "seen_of (?rv\<lparr>rv_em := em', rv_im := Some im', rv_next := nxt', rv_msgs := (rv_msgs rv)(newp := Some ?imsg)\<rparr>)
      src (sint (as ! 0)) []" using a(2) by (simp add: seen_of_def)
  with a(1) e n show ?thesis
    unfolding b_def [symmetric] n_def [symmetric] by (simp add: wd(1) handler_medium_def Let_def)
qed

text \<open>The arrivals of one message: their number, their form and the span they make up together.\<close>

lemma sent_chunks:
  assumes send: "send_long cfg nd ep hdr dest = Inr (ep', ws)" and magic: "args hdr ! 0 = MESSAGE_ID_MAGIC"
    and sz: "0 < payload_size hdr" and mx: "0 < max_long_req cfg" and arrive: "mset vs = mset ws"
  shows "length vs = long_chunks (max_long_req cfg) (payload_size hdr)"
    "list_all (chunk_of (long_args cfg (next_outgoing_message_id ep) hdr)) vs"
    "Min (set (map fst (map wire_span vs))) = dest" "sum_list (map snd (map wire_span vs)) = payload_size hdr"
    "read_bytes (fold deliver vs m) dest (payload_size hdr) = read_bytes (nd_mem nd) (payload hdr) (payload_size hdr)"
proof -
  let ?mx = "max_long_req cfg" and ?sz = "payload_size hdr"
  let ?n = "long_chunks ?mx ?sz"
  define as where "as = long_args cfg (next_outgoing_message_id ep) hdr"
  define f where "f = chunk_wire cfg (nd_mem nd) (msgid hdr) (payload hdr) ?sz dest as"
  have ws: "ws = emit_chunks f ?n" using send_long_wires [OF send magic] by (simp add: f_def as_def)
  show "length vs = ?n" using mset_eq_length [OF arrive] by (simp add: ws)
  have st: "set vs = f ` {..< ?n}" using mset_eq_setD [OF arrive] by (simp add: ws set_emit_chunks)
  have "chunk_of as (f k)" if "k < ?n" for k
    using chunk_in_range(1) [OF mx sz that] by (simp add: f_def chunk_wire_def flip: length_greater_0_conv)
  then show "list_all (chunk_of (long_args cfg (next_outgoing_message_id ep) hdr)) vs"
    unfolding as_def [symmetric] list_all_iff st by auto
  have "mset (map wire_span vs) = mset (map wire_span ws)" using arrive by simp
  also have "\<dots> = mset (map (\<lambda>k. (dest + k * ?mx, chunk_size ?mx ?sz k)) [0 ..< ?n])"
    by (simp add: ws mset_emit_chunks f_def chunk_wire_def image_mset.compositionality comp_def)
  finally have sp: "mset (map wire_span vs) = mset (map (\<lambda>k. (dest + k * ?mx, chunk_size ?mx ?sz k)) [0 ..< ?n])" .
  show "Min (set (map fst (map wire_span vs))) = dest" "sum_list (map snd (map wire_span vs)) = ?sz"
    by (rule chunk_spans [OF mx sz sp])+
  show "read_bytes (fold deliver vs m) dest ?sz = read_bytes (nd_mem nd) (payload hdr) ?sz"
    by (rule deliver_chunks(1) [OF mx sz st [unfolded f_def]])
qed

text \<open>
  C4. One long message, end to end: the requests that \<^verbatim>\<open>send_long\<close> makes of a message arrive at
  the receiver in any order, each in its handler.  Then exactly one object is queued, behind the
  messages the sender already had there; it has the address and the size of the whole payload, which
  is in memory there, and the class's argument words; and, when the payload was in the source data
  pool, exactly one reply goes back, whose handler releases exactly the payload pointer.  The message
  number is free again.
\<close>

theorem long_message_end_to_end:
  assumes send: "send_long cfg nd ep hdr dest = Inr (ep', ws)"
    and hdr: "args hdr ! 0 = MESSAGE_ID_MAGIC" "length (args hdr) = 16" "4 \<le> num_args hdr" "0 < payload_size hdr"
      "payload_mode hdr = PAYLOAD_SRCPTR \<longrightarrow> 0 < payload hdr \<and> payload hdr < 2 ^ 64"
    and cfg: "0 < max_long_req cfg" "long_chunks (max_long_req cfg) (payload_size hdr) < 2 ^ 31"
    and arrive: "mset (map snd xs) = mset ws" "newp = fst (last xs)" "newp \<noteq> 0" "\<forall>t. newp \<notin> set (qs t)"
    and rv: "rv_im rv = Some im" "im_rel im (rv_next rv) qs todo" "src < im_nodes im" "src \<noteq> mynode"
    and fresh: "seen_of rv src (sint (next_outgoing_message_id ep)) []"
  shows "\<exists>rv' im' replies. receive_all mynode mc bufp src rv xs = Inr (rv', replies) \<and>
    read_bytes (rv_mem rv') dest (payload_size hdr) = read_bytes (nd_mem nd) (payload hdr) (payload_size hdr) \<and>
    rv_msgs rv' = (rv_msgs rv)(newp := Some (IncomingMediumMessage src mc dest (payload_size hdr)
      (long_args cfg (next_outgoing_message_id ep) hdr))) \<and>
    rv_im rv' = Some im' \<and>
    im_rel im' (rv_next rv') (qs(src := qs src @ [newp])) (if qs src = [] then todo @ [src] else todo) \<and>
    seen_of rv' src (sint (next_outgoing_message_id ep)) [] \<and>
    (if payload_mode hdr = PAYLOAD_SRCPTR
     then \<exists>a b. replies = [AMShort MSGID_RELEASE_SRCPTR [a, b]] \<and>
            (\<forall>nd'. release_srcptr_handler nd' a b = node_release_srcptr nd' (payload hdr))
     else replies = [])"
proof -
  let ?sz = "payload_size hdr" and ?i = "next_outgoing_message_id ep"
  define as where "as = long_args cfg ?i hdr"
  note sent = sent_chunks [OF send hdr(1,4) cfg(1) arrive(1), folded as_def]
  note as_nth = long_args_nth [OF hdr(2,3), of cfg ?i, folded as_def]
  have c: "length xs = nat (sint (as ! 1))" using as_nth(2) cfg(2) sent(1) by (simp add: sint_of_nat_32)
  have "xs \<noteq> []" using sent(1) long_chunks_bounds(1) [OF cfg(1) hdr(4)] by auto
  then obtain ys w where xs: "xs = ys @ [(newp, w)]"
    using arrive(2) by (metis append_butlast_last_id prod.collapse)
  have ys: "list_all (\<lambda>x. chunk_of as (snd x)) ys" and w: "chunk_of as w"
    using sent(2) by (auto simp: xs list_all_iff)
  obtain rv1 where r1: "receive_all mynode mc bufp src rv ys = Inr (rv1, [])"
    "seen_of rv1 src (sint (as ! 0)) (map (\<lambda>x. wire_span (snd x)) ys)"
    "rv_mem rv1 = fold deliver (map snd ys) (rv_mem rv)"
    "rv_im rv1 = rv_im rv" "rv_next rv1 = rv_next rv" "rv_msgs rv1 = rv_msgs rv"
    using receive_more [of rv src as "[]" mynode ys mc bufp] fresh rv(4) ys c by (auto simp: xs as_nth(1))
  have l: "length (map (\<lambda>x. wire_span (snd x)) ys) + 1 = nat (sint (as ! 1))" using c by (simp add: xs)
  from receive_last [OF _ _ rv(3) arrive(3,4) r1(2) rv(4) w l, of todo mc bufp] rv(1,2) r1 obtain rv' im' where
    r2: "receive mynode mc bufp src rv1 (newp, w) =
      Inr (rv', if typed_srcptr as \<noteq> 0 then [send_srcptr_release (typed_srcptr as)] else [])"
    "rv_mem rv' = deliver w (rv_mem rv1)" "seen_of rv' src (sint (as ! 0)) []"
    "rv_msgs rv' = (rv_msgs rv)(newp := Some (IncomingMediumMessage src mc dest ?sz as))"
    "rv_im rv' = Some im'"
    "im_rel im' (rv_next rv') (qs(src := qs src @ [newp])) (if qs src = [] then todo @ [src] else todo)"
    using sent(3,4) by (auto simp: xs comp_def)
  have mem: "read_bytes (rv_mem rv') dest ?sz = read_bytes (nd_mem nd) (payload hdr) ?sz"
    using sent(5) [of "rv_mem rv"] r1(3) r2(2) by (simp add: xs)
  have all: "receive_all mynode mc bufp src rv xs =
      Inr (rv', if typed_srcptr as \<noteq> 0 then [send_srcptr_release (typed_srcptr as)] else [])"
    unfolding xs receive_all_append using r1(1) r2(1) by simp
  show ?thesis
  proof (cases "payload_mode hdr = PAYLOAD_SRCPTR")
    case True
    with hdr(5) have p: "unat (of_nat (payload hdr) :: 64 word) = payload hdr" "(of_nat (payload hdr) :: 64 word) \<noteq> 0"
      by (auto simp: unsigned_of_nat take_bit_nat_eq_self word_unat_eq_iff)
    with True r2 mem all as_nth show ?thesis
      unfolding as_def [symmetric]
      by (simp add: send_srcptr_release_def release_srcptr_handler_def release_roundtrip)
  next
    case False
    with r2 mem all as_nth show ?thesis unfolding as_def [symmetric] by simp
  qed
qed

text \<open>Example: a message of ten bytes from the pool, in two requests that arrive in order of address.\<close>

definition mh_cfg :: am_config where
  "mh_cfg = \<lparr>num_lmbs = 2, lmb_size = 64, max_long_req = 8, max_medium = 8\<rparr>"

definition mh_class :: message_class where
  "mh_class = \<lparr>mc_msgid = 160, mc_sizeof = 24\<rparr>"

definition mh_msg :: OutgoingMessage where
  "mh_msg = \<lparr>msgid = 160, num_args = 6, args = set_magic [0, 0, 0, 0, 5, 6] @ replicate 10 0, payload = 1000,
     payload_size = 10, payload_mode = PAYLOAD_SRCPTR, dstptr = 5000, payload_src = None\<rparr>"

definition mh_ep :: "node_id \<Rightarrow> ActiveMessageEndpoint" where
  "mh_ep peer = ActiveMessageEndpoint_construct mh_cfg (\<lambda>_. \<lparr>seg_addr = 4096, seg_size = 1024\<rparr>) (1 - peer) peer"

definition mh_rv :: receiver where
  "mh_rv = \<lparr>rv_mem = (\<lambda>_. 0), rv_em = EndpointManager_construct mh_cfg (\<lambda>_. \<lparr>seg_addr = 4096, seg_size = 1024\<rparr>) 1 2,
     rv_im = Some (IncomingMessageManager_construct 2), rv_next = (\<lambda>_. 0), rv_msgs = (\<lambda>_. None)\<rparr>"

theorem long_message_end_to_end_witness:
  "\<exists>rv' a b. receive_all 1 mh_class 0 0 mh_rv
      (zip [50, 51] (rev (snd (projr (send_long mh_cfg demo_node (mh_ep 1) mh_msg 5000))))) =
        Inr (rv', [AMShort MSGID_RELEASE_SRCPTR [a, b]]) \<and>
     read_bytes (rv_mem rv') 5000 10 = read_bytes (nd_mem demo_node) 1000 10 \<and>
     rv_msgs rv' 51 = Some (IncomingMediumMessage 0 mh_class 5000 10 [0, 2, 1000, 0, 5, 6]) \<and>
     rv_msgs rv' 50 = None \<and> release_srcptr_handler demo_node a b = node_release_srcptr demo_node 1000"
proof -
  have n: "long_chunks 8 10 = 2" by (simp add: long_chunks_def)
  obtain ep' ws where s: "send_long mh_cfg demo_node (mh_ep 1) mh_msg 5000 = Inr (ep', ws)"
    by (simp add: send_long_def set_long_args_def Let_def mh_cfg_def mh_msg_def set_magic_def n)
  let ?xs = "zip [50, 51] (rev ws) :: (msgptr \<times> wire) list"
  have l: "length ws = 2"
    using send_long_wires [OF s] by (simp add: mh_msg_def set_magic_def mh_cfg_def n)
  then have xs: "mset (map snd ?xs) = mset ws" "fst (last ?xs) = 51" "?xs \<noteq> []"
    by (simp, cases ws, simp, cases "tl ws", auto)
  have a: "long_args mh_cfg (next_outgoing_message_id (mh_ep 1)) mh_msg = [0, 2, 1000, 0, 5, 6]"
    by (simp add: long_args_def mh_cfg_def mh_msg_def mh_ep_def ActiveMessageEndpoint_construct_def set_magic_def n
        srcptr_lo_def srcptr_hi_def)
  have f: "seen_of mh_rv 0 (sint (next_outgoing_message_id (mh_ep 1))) []"
    by (simp add: seen_of_def mh_rv_def EndpointManager_construct_def ActiveMessageEndpoint_construct_def seen_info_def)
  from long_message_end_to_end [OF s, of ?xs 51 "\<lambda>_. []" mh_rv "IncomingMessageManager_construct 2" "[]" 0 1 mh_class 0]
    xs f im_rel_new [of 2 "\<lambda>_. 0"] n show ?thesis
    unfolding s a by (auto simp: mh_msg_def mh_cfg_def mh_rv_def set_magic_def IncomingMessageManager_construct_def)
qed

section \<open>Requests\<close>

lemma reserve_keeps:
  assumes "reserve_srcdata mp nd this = Inr nd'"
  shows "args (nd_msgs nd' this) = args (nd_msgs nd this)" "num_args (nd_msgs nd' this) = num_args (nd_msgs nd this)"
    "msgid (nd_msgs nd' this) = msgid (nd_msgs nd this)"
    "payload_size (nd_msgs nd' this) = payload_size (nd_msgs nd this)"
    "payload_mode (nd_msgs nd this) = PAYLOAD_NONE \<Longrightarrow> nd' = nd"
  using assms
  by (auto simp: reserve_srcdata_def reserve_from_pool_def reserve_without_pool_def Let_def put_msg_def
      split: if_splits option.splits sum.splits)

lemma make_message_fields:
  assumes "make_message lmbsz mid as arg_size src psize pmode dst = Inr hdr"
  shows "msgid hdr = mid" "num_args hdr = arg_words arg_size" "arg_words arg_size \<le> 16" "length (args hdr) = 16"
    "take (arg_words arg_size) (args hdr) = take (arg_words arg_size) as" "arg_words arg_size \<le> length as"
    "payload_size hdr = (if pmode = PAYLOAD_NONE then 0 else psize)"
    "payload_mode hdr = PAYLOAD_NONE \<longleftrightarrow> pmode = PAYLOAD_NONE"
  using assms
  by (auto simp: make_message_def OutgoingMessage_construct_def set_payload_def set_payload_empty_def not_less
      split: if_splits)

lemma enqueue_made_queued:
  assumes "enqueue_made cfg mynode mp hdrp nd em target made = Inr (nd', em')"
  obtains hdr ep ep' where "made = Inr hdr"
    "em_endpoints em target = Some ep" "em_endpoints em' target = Some ep'" "out_long_hdrs ep' = out_long_hdrs ep @ [hdrp]"
    "reserve_srcdata mp (nd\<lparr>nd_msgs := (nd_msgs nd)(hdrp := hdr)\<rparr>) hdrp = Inr nd'"
  using assms
  by (fastforce simp: enqueue_made_def em_enqueue_message_def ep_enqueue_message_def Let_def endpoint_at_def add_if_empty_def
      add_todo_entry_def put_endpoint_def split: if_splits option.splits)

lemma request_medium_made:
  assumes "enqueue_made cfg mynode mp hdrp nd em target (make_message lmbsz mid (set_magic as) sz src psize pmode dst) =
      Inr (nd', em')" and "16 \<le> sz"
  shows "args (nd_msgs nd' hdrp) ! 0 = MESSAGE_ID_MAGIC \<and> args (nd_msgs nd' hdrp) ! 1 = MESSAGE_CHUNKS_MAGIC \<and>
     length (args (nd_msgs nd' hdrp)) = 16 \<and> 4 \<le> num_args (nd_msgs nd' hdrp) \<and> num_args (nd_msgs nd' hdrp) \<le> 16 \<and>
     (\<exists>ep ep'. em_endpoints em target = Some ep \<and> em_endpoints em' target = Some ep' \<and>
        out_long_hdrs ep' = out_long_hdrs ep @ [hdrp])"
proof -
  obtain hdr ep ep' where q: "make_message lmbsz mid (set_magic as) sz src psize pmode dst = Inr hdr"
    "em_endpoints em target = Some ep" "em_endpoints em' target = Some ep'" "out_long_hdrs ep' = out_long_hdrs ep @ [hdrp]"
    "reserve_srcdata mp (nd\<lparr>nd_msgs := (nd_msgs nd)(hdrp := hdr)\<rparr>) hdrp = Inr nd'"
    by (rule enqueue_made_queued [OF assms(1)])
  note f = make_message_fields [OF q(1)] and k = reserve_keeps(1,2) [OF q(5)]
  have w: "4 \<le> arg_words sz" using assms(2) by (simp add: arg_words_def)
  have "args hdr ! j = set_magic as ! j" if "j < arg_words sz" for j
    using f(5) that by (metis nth_take)
  moreover have "4 \<le> length as" using w f(6) by (simp add: set_magic_def)
  then have "0 < length as" "1 < length as" by linarith+
  ultimately have "args hdr ! 0 = MESSAGE_ID_MAGIC" "args hdr ! 1 = MESSAGE_CHUNKS_MAGIC"
    using w by (simp_all add: set_magic_def)
  with q(2-4) f(2-4) k w show ?thesis by simp
qed

lemma send_long_total:
  assumes "args hdr ! 0 = MESSAGE_ID_MAGIC" "args hdr ! 1 = MESSAGE_CHUNKS_MAGIC"
    and "4 \<le> num_args hdr" "num_args hdr \<le> 16"
  shows "\<exists>ep' ws. send_long cfg nd ep hdr d = Inr (ep', ws)"
  using assms by (simp add: send_long_def set_long_args_def Let_def)

text \<open>
  A request with a payload is fit to be sent: whichever of the three forms of
  \<^verbatim>\<open>request\<close> enqueued it, a message whose argument type starts with the base structure is the
  last in the queue of the target's endpoint and carries the magic numbers in its first two
  words, so that none of the assertions of \<^verbatim>\<open>send_long\<close> fails, at any time and to any address.
\<close>

theorem medium_request_sendable:
  assumes "request_medium cfg seg mynode mp hdrp nd em target mc as pay n pmode dst = Inr (nd', em') \<or>
      request_medium_strided cfg mynode mp hdrp nd em target mc as pay n stride lines pmode dst = Inr (nd', em') \<or>
      request_medium_spans cfg mynode mp hdrp nd em target mc as spans n pmode dst = Inr (nd', em')"
    and "16 \<le> mc_sizeof mc"
  shows "args (nd_msgs nd' hdrp) ! 0 = MESSAGE_ID_MAGIC \<and> length (args (nd_msgs nd' hdrp)) = 16 \<and>
     4 \<le> num_args (nd_msgs nd' hdrp) \<and>
     (\<exists>ep ep'. em_endpoints em target = Some ep \<and> em_endpoints em' target = Some ep' \<and>
        out_long_hdrs ep' = out_long_hdrs ep @ [hdrp]) \<and>
     (\<exists>ep' ws. send_long cfg' nd'' ep (nd_msgs nd' hdrp) d = Inr (ep', ws))"
proof -
  obtain src psize mode where
    "enqueue_made cfg mynode mp hdrp nd em target
       (make_message (lmb_size cfg) (mc_msgid mc) (set_magic as) (mc_sizeof mc) src psize mode dst) = Inr (nd', em')"
    using assms(1)
    by (auto simp: request_medium_def request_medium_strided_def request_medium_spans_def enqueue_message_contiguous_def
        enqueue_message_strided_def enqueue_message_spans_def Let_def)
  note q = request_medium_made [OF this assms(2)]
  have "\<exists>ep' ws. send_long cfg' nd'' ep (nd_msgs nd' hdrp) d = Inr (ep', ws)" using q by (intro send_long_total) auto
  with q show ?thesis by blast
qed

text \<open>
  C38. Which short messages can be sent: a class passes the assertion of \<^verbatim>\<open>add_handler_entries\<close> up
  to sixteen argument words, but \<^verbatim>\<open>send_short\<close> has no case for 7, 9, 11, 13 or 15 words: an
  enqueued message of such a class stops the sender, every other one goes out with its words.
\<close>

theorem short_request_arity:
  assumes "add_handler_entries hs mc = Inr hs'" and "0 < mc_sizeof mc" and "arg_words (mc_sizeof mc) \<le> length as"
  shows "\<exists>hdr. make_message lmbsz (mc_msgid mc) as (mc_sizeof mc) src 0 PAYLOAD_NONE 0 = Inr hdr \<and>
     send_short nd'' hdr =
       (if arg_words (mc_sizeof mc) \<in> {7, 9, 11, 13, 15} then Inl Assert_Failed
        else Inr [AMShort (mc_msgid mc) (take (arg_words (mc_sizeof mc)) as)])"
proof -
  let ?n = "arg_words (mc_sizeof mc)"
  have "4 * raw_args mc \<le> 64" using assms(1) by (auto simp: add_handler_entries_def)
  moreover have "?n \<le> raw_args mc"
    unfolding arg_words_def raw_args_def sizeof_AtLeastEightBytes_def by (intro div_le_mono) simp
  ultimately have "?n \<le> 16" by simp
  then obtain hdr where m: "make_message lmbsz (mc_msgid mc) as (mc_sizeof mc) src 0 PAYLOAD_NONE 0 = Inr hdr"
    using assms(3) by (simp add: make_message_def OutgoingMessage_construct_def)
  note f = make_message_fields [OF m]
  have "1 \<le> ?n" using assms(2) by (simp add: arg_words_def)
  then have "?n \<in> set short_arities \<longleftrightarrow> ?n \<notin> {7, 9, 11, 13, 15}"
    using f(3) by (simp add: short_arities_def) presburger
  with f m show ?thesis by (auto simp: send_short_def)
qed

theorem short_request_arity_witness:
  "\<exists>hdr. make_message 64 160 [1, 2, 3, 4, 5, 6, 7] 28 (ContiguousPayload 0 0 PAYLOAD_NONE) 0 PAYLOAD_NONE 0 = Inr hdr \<and>
     send_short demo_node hdr = Inl Assert_Failed"
  using short_request_arity [of "[]" "\<lparr>mc_msgid = 160, mc_sizeof = 28\<rparr>" "[160]" "[1, 2, 3, 4, 5, 6, 7]" 64
      "ContiguousPayload 0 0 PAYLOAD_NONE" demo_node]
  by (simp add: add_handler_entries_def add_handler_entry_def MAX_HANDLERS_def raw_args_def sizeof_AtLeastEightBytes_def
      arg_words_def)

theorem medium_request_sendable_witness:
  "\<exists>nd' em'. request_medium mh_cfg \<lparr>seg_addr = 4096, seg_size = 1024\<rparr> 1 2000 7 demo_node (rv_em mh_rv) 0 mh_class
      [0, 0, 0, 0, 5, 6] 4100 10 PAYLOAD_KEEP 5000 = Inr (nd', em') \<and>
     (\<exists>ep' ws. send_long mh_cfg nd' (mh_ep 0) (nd_msgs nd' 7) 5000 = Inr (ep', ws))"
proof -
  obtain nd' em' where r: "request_medium mh_cfg \<lparr>seg_addr = 4096, seg_size = 1024\<rparr> 1 2000 7 demo_node (rv_em mh_rv) 0 mh_class
      [0, 0, 0, 0, 5, 6] 4100 10 PAYLOAD_KEEP 5000 = Inr (nd', em')"
    by (simp add: request_medium_def enqueue_message_contiguous_def enqueue_made_def make_message_def is_registered_def
        Let_def arg_words_def mh_class_def OutgoingMessage_construct_def set_payload_def mh_cfg_def set_magic_def
        em_enqueue_message_def endpoint_at_def mh_rv_def EndpointManager_construct_def ep_enqueue_message_def
        reserve_srcdata_def ActiveMessageEndpoint_construct_def add_if_empty_def
        add_todo_entry_def put_endpoint_def ring_push_def ring_new_def)
  with medium_request_sendable [of mh_cfg "\<lparr>seg_addr = 4096, seg_size = 1024\<rparr>" 1 2000 7 demo_node "rv_em mh_rv" 0 mh_class
      "[0, 0, 0, 0, 5, 6]" 4100 10 PAYLOAD_KEEP 5000 nd' em'] show ?thesis by (auto simp: mh_class_def)
qed

section \<open>Running the handlers\<close>

text \<open>Handler functions may send messages, but leave the receive buffers of the endpoints alone.\<close>

definition recv_state :: "EndpointManager \<Rightarrow> node_id \<Rightarrow> (addr list \<times> int list) option" where
  "recv_state em i = map_option (\<lambda>ep. (lmb_r_bases ep, lmb_r_counts ep)) (em_endpoints em i)"

definition keeps_recv :: "'s handlers \<Rightarrow> bool" where
  "keeps_recv h \<longleftrightarrow>
     (\<forall>mid as nd em s nd' em' s'. short_hndl h mid as (nd, em, s) = Inr (nd', em', s') \<longrightarrow> recv_state em' = recv_state em) \<and>
     (\<forall>mid as p n nd em s nd' em' s'. med_hndl h mid as p n (nd, em, s) = Inr (nd', em', s') \<longrightarrow> recv_state em' = recv_state em)"

fun in_buffer :: "am_config \<Rightarrow> addr list \<Rightarrow> nat \<Rightarrow> IncomingMessage \<Rightarrow> bool" where
  "in_buffer cfg bases k (IncomingShortMessage sender mc as) = False"
| "in_buffer cfg bases k (IncomingMediumMessage sender mc msgdata msglen as) =
     (find_buffer (lmb_size cfg) bases msgdata 0 = Some k)"

lemma handle_long_recv:
  assumes "handle_long_msgptr cfg mynode nd em src newp p = Inr (nd', em')" and "recv_state em src = Some (bs, cs)"
  shows "recv_state em' src = Some (bs, case find_buffer (lmb_size cfg) bs p 0 of None \<Rightarrow> cs | Some k \<Rightarrow> cs[k := cs ! k + 1])"
  using assms
  by (auto simp: handle_long_msgptr_def em_handle_long_msgptr_def endpoint_at_def recv_state_def ep_handle_long_msgptr_def
      queue_flip_ack_def Let_def add_if_empty_def add_todo_entry_def put_endpoint_def
      split: option.splits if_splits)

lemma run_handler_recv:
  assumes h: "keeps_recv h" and r: "run_handler cfg mynode newp h imsg (nd, em, s) = Inr (nd', em', s')"
    and st: "recv_state em (get_peer imsg) = Some (bs, cs)" and k: "k < length cs"
  shows "\<exists>cs'. recv_state em' (get_peer imsg) = Some (bs, cs') \<and> length cs' = length cs \<and>
     cs' ! k = cs ! k + (if in_buffer cfg bs k imsg then 1 else 0)"
proof (cases imsg)
  case (IncomingShortMessage sender mc as)
  with r have "short_hndl h (mc_msgid mc) as (nd, em, s) = Inr (nd', em', s')" by simp
  with h have "recv_state em' = recv_state em" unfolding keeps_recv_def by blast
  with st IncomingShortMessage show ?thesis by auto
next
  case (IncomingMediumMessage sender mc p n as)
  with r obtain nd1 em1 where m: "med_hndl h (mc_msgid mc) as p n (nd, em, s) = Inr (nd1, em1, s')"
    "handle_long_msgptr cfg mynode nd1 em1 sender newp p = Inr (nd', em')" by auto
  with h have "recv_state em1 = recv_state em" unfolding keeps_recv_def by blast
  with st have "recv_state em1 sender = Some (bs, cs)" using IncomingMediumMessage by simp
  from handle_long_recv [OF m(2) this] k IncomingMediumMessage show ?thesis
    by (auto simp: nth_list_update split: option.splits)
qed

lemma run_batch_recv:
  assumes "keeps_recv h" and "run_batch cfg mynode h xs (nd, em, s) = Inr (nd', em', s')"
    and "list_all (\<lambda>x. get_peer (snd x) = src) xs" and "recv_state em src = Some (bs, cs)" and "k < length cs"
  shows "\<exists>cs'. recv_state em' src = Some (bs, cs') \<and>
     cs' ! k = cs ! k + int (length (filter (\<lambda>x. in_buffer cfg bs k (snd x)) xs))"
  using assms
proof (induction xs arbitrary: nd em s cs)
  case (Cons x xs)
  obtain newp imsg where x: "x = (newp, imsg)" by (cases x)
  obtain nd1 em1 s1 where r: "run_handler cfg mynode newp h imsg (nd, em, s) = Inr (nd1, em1, s1)"
    "run_batch cfg mynode h xs (nd1, em1, s1) = Inr (nd', em', s')" using Cons.prems(2) by (auto simp: x)
  have p: "get_peer imsg = src" using Cons.prems(3) by (simp add: x)
  obtain cs1 where c: "recv_state em1 src = Some (bs, cs1)" "length cs1 = length cs"
    "cs1 ! k = cs ! k + (if in_buffer cfg bs k imsg then 1 else 0)"
    using run_handler_recv [OF Cons.prems(1) r(1)] Cons.prems(4,5) unfolding p by blast
  have "list_all (\<lambda>x. get_peer (snd x) = src) xs" "k < length cs1" using Cons.prems(3,5) c(2) by simp_all
  from Cons.IH [OF Cons.prems(1) r(2) this(1) c(1) this(2)] c(3) show ?case by (auto simp: x)
qed simp

text \<open>
  Handled messages are counted per buffer: when a batch of messages of one sender has been handled,
  the count of each receive buffer has grown by exactly the number of messages of the batch
  whose data were in that buffer, whatever else the handler functions did.  The acknowledgement of the
  buffer rests on this count.
\<close>

theorem handled_batch_counted:
  assumes "keeps_recv h" and "run_batch cfg mynode h xs (nd, em, s) = Inr (nd', em', s')"
    and "list_all (\<lambda>x. get_peer (snd x) = src) xs" and "em_endpoints em src = Some ep" and "k < length (lmb_r_counts ep)"
  shows "\<exists>ep'. em_endpoints em' src = Some ep' \<and>
     lmb_r_counts ep' ! k = lmb_r_counts ep ! k + int (length (filter (\<lambda>x. in_buffer cfg (lmb_r_bases ep) k (snd x)) xs))"
  using run_batch_recv [OF assms(1-3), of "lmb_r_bases ep" "lmb_r_counts ep" k] assms(4,5)
  by (auto simp: recv_state_def)

definition mh_handlers :: "nat handlers" where
  "mh_handlers = \<lparr>short_hndl = (\<lambda>mid as (nd, em, s). Inr (nd, em, s + 1)),
     med_hndl = (\<lambda>mid as p n (nd, em, s). Inr (nd, em, s + n))\<rparr>"

theorem handled_batch_counted_witness:
  "\<exists>nd' em' s' ep'. run_batch mh_cfg 1 mh_handlers
      [(60, IncomingMediumMessage 0 mh_class 5056 10 [0, 1, 0, 0]), (61, IncomingShortMessage 0 mh_class [1, 2]),
       (62, IncomingMediumMessage 0 mh_class 5090 4 [1, 1, 0, 0])] (demo_node, rv_em mh_rv, 0) = Inr (nd', em', s') \<and>
     em_endpoints em' 0 = Some ep' \<and> lmb_r_counts ep' ! 0 = 2"
proof -
  let ?xs = "[(60, IncomingMediumMessage 0 mh_class 5056 10 [0, 1, 0, 0]), (61, IncomingShortMessage 0 mh_class [1, 2]),
       (62, IncomingMediumMessage 0 mh_class 5090 4 [1, 1, 0, 0])] :: (msgptr \<times> IncomingMessage) list"
  have h: "keeps_recv mh_handlers" by (simp add: keeps_recv_def mh_handlers_def)
  have z: "replicate 2 (0 :: int) = [0, 0]" by (simp add: numeral_eq_Suc)
  obtain ep where ep: "em_endpoints (rv_em mh_rv) 0 = Some ep" "lmb_r_bases ep = [5056, 4992]" "lmb_r_counts ep = [0, 0]"
    by (simp add: mh_rv_def EndpointManager_construct_def ActiveMessageEndpoint_construct_def mh_cfg_def lmb_base_def upt_rec z)
  have "\<exists>w. run_batch mh_cfg 1 mh_handlers ?xs (demo_node, rv_em mh_rv, 0) = Inr w"
    using ep by (simp add: mh_handlers_def handle_long_msgptr_def em_handle_long_msgptr_def endpoint_at_def
        ep_handle_long_msgptr_def mh_cfg_def add_if_empty_def put_endpoint_def)
  then obtain nd' em' s' where r: "run_batch mh_cfg 1 mh_handlers ?xs (demo_node, rv_em mh_rv, 0) = Inr (nd', em', s')"
    by (metis surj_pair)
  from handled_batch_counted [OF h r, of 0 ep 0] ep have "\<exists>ep'. em_endpoints em' 0 = Some ep' \<and> lmb_r_counts ep' ! 0 = 2"
    by (simp add: mh_cfg_def del: run_batch.simps)
  with r show ?thesis by blast
qed

end
