(* ===== verification/Local_Alloc.thy ===== *)
theory Local_Alloc
  imports Legion_Prelude
begin

text \<open>
  The first allocator of \<^verbatim>\<open>MemoryImpl\<close> (\<^verbatim>\<open>src/templates/mem_impl.cc\<close>): a map of free blocks
  from which \<^verbatim>\<open>alloc_bytes_local\<close> takes the upper end of the highest block that is large enough
  and into which \<^verbatim>\<open>free_bytes_local\<close> merges a block that comes back.  Offsets and sizes are natural
  numbers: a memory is far smaller than the \<^verbatim>\<open>2^63\<close> bytes at which \<^verbatim>\<open>off_t\<close> ends.
\<close>

section \<open>State and operations\<close>

record MemoryImpl =
  mi_size :: nat
  mi_alignment :: nat
  free_blocks :: span_map
  usage :: int
  peak_usage :: int
  peak_footprint :: int

definition ZERO_SIZE_INSTANCE_OFFSET :: nat where
  "ZERO_SIZE_INSTANCE_OFFSET = 2 ^ 50"

definition pad_size :: "nat \<Rightarrow> nat \<Rightarrow> nat" where
  "pad_size alignment sz =
     (if alignment > 0 then
        let leftover = sz mod alignment in if leftover > 0 then sz + (alignment - leftover) else sz
      else sz)"

text \<open>The walk over the blocks, from the highest to the lowest.\<close>

fun scan_blocks :: "nat \<Rightarrow> span_map \<Rightarrow> (addr \<times> nat) option" where
  "scan_blocks sz [] = None"
| "scan_blocks sz ((first, second) # it) =
     (if second = sz then Some (first, second)
      else if second > sz then Some (first, second)
      else scan_blocks sz it)"

definition record_use :: "nat \<Rightarrow> addr \<Rightarrow> MemoryImpl \<Rightarrow> MemoryImpl" where
  "record_use sz retval m =
     (let u = usage m + int sz; footprint = int (mi_size m) - int retval
      in m\<lparr>usage := u, peak_usage := (if u > peak_usage m then u else peak_usage m),
           peak_footprint := (if footprint > peak_footprint m then footprint else peak_footprint m)\<rparr>)"

definition alloc_bytes_local :: "MemoryImpl \<Rightarrow> nat \<Rightarrow> int \<times> MemoryImpl" where
  "alloc_bytes_local m sz0 =
     (if sz0 = 0 then (int (mi_size m + ZERO_SIZE_INSTANCE_OFFSET), m)
      else
        let sz = pad_size (mi_alignment m) sz0
        in case scan_blocks sz (rev (free_blocks m)) of
             None \<Rightarrow> (- 1, m)
           | Some (first, second) \<Rightarrow>
               if second = sz then
                 (int first, record_use sz first (m\<lparr>free_blocks := om_del first (free_blocks m)\<rparr>))
               else
                 let leftover = second - sz; retval = first + leftover
                 in (int retval, record_use sz retval (m\<lparr>free_blocks := om_put first leftover (free_blocks m)\<rparr>)))"

text \<open>Merging a block with the block after it, and then with the block before it.\<close>

definition eat_after :: "span_map \<Rightarrow> addr \<Rightarrow> nat \<Rightarrow> addr \<times> nat \<Rightarrow> span_map \<times> nat" where
  "eat_after fb offset sz after =
     (if offset + sz = fst after then (om_del (fst after) fb, sz + snd after) else (fb, sz))"

definition grow_before :: "span_map \<Rightarrow> addr \<Rightarrow> nat \<Rightarrow> addr \<times> nat \<Rightarrow> span_map outcome" where
  "grow_before fb offset sz before =
     (if \<not> fst before + snd before \<le> offset then Inl Assert_Failed
      else if fst before + snd before = offset then Inr (om_put (fst before) (snd before + sz) fb)
      else Inr (om_put offset sz fb))"

definition insert_block :: "span_map \<Rightarrow> addr \<Rightarrow> nat \<Rightarrow> span_map outcome" where
  "insert_block fb offset sz =
     (if fb \<noteq> [] then
        case om_from offset fb of
          after # _ \<Rightarrow>
            if om_below offset fb = [] then
              if \<not> offset + sz \<le> fst after then Inl Assert_Failed
              else let (fb1, sz1) = eat_after fb offset sz after in Inr (om_put offset sz1 fb1)
            else
              if \<not> offset + sz \<le> fst after then Inl Assert_Failed
              else let (fb1, sz1) = eat_after fb offset sz after
                   in grow_before fb1 offset sz1 (last (om_below offset fb))
        | [] \<Rightarrow> grow_before fb offset sz (last (om_below offset fb))
      else Inr (om_put offset sz fb))"

definition free_bytes_local :: "MemoryImpl \<Rightarrow> addr \<Rightarrow> nat \<Rightarrow> MemoryImpl outcome" where
  "free_bytes_local m offset sz0 =
     (if sz0 = 0 then
        if offset = mi_size m + ZERO_SIZE_INSTANCE_OFFSET then Inr m else Inl Assert_Failed
      else
        let sz = pad_size (mi_alignment m) sz0
        in obind (insert_block (free_blocks m) offset sz) (\<lambda>fb.
             Inr (m\<lparr>usage := usage m - int sz, free_blocks := fb\<rparr>)))"

section \<open>Invariant\<close>

text \<open>
  \<open>mem_ok m live\<close>: the free blocks, merged, and the ranges that clients hold tile the memory,
  lengths are multiples of the alignment, and the gauge of bytes in use is exact.
\<close>

definition tiled :: "nat \<Rightarrow> span_map \<Rightarrow> span_map \<Rightarrow> bool" where
  "tiled n fb live \<longleftrightarrow> gapped fb \<and> apart live \<and> bytes_of fb \<inter> bytes_of live = {} \<and>
     bytes_of fb \<union> bytes_of live = {..< n}"

definition mem_ok :: "MemoryImpl \<Rightarrow> span_map \<Rightarrow> bool" where
  "mem_ok m live \<longleftrightarrow> tiled (mi_size m) (free_blocks m) live \<and>
     (\<forall>x \<in> set live. pad_size (mi_alignment m) (snd x) = snd x) \<and>
     usage m = int (\<Sum>x \<in> set live. snd x)"

lemma pad_size_ge: "sz \<le> pad_size a sz"
  unfolding pad_size_def Let_def by (metis le_add1 order_refl)

lemma pad_size_pos: "0 < sz \<Longrightarrow> 0 < pad_size a sz"
  using pad_size_ge [of sz a] by linarith

lemma pad_size_dvd:
  assumes "0 < a"
  shows "a dvd pad_size a sz"
proof -
  have "sz + (a - sz mod a) = sz div a * a + a"
    using mod_less_divisor [OF assms, of sz] div_mult_mod_eq [of sz a] by linarith
  then show ?thesis using assms by (auto simp: pad_size_def Let_def simp del: add_diff_assoc)
qed

lemma pad_size_idem [simp]: "pad_size a (pad_size a sz) = pad_size a sz"
proof (cases "0 < a")
  case True
  then show ?thesis using pad_size_dvd [OF True, of sz] by (simp add: pad_size_def [of a "pad_size a sz"] Let_def)
qed (simp add: pad_size_def)

lemma scan_blocks_Some:
  "scan_blocks sz bs = Some (p, s) \<Longrightarrow>
     sz \<le> s \<and> (\<exists>us vs. bs = us @ (p, s) # vs \<and> (\<forall>x \<in> set us. snd x < sz))"
proof (induction bs)
  case (Cons b bs)
  obtain q t where b: "b = (q, t)" by (cases b)
  show ?case
  proof (cases "sz \<le> t")
    case True
    with Cons.prems b have "p = q" "s = t" by (auto split: if_splits)
    with True b show ?thesis by (intro conjI exI [of _ "[]"] exI [of _ bs]) auto
  next
    case False
    with Cons b obtain us vs where "bs = us @ (p, s) # vs" "\<forall>x \<in> set us. snd x < sz" "sz \<le> s" by auto
    with b False show ?thesis by (intro conjI exI [of _ "b # us"] exI [of _ vs]) auto
  qed
qed simp

lemma scan_blocks_None: "scan_blocks sz bs = None \<Longrightarrow> \<forall>x \<in> set bs. snd x < sz"
  by (induction sz bs rule: scan_blocks.induct) (auto split: if_splits)

section \<open>Tilings\<close>

lemma tiled_take:
  assumes t: "tiled n fb live" and g: "gapped fb'" and k: "0 < k" "{p ..< p + k} \<subseteq> bytes_of fb"
    and b: "bytes_of fb' = bytes_of fb - {p ..< p + k}"
  shows "tiled n fb' (om_put p k live)" "set (om_put p k live) = insert (p, k) (set live)"
    "(p, k) \<notin> set live"
proof -
  have ap: "apart live" "om_ok live" using t by (auto simp: tiled_def apart_def)
  have d: "bytes_of live \<inter> {p ..< p + k} = {}" using t k(2) unfolding tiled_def by blast
  note put = apart_put [OF ap(1) k(1) d]
  show "set (om_put p k live) = insert (p, k) (set live)" using put(2) by (force simp: set_om_put ap(2))
  show "(p, k) \<notin> set live" using put(2) by force
  have U: "bytes_of (om_put p k live) = bytes_of live \<union> {p ..< p + k}"
    using ap(2) put(2) by (rule bytes_of_put_fresh)
  have "bytes_of fb' \<inter> bytes_of (om_put p k live) = {}" "bytes_of fb' \<union> bytes_of (om_put p k live) = {..< n}"
    using t k(2) unfolding U b tiled_def by blast+
  with g put(1) show "tiled n fb' (om_put p k live)" by (simp add: tiled_def)
qed

lemma tiled_give:
  assumes t: "tiled n fb live" and g: "gapped fb'" and p: "(p, k) \<in> set live"
    and b: "bytes_of fb' = bytes_of fb \<union> {p ..< p + k}"
  shows "tiled n fb' (om_del p live)" "set (om_del p live) = set live - {(p, k)}"
proof -
  have ap: "apart live" "om_ok live" using t by (auto simp: tiled_def apart_def)
  show "set (om_del p live) = set live - {(p, k)}" using ap(2) p by (rule set_om_del_entry)
  have D: "bytes_of (om_del p live) = bytes_of live - {p ..< p + k}" using ap(1) p by (rule bytes_of_del)
  have "{p ..< p + k} \<subseteq> bytes_of live" using span_subset_bytes [OF p] by (simp add: span_pair)
  then have "bytes_of fb' \<inter> bytes_of (om_del p live) = {}" "bytes_of fb' \<union> bytes_of (om_del p live) = {..< n}"
    using t unfolding D b tiled_def by blast+
  with g apart_del [OF ap(1)] show "tiled n fb' (om_del p live)" by (simp add: tiled_def)
qed

lemma eat_after_spec:
  assumes g: "gapped fb" and d: "bytes_of fb \<inter> {p ..< p + n} = {}" and n: "0 < n"
    and f: "om_from p fb = a # as" and e: "eat_after fb p n a = (fb1, n1)"
  shows "gapped fb1" "0 < n1" "set (om_below p fb) \<subseteq> set fb1"
    "\<forall>x \<in> set fb1. x \<in> set (om_below p fb) \<or> p + n1 < fst x"
    "bytes_of fb1 \<union> {p ..< p + n1} = bytes_of fb \<union> {p ..< p + n}"
proof -
  have ok: "om_ok fb" using g by (rule gapped_om_ok)
  have af: "a \<in> set fb" using f set_om_split [of fb p] by simp
  have hi: "p + n \<le> fst a" using gapped_sides(2) [OF g d n] f by simp
  have above: "fst a + snd a < fst y" if "y \<in> set as" for y
  proof -
    have "gapped (om_from p fb)" using g gapped_append [of "om_below p fb" "om_from p fb"] by (simp add: om_split)
    with that f show ?thesis by (simp add: gapped_def)
  qed
  have split: "set fb = set (om_below p fb) \<union> insert a (set as)"
    using set_om_split [of fb p] f by simp
  have low: "fst x < p" if "x \<in> set (om_below p fb)" for x using that by (rule om_below_less)
  show "0 < n1" using e n by (auto simp: eat_after_def split: if_splits)
  show "gapped fb1" using e g by (auto simp: eat_after_def gapped_del split: if_splits)
  show "set (om_below p fb) \<subseteq> set fb1"
    using e low hi split by (fastforce simp: eat_after_def set_om_del split: if_splits)
  show "\<forall>x \<in> set fb1. x \<in> set (om_below p fb) \<or> p + n1 < fst x"
  proof
    fix x assume x: "x \<in> set fb1"
    show "x \<in> set (om_below p fb) \<or> p + n1 < fst x"
    proof (cases "p + n = fst a")
      case True
      then have r: "fb1 = om_del (fst a) fb" "n1 = n + snd a" using e by (auto simp: eat_after_def)
      with x split have "x \<in> set (om_below p fb) \<or> x \<in> set as" by (auto simp: set_om_del)
      with above [of x] True r(2) show ?thesis by auto
    next
      case False
      then have r: "fb1 = fb" "n1 = n" using e by (auto simp: eat_after_def)
      with x split above [of x] hi False show ?thesis by auto
    qed
  qed
  show "bytes_of fb1 \<union> {p ..< p + n1} = bytes_of fb \<union> {p ..< p + n}"
  proof (cases "p + n = fst a")
    case True
    then have r: "fb1 = om_del (fst a) fb" "n1 = n + snd a" using e by (auto simp: eat_after_def)
    have "bytes_of fb1 = bytes_of fb - {fst a ..< fst a + snd a}"
      unfolding r by (rule bytes_of_del [OF gapped_apart [OF g]]) (simp add: af)
    moreover have "{fst a ..< fst a + snd a} \<subseteq> bytes_of fb" using span_subset_bytes [OF af] by (simp add: span_def)
    moreover have "{p ..< p + n1} = {p ..< p + n} \<union> {fst a ..< fst a + snd a}" using r(2) True by auto
    ultimately show ?thesis by blast
  next
    case False
    with e show ?thesis by (simp add: eat_after_def)
  qed
qed

lemma grow_before_spec:
  assumes g: "gapped fb" and n: "0 < n" and b: "b \<in> set fb" "fst b + snd b \<le> p"
    and sep: "\<forall>x \<in> set fb. x = b \<or> fst x + snd x < fst b \<or> p + n < fst x"
  shows "\<exists>fb'. grow_before fb p n b = Inr fb' \<and> gapped fb' \<and> bytes_of fb' = bytes_of fb \<union> {p ..< p + n}"
proof (cases "fst b + snd b = p")
  case True
  obtain q t where q: "b = (q, t)" by (cases b)
  have *: "\<forall>x \<in> set fb. q < fst x \<longrightarrow> q + t + n < fst x" using sep True unfolding q by auto
  have "(q, t) \<in> set fb" using b(1) q by simp
  from gapped_grow [OF g this *] True q show ?thesis by (simp add: grow_before_def)
next
  case False
  have "0 < snd b" using g b(1) by (simp add: gapped_def)
  with sep b(2) False have *: "\<forall>x \<in> set fb. fst x + snd x < p \<or> p + n < fst x" by fastforce
  note I = gapped_insert [OF g n *]
  from I(1) bytes_of_put_fresh [OF gapped_om_ok [OF g] I(2), of n] b(2) False show ?thesis
    by (simp add: grow_before_def)
qed

lemma last_below:
  assumes g: "gapped fb" and "om_below p fb \<noteq> []"
  shows "last (om_below p fb) \<in> set (om_below p fb)"
    "\<forall>x \<in> set (om_below p fb). x = last (om_below p fb) \<or> fst x + snd x < fst (last (om_below p fb))"
proof -
  define B where "B = om_below p fb"
  have gB: "gapped B" using g gapped_append [of "om_below p fb" "om_from p fb"] by (simp add: om_split B_def)
  have B: "B = butlast B @ [last B]" using assms(2) by (simp add: B_def)
  show "last (om_below p fb) \<in> set (om_below p fb)" using assms(2) by simp
  have "fst x + snd x < fst (last B)" if "x \<in> set (butlast B)" for x
    using gB that unfolding gapped_def by (subst (asm) B) (simp add: sorted_wrt_append)
  moreover have "set B = insert (last B) (set (butlast B))" by (subst B) simp
  ultimately show "\<forall>x \<in> set (om_below p fb). x = last (om_below p fb) \<or> fst x + snd x < fst (last (om_below p fb))"
    unfolding B_def by blast
qed

lemma insert_block_spec:
  assumes g: "gapped fb" and d: "bytes_of fb \<inter> {p ..< p + n} = {}" and n: "0 < n"
  shows "\<exists>fb'. insert_block fb p n = Inr fb' \<and> gapped fb' \<and> bytes_of fb' = bytes_of fb \<union> {p ..< p + n}"
proof (cases "om_from p fb")
  case Nil
  then have fb: "om_below p fb = fb" using om_split [of p fb] by simp
  show ?thesis
  proof (cases "fb = []")
    case True
    then show ?thesis using n
      by (simp add: insert_block_def om_put_def om_below_def om_from_def om_del_def gapped_def span_pair)
  next
    case False
    let ?b = "last fb"
    have b: "?b \<in> set fb" "\<forall>x \<in> set fb. x = ?b \<or> fst x + snd x < fst ?b"
      using last_below [OF g, of p] False fb by simp_all
    have "fst ?b + snd ?b \<le> p" using gapped_sides(1) [OF g d n] b(1) fb by simp
    moreover have "\<forall>x \<in> set fb. x = ?b \<or> fst x + snd x < fst ?b \<or> p + n < fst x" using b(2) by blast
    ultimately have "\<exists>fb'. grow_before fb p n ?b = Inr fb' \<and> gapped fb' \<and> bytes_of fb' = bytes_of fb \<union> {p ..< p + n}"
      by (rule grow_before_spec [OF g n b(1)])
    with Nil False fb show ?thesis by (simp add: insert_block_def)
  qed
next
  case (Cons a as)
  then have ne: "fb \<noteq> []" by (auto simp: om_from_def)
  have hi: "p + n \<le> fst a" using gapped_sides(2) [OF g d n] Cons by simp
  obtain fb1 n1 where e: "eat_after fb p n a = (fb1, n1)" by (cases "eat_after fb p n a")
  note E = eat_after_spec [OF g d n Cons e]
  show ?thesis
  proof (cases "om_below p fb = []")
    case True
    with E(4) have "\<forall>x \<in> set fb1. fst x + snd x < p \<or> p + n1 < fst x" by auto
    note I = gapped_insert [OF E(1,2) this]
    from I(1) bytes_of_put_fresh [OF gapped_om_ok [OF E(1)] I(2), of n1] E(5) True Cons ne hi e show ?thesis
      by (simp add: insert_block_def)
  next
    case False
    note b = last_below [OF g False]
    let ?b = "last (om_below p fb)"
    have "fst ?b + snd ?b \<le> p" using gapped_sides(1) [OF g d n] b(1) by simp
    moreover have "?b \<in> set fb1" using b(1) E(3) by blast
    moreover have "\<forall>x \<in> set fb1. x = ?b \<or> fst x + snd x < fst ?b \<or> p + n1 < fst x" using E(4) b(2) by blast
    ultimately obtain fb' where "grow_before fb1 p n1 ?b = Inr fb'" "gapped fb'"
      "bytes_of fb' = bytes_of fb1 \<union> {p ..< p + n1}"
      using grow_before_spec [OF E(1,2)] by blast
    with E(5) False Cons ne hi e show ?thesis by (simp add: insert_block_def)
  qed
qed

section \<open>Both operations keep the invariant\<close>

lemma alloc_bytes_local_cases:
  assumes ok: "mem_ok m live" and sz: "0 < sz"
  obtains (full) "alloc_bytes_local m sz = (- 1, m)" "\<forall>x \<in> set (free_blocks m). snd x < pad_size (mi_alignment m) sz"
  | (got) p m' first second k where "k = pad_size (mi_alignment m) sz" "alloc_bytes_local m sz = (int p, m')"
      "(first, second) \<in> set (free_blocks m)" "k \<le> second" "p = first + (second - k)"
      "\<forall>x \<in> set (free_blocks m). first < fst x \<longrightarrow> snd x < k"
      "{p ..< p + k} \<subseteq> bytes_of (free_blocks m)" "mem_ok m' (om_put p k live)"
      "mi_size m' = mi_size m" "mi_alignment m' = mi_alignment m"
proof -
  define k where "k = pad_size (mi_alignment m) sz"
  have k: "0 < k" using sz by (simp add: k_def pad_size_pos)
  have t: "tiled (mi_size m) (free_blocks m) live" and g: "gapped (free_blocks m)"
    using ok by (auto simp: mem_ok_def tiled_def)
  show ?thesis
  proof (cases "scan_blocks k (rev (free_blocks m))")
    case None
    with sz show ?thesis using scan_blocks_None [OF None]
      by (intro full) (simp_all add: alloc_bytes_local_def k_def [symmetric])
  next
    case (Some x)
    obtain p s where x: "x = (p, s)" by (cases x)
    from scan_blocks_Some [OF Some [unfolded x]] obtain us vs where
      uv: "k \<le> s" "rev (free_blocks m) = us @ (p, s) # vs" "\<forall>x \<in> set us. snd x < k" by blast
    have fb: "free_blocks m = rev vs @ (p, s) # rev us" using uv(2) by (simp add: rev_eq_append_conv)
    have ps: "(p, s) \<in> set (free_blocks m)" by (simp add: fb)
    have hi: "\<forall>x \<in> set (free_blocks m). p < fst x \<longrightarrow> snd x < k"
      using uv(3) gapped_om_ok [OF g] unfolding fb by (fastforce simp: sorted_wrt_append)
    have sub: "{p ..< p + s} \<subseteq> bytes_of (free_blocks m)" using span_subset_bytes [OF ps] by (simp add: span_pair)
    let ?q = "p + (s - k)"
    let ?fb = "if s = k then om_del p (free_blocks m) else om_put p (s - k) (free_blocks m)"
    define m' where "m' = record_use k ?q (m\<lparr>free_blocks := ?fb\<rparr>)"
    have r: "alloc_bytes_local m sz = (int ?q, m')"
      using Some x sz uv(1) unfolding m'_def by (simp add: alloc_bytes_local_def Let_def k_def [symmetric])
    have q1: "{?q ..< ?q + k} = {?q ..< p + s}" "{?q ..< p + s} \<subseteq> {p ..< p + s}" using uv(1) by auto
    then have q: "{?q ..< ?q + k} = {?q ..< p + s}" "{?q ..< ?q + k} \<subseteq> bytes_of (free_blocks m)"
      using sub by (simp, blast)
    have B: "gapped ?fb \<and> bytes_of ?fb = bytes_of (free_blocks m) - {?q ..< ?q + k}"
    proof (cases "s = k")
      case True
      with gapped_del [OF g] bytes_of_del [OF gapped_apart [OF g] ps] show ?thesis by simp
    next
      case False
      with uv(1) gapped_shrink(1,2) [OF g ps, of "s - k"] show ?thesis unfolding q(1) by simp
    qed
    note T = tiled_take [OF t _ k q(2), of ?fb]
    have T1: "tiled (mi_size m) ?fb (om_put ?q k live)" using B T(1) by blast
    have T2: "set (om_put ?q k live) = insert (?q, k) (set live)" "(?q, k) \<notin> set live" using B T(2,3) by blast+
    have "mem_ok m' (om_put ?q k live)"
      using ok T1 T2(2) unfolding mem_ok_def T2(1) m'_def record_use_def Let_def
      by (simp add: k_def)
    with r ps uv(1) hi q(2) show ?thesis
      by (intro got [OF k_def r ps uv(1) refl hi q(2)]) (simp_all add: m'_def record_use_def Let_def)
  qed
qed

lemma free_bytes_local_ok:
  assumes ok: "mem_ok m live" and p: "(p, k) \<in> set live" and sz: "0 < sz" "pad_size (mi_alignment m) sz = k"
  shows "\<exists>m'. free_bytes_local m p sz = Inr m' \<and> mem_ok m' (om_del p live) \<and>
    mi_size m' = mi_size m \<and> mi_alignment m' = mi_alignment m \<and>
    bytes_of (free_blocks m') = bytes_of (free_blocks m) \<union> {p ..< p + k}"
proof -
  have t: "tiled (mi_size m) (free_blocks m) live" and g: "gapped (free_blocks m)"
    using ok by (auto simp: mem_ok_def tiled_def)
  have k: "0 < k" using sz pad_size_pos by blast
  have "{p ..< p + k} \<subseteq> bytes_of live" using span_subset_bytes [OF p] by (simp add: span_pair)
  then have "bytes_of (free_blocks m) \<inter> {p ..< p + k} = {}" using t unfolding tiled_def by blast
  from insert_block_spec [OF g this k] obtain fb where
    fb: "insert_block (free_blocks m) p k = Inr fb" "gapped fb" "bytes_of fb = bytes_of (free_blocks m) \<union> {p ..< p + k}"
    by blast
  note T = tiled_give [OF t fb(2) p fb(3)]
  let ?m = "m\<lparr>usage := usage m - int k, free_blocks := fb\<rparr>"
  have "(\<Sum>x \<in> set live. snd x) = k + (\<Sum>x \<in> set live - {(p, k)}. snd x)"
    using p by (simp add: sum.remove)
  then have "mem_ok ?m (om_del p live)"
    using ok T by (auto simp: mem_ok_def)
  moreover have "free_bytes_local m p sz = Inr ?m" using sz fb(1) by (simp add: free_bytes_local_def)
  ultimately show ?thesis using fb(3) by simp
qed

definition mem_take :: "MemoryImpl \<Rightarrow> nat \<Rightarrow> (MemoryImpl \<times> addr \<times> nat) option" where
  "mem_take m n =
     (if n = 0 then None
      else let (r, m') = alloc_bytes_local m n
           in if r = - 1 then None else Some (m', nat r, pad_size (mi_alignment m) n))"

definition mem_give :: "MemoryImpl \<Rightarrow> addr \<Rightarrow> nat \<Rightarrow> MemoryImpl option" where
  "mem_give m p k = (case free_bytes_local m p k of Inr m' \<Rightarrow> Some m' | Inl _ \<Rightarrow> None)"

interpretation mem: range_allocator mem_ok "\<lambda>m. {..< mi_size m}" mem_take mem_give
proof (unfold_locales, goal_cases)
  case (1 m live)
  then show ?case by (simp add: mem_ok_def tiled_def)
next
  case (2 m live)
  then show ?case unfolding mem_ok_def tiled_def by blast
next
  case (3 m live n m' p k)
  then have n: "0 < n" by (auto simp: mem_take_def split: if_splits)
  from 3(1) n show ?case
  proof (cases rule: alloc_bytes_local_cases)
    case full
    with 3(2) n show ?thesis by (simp add: mem_take_def)
  next
    case (got q m1 first second k1)
    with 3(2) n have e: "m' = m1" "p = q" "k = k1" by (auto simp: mem_take_def)
    have "bytes_of live \<inter> {q ..< q + k1} = {}" using got(7) 3(1) unfolding mem_ok_def tiled_def by blast
    with got(1,8,9) pad_size_ge [of n] show ?thesis unfolding e by simp
  qed
next
  case (4 m live p k)
  then have k: "pad_size (mi_alignment m) k = k" "0 < k" by (auto simp: mem_ok_def tiled_def apart_def)
  from free_bytes_local_ok [OF 4 k(2,1)] show ?case by (auto simp: mem_give_def)
qed

section \<open>Memories of the node and of other nodes\<close>

text \<open>
  \<^verbatim>\<open>LocalCPUMemory\<close> puts the allocator on memory of this node, either given by the caller or
  obtained with \<^verbatim>\<open>new\<close>: \<open>new_char n\<close> is the address that \<^verbatim>\<open>new char[n]\<close> returns.
\<close>

definition CPU_ALIGNMENT :: nat where
  "CPU_ALIGNMENT = 256"

record LocalCPUMemory =
  cpu_impl :: MemoryImpl
  cpu_base :: addr
  cpu_base_orig :: "addr option"
  cpu_prealloced :: bool
  cpu_registered :: bool

definition MemoryImpl_construct :: "nat \<Rightarrow> nat \<Rightarrow> MemoryImpl" where
  "MemoryImpl_construct sz al =
     \<lparr>mi_size = sz, mi_alignment = al, free_blocks = [], usage = 0, peak_usage = 0, peak_footprint = 0\<rparr>"

definition LocalCPUMemory_construct ::
  "(nat \<Rightarrow> addr) \<Rightarrow> nat \<Rightarrow> addr \<Rightarrow> bool \<Rightarrow> LocalCPUMemory outcome" where
  "LocalCPUMemory_construct new_char sz prealloc_base registered0 =
     (let impl = MemoryImpl_construct sz CPU_ALIGNMENT;
          impl' = impl\<lparr>free_blocks := om_put 0 sz (free_blocks impl)\<rparr>
      in if prealloc_base \<noteq> 0 then
           Inr \<lparr>cpu_impl = impl', cpu_base = prealloc_base, cpu_base_orig = None,
                cpu_prealloced = True, cpu_registered = registered0\<rparr>
         else
           let base_orig = new_char (sz + CPU_ALIGNMENT - 1);
               ofs = base_orig mod CPU_ALIGNMENT
           in obind (cassert (\<not> registered0)) (\<lambda>_.
                Inr \<lparr>cpu_impl = impl',
                     cpu_base = (if ofs > 0 then base_orig + (CPU_ALIGNMENT - ofs) else base_orig),
                     cpu_base_orig = Some base_orig, cpu_prealloced = False, cpu_registered = False\<rparr>))"

definition cpu_get_bytes :: "LocalCPUMemory \<Rightarrow> memory \<Rightarrow> addr \<Rightarrow> addr \<Rightarrow> nat \<Rightarrow> memory" where
  "cpu_get_bytes c mem offset dst sz = memcpy mem dst (cpu_base c + offset) sz"

definition cpu_put_bytes :: "LocalCPUMemory \<Rightarrow> memory \<Rightarrow> addr \<Rightarrow> addr \<Rightarrow> nat \<Rightarrow> memory" where
  "cpu_put_bytes c mem offset src sz = memcpy mem (cpu_base c + offset) src sz"

definition cpu_get_direct_ptr :: "LocalCPUMemory \<Rightarrow> addr \<Rightarrow> nat \<Rightarrow> addr" where
  "cpu_get_direct_ptr c offset sz = cpu_base c + offset"

definition cpu_get_home_node :: "node_id \<Rightarrow> addr \<Rightarrow> nat \<Rightarrow> node_id" where
  "cpu_get_home_node my_node_id offset sz = my_node_id"

definition local_reg_base :: "LocalCPUMemory \<Rightarrow> addr" where
  "local_reg_base c = (if cpu_registered c then cpu_base c else 0)"

lemma cpu_construct_ok:
  assumes "LocalCPUMemory_construct new_char sz pre reg = Inr c" and "0 < sz"
  shows "mem_ok (cpu_impl c) []"
  using assms
  by (auto simp: LocalCPUMemory_construct_def MemoryImpl_construct_def Let_def mem_ok_def tiled_def
      om_put_def om_below_def om_from_def om_del_def gapped_def apart_def span_pair split: if_splits)

text \<open>Example: a memory of 1024 bytes from which 300 have been allocated (rounded up to 512).\<close>

definition cpu_demo :: MemoryImpl where
  "cpu_demo = \<lparr>mi_size = 1024, mi_alignment = 256, free_blocks = [(0, 512)], usage = 512, peak_usage = 512,
     peak_footprint = 512\<rparr>"

lemma cpu_demo_ok: "mem_ok cpu_demo [(512, 512)]"
  by (auto simp: mem_ok_def tiled_def cpu_demo_def gapped_def apart_def span_pair pad_size_def)

lemmas cpu_eval = cpu_demo_def alloc_bytes_local_def free_bytes_local_def pad_size_def record_use_def
  insert_block_def eat_after_def grow_before_def om_put_def om_below_def om_from_def om_del_def

section \<open>Properties\<close>

text \<open>
  Allocation from a well-formed memory either fails, with every free block too small and the
  state unchanged, or takes the upper end of the highest sufficient block: the range handed out was
  free, its length is the size rounded up to the alignment, no block above it would have been large
  enough, and the memory stays well formed with that range added.
\<close>

theorem alloc_bytes_local_correct:
  assumes "mem_ok m live" and "0 < sz"
  shows "alloc_bytes_local m sz = (- 1, m) \<and> (\<forall>x \<in> set (free_blocks m). snd x < pad_size (mi_alignment m) sz)
    \<or> (\<exists>p m'. alloc_bytes_local m sz = (int p, m') \<and>
         {p ..< p + pad_size (mi_alignment m) sz} \<subseteq> bytes_of (free_blocks m) \<and>
         mem_ok m' (om_put p (pad_size (mi_alignment m) sz) live) \<and>
         (\<forall>x \<in> set (free_blocks m). p < fst x \<longrightarrow> snd x < pad_size (mi_alignment m) sz))"
  using assms
proof (cases rule: alloc_bytes_local_cases)
  case (got p m' first second k)
  then have "\<forall>x \<in> set (free_blocks m). p < fst x \<longrightarrow> snd x < k" by auto
  with got show ?thesis by blast
qed simp

theorem alloc_bytes_local_correct_witness:
  "\<exists>p m'. alloc_bytes_local cpu_demo 100 = (int p, m') \<and> mem_ok m' (om_put p 256 [(512, 512)])"
  using alloc_bytes_local_correct [OF cpu_demo_ok, of 100] by (auto simp: cpu_demo_def pad_size_def)

text \<open>
  Freeing a range that was handed out, with the size it was asked for with, passes every
  assertion of \<^verbatim>\<open>free_bytes_local\<close>: its bytes are free again, merged with the neighbouring
  blocks, and the memory stays well formed without the range.
\<close>

theorem free_bytes_local_correct:
  assumes "mem_ok m live" and "(p, pad_size (mi_alignment m) sz) \<in> set live" and "0 < sz"
  shows "\<exists>m'. free_bytes_local m p sz = Inr m' \<and> mem_ok m' (om_del p live) \<and>
    bytes_of (free_blocks m') = bytes_of (free_blocks m) \<union> {p ..< p + pad_size (mi_alignment m) sz}"
  using free_bytes_local_ok [OF assms refl] by blast

theorem free_bytes_local_correct_witness:
  "\<exists>m'. free_bytes_local cpu_demo 512 300 = Inr m' \<and> mem_ok m' (om_del 512 [(512, 512)])"
  using free_bytes_local_correct [OF cpu_demo_ok, of 512 300] by (auto simp: cpu_demo_def pad_size_def)

text \<open>
  Allocating and freeing at once restores the free blocks and the usage exactly: no block is
  split or lost.
\<close>

theorem alloc_free_roundtrip:
  assumes "mem_ok m live" and "0 < sz" and "alloc_bytes_local m sz = (int p, m')"
  shows "\<exists>m''. free_bytes_local m' p sz = Inr m'' \<and> free_blocks m'' = free_blocks m \<and> usage m'' = usage m"
  using assms(1,2)
proof (cases rule: alloc_bytes_local_cases)
  case full
  with assms(3) show ?thesis by simp
next
  case (got q m1 first second k)
  with assms(3) have e: "m1 = m'" "q = p" by auto
  have t: "tiled (mi_size m) (free_blocks m) live" using assms(1) by (simp add: mem_ok_def)
  then have ap: "om_ok live" "bytes_of (free_blocks m) \<inter> bytes_of live = {}" "apart live"
    by (auto simp: tiled_def apart_def)
  have k: "0 < k" using got(1) assms(2) by (simp add: pad_size_pos)
  have "(p, k) \<in> set (om_put p k live)" by (simp add: set_om_put ap(1))
  from free_bytes_local_ok [OF got(8) [unfolded e] this assms(2)] got(1,10) e obtain m'' where
    m'': "free_bytes_local m' p sz = Inr m''" "mem_ok m'' (om_del p (om_put p k live))" "mi_size m'' = mi_size m'"
    by auto
  have "bytes_of live \<inter> {p ..< p + k} = {}" using got(7) ap(2) e by blast
  note fresh = apart_put(2) [OF ap(3) k this]
  then have "set (om_del p (om_put p k live)) = set live" by (force simp: set_om_del set_om_put ap(1))
  then have live: "om_del p (om_put p k live) = live" using ap(1) by (intro om_ok_unique) auto
  have "bytes_of (free_blocks m'') = bytes_of (free_blocks m)"
    using m''(2,3) t got(9) e unfolding live mem_ok_def tiled_def by auto
  moreover have "gapped (free_blocks m'')" "gapped (free_blocks m)"
    using m''(2) t by (auto simp: mem_ok_def tiled_def)
  ultimately have "free_blocks m'' = free_blocks m" by (intro gapped_unique)
  with m'' assms(1) show ?thesis unfolding live by (auto simp: mem_ok_def)
qed

theorem alloc_free_roundtrip_witness:
  "\<exists>m''. free_bytes_local (snd (alloc_bytes_local cpu_demo 100)) 256 100 = Inr m'' \<and> free_blocks m'' = [(0, 512)]"
proof -
  have "alloc_bytes_local cpu_demo 100 = (int 256, snd (alloc_bytes_local cpu_demo 100))" by (simp add: cpu_eval)
  from alloc_free_roundtrip [OF cpu_demo_ok _ this] show ?thesis by (auto simp: cpu_demo_def)
qed



end
