(* ===== verification/Instances.thy ===== *)
theory Instances
  imports Local_Alloc
begin

text \<open>
  The bookkeeping of region instances in \<^verbatim>\<open>MemoryImpl\<close> (\<^verbatim>\<open>src/templates/mem_impl.cc\<close>): the slots of
  locally created instances and the proxies for those of other nodes, and the protocol by which the
  creator of an instance gets its storage from the owner of the memory.  The layout of identifiers,
  the range allocator and events are not part of the repository: an identifier is the record of the
  fields the code reads, the allocator and its answers are arguments.
\<close>

section \<open>Slots\<close>

record instance_id =
  owner_node :: node_id
  creator_node :: node_id
  mem_idx :: nat
  inst_idx :: nat

record InstanceList =
  instances :: "instance_id option list"
  slot_free_list :: "nat list"

record mem_instances =
  local_instances :: InstanceList
  instances_by_creator :: "node_id \<Rightarrow> InstanceList option"

text \<open>
  The object of an instance is named by its identifier.  \<open>get_instance\<close> fails for a local instance
  that does not exist and creates a proxy for an instance of another node.
\<close>

definition get_instance :: "node_id \<Rightarrow> mem_instances \<Rightarrow> instance_id \<Rightarrow> (instance_id \<times> mem_instances) outcome" where
  "get_instance my ms i =
     (let cnode = creator_node i; idx = inst_idx i
      in if cnode = my then
           let insts = instances (local_instances ms)
           in if \<not> idx < length insts then Inl Assert_Failed
              else case insts ! idx of None \<Rightarrow> Inl Assert_Failed | Some impl \<Rightarrow> Inr (impl, ms)
         else
           let ilist = (case instances_by_creator ms cnode of
                          None \<Rightarrow> \<lparr>instances = [], slot_free_list = []\<rparr> | Some l \<Rightarrow> l);
               insts = (if idx \<ge> length (instances ilist)
                        then instances ilist @ replicate (idx + 1 - length (instances ilist)) None
                        else instances ilist);
               impl = (case insts ! idx of None \<Rightarrow> i | Some x \<Rightarrow> x);
               insts' = insts[idx := Some impl]
           in Inr (impl, ms\<lparr>instances_by_creator := (instances_by_creator ms)(cnode \<mapsto> ilist\<lparr>instances := insts'\<rparr>)\<rparr>))"

text \<open>Choosing a slot; \<open>None\<close> when there is none left.  \<open>W\<close> is the width of the index field.\<close>

definition choose_slot :: "nat \<Rightarrow> InstanceList \<Rightarrow> (nat \<times> instance_id option \<times> InstanceList) option" where
  "choose_slot W l =
     (if slot_free_list l = [] then
        let chunk_size = 8; old_size = length (instances l);
            new_size = (if old_size + chunk_size > 2 ^ W then 2 ^ W else old_size + chunk_size)
        in if old_size + chunk_size > 2 ^ W \<and> old_size = 2 ^ W then None
           else Some (old_size, None,
                  l\<lparr>instances := take new_size (instances l) @ replicate (new_size - old_size) None,
                    slot_free_list := map (\<lambda>i. new_size - 1 - i) [0 ..< chunk_size - 1]\<rparr>)
      else
        let idx = last (slot_free_list l)
        in Some (idx, instances l ! idx, l\<lparr>slot_free_list := butlast (slot_free_list l)\<rparr>))"

definition new_instance ::
  "nat \<Rightarrow> node_id \<Rightarrow> node_id \<Rightarrow> nat \<Rightarrow> InstanceList \<Rightarrow> (instance_id \<times> InstanceList) option" where
  "new_instance W my mem_owner mem_index l =
     (case choose_slot W l of
        None \<Rightarrow> None
      | Some (idx, Some impl, l') \<Rightarrow> Some (impl, l')
      | Some (idx, None, l') \<Rightarrow>
          let i = \<lparr>owner_node = mem_owner, creator_node = my, mem_idx = mem_index, inst_idx = idx\<rparr>
          in Some (i, l'\<lparr>instances := (instances l')[idx := Some i]\<rparr>))"

definition release_instance :: "InstanceList \<Rightarrow> instance_id \<Rightarrow> InstanceList" where
  "release_instance l inst = l\<lparr>slot_free_list := slot_free_list l @ [inst_idx inst]\<rparr>"

text \<open>
  The invariant with the list of identifiers that are in use: free slots and slots in use share out the
  table, a used slot holds the object of its index.
\<close>

definition slots_ok :: "nat \<Rightarrow> node_id \<Rightarrow> node_id \<Rightarrow> nat \<Rightarrow> InstanceList \<times> instance_id list \<Rightarrow> bool" where
  "slots_ok W my mem_owner mem_index x \<longleftrightarrow> (case x of (l, live) \<Rightarrow>
     8 dvd length (instances l) \<and> length (instances l) \<le> 2 ^ W \<and>
     distinct (slot_free_list l) \<and> distinct (map inst_idx live) \<and>
     set (slot_free_list l) \<inter> inst_idx ` set live = {} \<and>
     set (slot_free_list l) \<union> inst_idx ` set live = {..< length (instances l)} \<and>
     (\<forall>k < length (instances l). \<forall>i. instances l ! k = Some i \<longrightarrow>
        i = \<lparr>owner_node = mem_owner, creator_node = my, mem_idx = mem_index, inst_idx = k\<rparr>) \<and>
     (\<forall>i \<in> set live. instances l ! inst_idx i = Some i))"

inductive slots_step ::
  "nat \<Rightarrow> node_id \<Rightarrow> node_id \<Rightarrow> nat \<Rightarrow> InstanceList \<times> instance_id list \<Rightarrow> InstanceList \<times> instance_id list \<Rightarrow> bool"
  for W my mem_owner mem_index where
  slots_new: "new_instance W my mem_owner mem_index l = Some (i, l')
     \<Longrightarrow> slots_step W my mem_owner mem_index (l, live) (l', i # live)"
| slots_release: "live = xs @ i # ys
     \<Longrightarrow> slots_step W my mem_owner mem_index (l, live) (release_instance l i, xs @ ys)"

inductive_cases slots_stepE: "slots_step W my mem_owner mem_index s t"

lemma grown_slots:
  "set (map (\<lambda>i. n + 8 - 1 - i) [0 ..< 7]) = {n + 1 ..< n + 8}" "distinct (map (\<lambda>i. n + 8 - 1 - i) [0 ..< 7])"
  by (auto simp: upt_rec)

lemma choose_slot_grow:
  assumes W: "3 \<le> W" and ok: "8 dvd length (instances l)" "length (instances l) \<le> 2 ^ W" and f: "slot_free_list l = []"
  shows "choose_slot W l = (if length (instances l) = 2 ^ W then None
    else Some (length (instances l), None,
           l\<lparr>instances := instances l @ replicate 8 None,
             slot_free_list := map (\<lambda>i. length (instances l) + 8 - 1 - i) [0 ..< 7]\<rparr>))"
    "length (instances l) \<noteq> 2 ^ W \<Longrightarrow> length (instances l) + 8 \<le> 2 ^ W"
proof -
  have "(8::nat) dvd 2 ^ W" using W le_imp_power_dvd [of 3 W "2::nat"] by simp
  then have d: "8 dvd 2 ^ W - length (instances l)" using ok(1) by (simp add: dvd_diff_nat)
  show le: "length (instances l) + 8 \<le> 2 ^ W" if "length (instances l) \<noteq> 2 ^ W"
  proof -
    have "0 < 2 ^ W - length (instances l)" using that ok(2) by simp
    with d have "8 \<le> 2 ^ W - length (instances l)" by (rule dvd_imp_le)
    then show ?thesis by linarith
  qed
  show "choose_slot W l = (if length (instances l) = 2 ^ W then None
    else Some (length (instances l), None,
           l\<lparr>instances := instances l @ replicate 8 None,
             slot_free_list := map (\<lambda>i. length (instances l) + 8 - 1 - i) [0 ..< 7]\<rparr>))"
    using f le by (cases "length (instances l) = 2 ^ W") (auto simp: choose_slot_def Let_def not_less)
qed

lemma slot_cases:
  assumes ok: "slots_ok W my o' mx (l, live)" and W: "3 \<le> W"
  obtains (full) "slot_free_list l = []" "length (instances l) = 2 ^ W" "new_instance W my o' mx l = None"
  | (grow) n i where "n = length (instances l)" "slot_free_list l = []" "n + 8 \<le> 2 ^ W"
      "i = \<lparr>owner_node = o', creator_node = my, mem_idx = mx, inst_idx = n\<rparr>"
      "new_instance W my o' mx l = Some (i, l\<lparr>slot_free_list := map (\<lambda>i. n + 8 - 1 - i) [0 ..< 7],
         instances := (instances l @ replicate 8 None)[n := Some i]\<rparr>)"
  | (reuse) fs n i where "slot_free_list l = fs @ [n]" "n < length (instances l)"
      "i = \<lparr>owner_node = o', creator_node = my, mem_idx = mx, inst_idx = n\<rparr>"
      "new_instance W my o' mx l = Some (i, l\<lparr>instances := (instances l)[n := Some i], slot_free_list := fs\<rparr>)"
proof (cases "slot_free_list l = []")
  case True
  have d: "8 dvd length (instances l)" "length (instances l) \<le> 2 ^ W" using ok by (auto simp: slots_ok_def)
  note g = choose_slot_grow [OF W d True]
  show ?thesis
  proof (cases "length (instances l) = 2 ^ W")
    case f: True
    with g True show ?thesis by (intro full) (simp_all add: new_instance_def)
  next
    case False
    with g True show ?thesis by (intro grow [OF refl]) (simp_all add: new_instance_def Let_def)
  qed
next
  case False
  define fs n where "fs = butlast (slot_free_list l)" and "n = last (slot_free_list l)"
  have f: "slot_free_list l = fs @ [n]" using False by (simp add: fs_def n_def)
  then have n: "n < length (instances l)" using ok by (auto simp: slots_ok_def)
  let ?i = "\<lparr>owner_node = o', creator_node = my, mem_idx = mx, inst_idx = n\<rparr>"
  have e: "new_instance W my o' mx l = Some (?i, l\<lparr>instances := (instances l)[n := Some ?i], slot_free_list := fs\<rparr>)"
  proof (cases "instances l ! n")
    case None
    with f show ?thesis by (simp add: new_instance_def choose_slot_def Let_def)
  next
    case (Some j)
    then have "j = ?i" using ok n by (auto simp: slots_ok_def)
    with Some f show ?thesis by (simp add: new_instance_def choose_slot_def Let_def list_update_same_conv [THEN iffD2, OF n])
  qed
  show ?thesis by (rule reuse [OF f n refl e])
qed

lemma slots_ok_new:
  assumes ok: "slots_ok W my o' mx (l, live)" and W: "3 \<le> W" and new: "new_instance W my o' mx l = Some (i, l')"
  shows "slots_ok W my o' mx (l', i # live)"
proof -
  from ok W show ?thesis
  proof (cases rule: slot_cases)
    case full
    with new show ?thesis by simp
  next
    case (grow n j)
    with new have e: "i = j" "l' = l\<lparr>slot_free_list := map (\<lambda>i. n + 8 - 1 - i) [0 ..< 7],
         instances := (instances l @ replicate 8 None)[n := Some j]\<rparr>" by auto
    have live: "inst_idx ` set live = {..< n}" and dl: "distinct (map inst_idx live)"
      and old: "\<And>k i. k < n \<Longrightarrow> instances l ! k = Some i \<Longrightarrow> i = \<lparr>owner_node = o', creator_node = my, mem_idx = mx, inst_idx = k\<rparr>"
        "\<And>i. i \<in> set live \<Longrightarrow> instances l ! inst_idx i = Some i"
      and d: "8 dvd n" using ok grow(1,2) by (auto simp: slots_ok_def)
    then have lt: "inst_idx x < n" if "x \<in> set live" for x using that by blast
    have at: "instances l' ! k = (if k = n then Some j else if k < n then instances l ! k else None)" if "k < n + 8" for k
      using that grow(1) by (auto simp: e nth_list_update nth_append)
    have len: "length (instances l') = n + 8" using grow(1) by (simp add: e)
    have idx: "inst_idx i = n" using grow(4) e by simp
    have fs: "set (slot_free_list l') = {n + 1 ..< n + 8}" "distinct (slot_free_list l')"
      using grown_slots [of n] by (simp_all add: e)
    show ?thesis
      unfolding slots_ok_def prod.case len
    proof (intro conjI)
      show "8 dvd n + 8" using d by simp
      show "distinct (map inst_idx (i # live))" using dl lt idx by fastforce
      show "set (slot_free_list l') \<inter> inst_idx ` set (i # live) = {}" using live idx by (auto simp: fs(1))
      show "set (slot_free_list l') \<union> inst_idx ` set (i # live) = {..< n + 8}" using live idx by (auto simp: fs(1))
      show "\<forall>k < n + 8. \<forall>x. instances l' ! k = Some x \<longrightarrow>
          x = \<lparr>owner_node = o', creator_node = my, mem_idx = mx, inst_idx = k\<rparr>"
        using at old(1) grow(4) by auto
      show "\<forall>x \<in> set (i # live). instances l' ! inst_idx x = Some x"
      proof
        fix x assume "x \<in> set (i # live)"
        then consider "x = i" | "x \<in> set live" by auto
        then show "instances l' ! inst_idx x = Some x"
        proof cases
          case 1
          with at [of n] idx e(1) show ?thesis by simp
        next
          case 2
          with at [of "inst_idx x"] lt [OF 2] old(2) [OF 2] show ?thesis by simp
        qed
      qed
    qed (use fs(2) grow(3) in simp_all)
  next
    case (reuse fs n j)
    with new have e: "i = j" "l' = l\<lparr>instances := (instances l)[n := Some j], slot_free_list := fs\<rparr>" by auto
    have idx: "inst_idx j = n" using reuse(3) by simp
    have fresh: "n \<notin> inst_idx ` set live" "n \<notin> set fs" using ok reuse(1) by (auto simp: slots_ok_def)
    then have "\<forall>x \<in> set live. inst_idx x \<noteq> n" by blast
    with ok reuse(1,2,3) idx fresh show ?thesis
      by (auto simp: slots_ok_def e nth_list_update)
  qed
qed

lemma slots_ok_release:
  assumes ok: "slots_ok W my o' mx (l, xs @ i # ys)"
  shows "slots_ok W my o' mx (release_instance l i, xs @ ys)"
  using ok by (auto simp: slots_ok_def release_instance_def)

interpretation slots: step_system "\<lambda>x. 3 \<le> W \<and> x = (\<lparr>instances = [], slot_free_list = []\<rparr>, [])"
  "slots_step W my o' mx" "\<lambda>x. 3 \<le> W \<and> slots_ok W my o' mx x" for W my o' mx
proof (unfold_locales, goal_cases)
  case (1 x)
  then show ?case by (simp add: slots_ok_def)
next
  case (2 s t)
  from 2(2,1) show ?case by cases (auto intro: slots_ok_new slots_ok_release)
qed

section \<open>Storage of an instance\<close>

text \<open>
  All allocation is done by the owner of the memory.  A call on another node sends a request; the
  owner answers the creator of the instance, with a message or, when it is the creator itself, by a
  call.  \<open>allocate\<close> stands for \<^verbatim>\<open>BasicRangeAllocator::allocate\<close>: from the state of the allocator, the
  tag, the size, the alignment and the offset passed in it gives success, the offset afterwards and
  the new state; \<open>deallocate\<close> likewise.  A call whose precondition has not triggered waits for it
  first and is described from there on.
\<close>

datatype mem_message =
    MemStorageAllocRequest instance_id nat nat nat
  | MemStorageAllocResponse instance_id nat bool
  | MemStorageReleaseRequest instance_id bool
  | MemStorageReleaseResponse instance_id

datatype mem_effect =
    Send node_id mem_message
  | Notify_Allocation instance_id bool nat
  | Notify_Deallocation instance_id

definition allocate_instance_storage ::
  "('al \<Rightarrow> instance_id \<Rightarrow> nat \<Rightarrow> nat \<Rightarrow> nat \<Rightarrow> bool \<times> nat \<times> 'al) \<Rightarrow> node_id \<Rightarrow> node_id \<Rightarrow> 'al \<Rightarrow> mem_instances \<Rightarrow>
     instance_id \<Rightarrow> nat \<Rightarrow> nat \<Rightarrow> nat \<Rightarrow> ('al \<times> mem_instances \<times> mem_effect list \<times> bool) outcome" where
  "allocate_instance_storage allocate my mem_owner al ms i bytes alignment offset =
     (if mem_owner \<noteq> my then
        Inr (al, ms, [Send mem_owner (MemStorageAllocRequest i bytes alignment offset)], False)
      else
        let (ok, offset', al') = allocate al i bytes alignment offset
        in if creator_node i = my then
             obind (get_instance my ms i) (\<lambda>(impl, ms').
               Inr (al', ms', [Notify_Allocation impl ok offset'], True))
           else Inr (al', ms, [Send (creator_node i) (MemStorageAllocResponse i offset' ok)], True))"

text \<open>The offset of an instance whose storage has not been asked for, and of one whose request failed.\<close>

definition unallocated_offset :: nat where
  "unallocated_offset = 2 ^ 64 - 1"

definition failed_offset :: nat where
  "failed_offset = 2 ^ 64 - 2"

definition release_instance_storage ::
  "('al \<Rightarrow> instance_id \<Rightarrow> 'al) \<Rightarrow> (instance_id \<Rightarrow> nat) \<Rightarrow> node_id \<Rightarrow> node_id \<Rightarrow> 'al \<Rightarrow> mem_instances \<Rightarrow>
     instance_id \<Rightarrow> bool \<Rightarrow> ('al \<times> mem_instances \<times> mem_effect list) outcome" where
  "release_instance_storage deallocate inst_offset my mem_owner al ms i triggered =
     (if mem_owner \<noteq> my then Inr (al, ms, [Send mem_owner (MemStorageReleaseRequest i triggered)])
      else
        obind (cassert triggered) (\<lambda>_.
        obind (get_instance my ms i) (\<lambda>(impl, ms').
        obind (cassert (inst_offset impl \<noteq> unallocated_offset)) (\<lambda>_.
          let al' = (if inst_offset impl \<noteq> failed_offset then deallocate al i else al)
          in if creator_node i = my then
               obind (get_instance my ms' i) (\<lambda>(impl', ms''). Inr (al', ms'', [Notify_Deallocation impl']))
             else Inr (al', ms', [Send (creator_node i) (MemStorageReleaseResponse i)])))))"

text \<open>
  The handlers of the four messages on a node; the runtime looks an instance up with
  \<open>get_instance\<close>.  A release request names an event, here whether it has triggered by the time
  the owner looks at it.
\<close>

definition handle_mem_message ::
  "('al \<Rightarrow> instance_id \<Rightarrow> nat \<Rightarrow> nat \<Rightarrow> nat \<Rightarrow> bool \<times> nat \<times> 'al) \<Rightarrow> ('al \<Rightarrow> instance_id \<Rightarrow> 'al) \<Rightarrow> (instance_id \<Rightarrow> nat) \<Rightarrow>
     node_id \<Rightarrow> node_id \<Rightarrow> 'al \<Rightarrow> mem_instances \<Rightarrow> mem_message \<Rightarrow> ('al \<times> mem_instances \<times> mem_effect list) outcome" where
  "handle_mem_message allocate deallocate inst_offset my mem_owner al ms msg =
     (case msg of
        MemStorageAllocRequest i bytes alignment offset \<Rightarrow>
          obind (allocate_instance_storage allocate my mem_owner al ms i bytes alignment offset)
            (\<lambda>(al', ms', effs, imm). Inr (al', ms', effs))
      | MemStorageAllocResponse i offset success \<Rightarrow>
          obind (get_instance my ms i) (\<lambda>(impl, ms'). Inr (al, ms', [Notify_Allocation impl success offset]))
      | MemStorageReleaseRequest i triggered \<Rightarrow>
          release_instance_storage deallocate inst_offset my mem_owner al ms i triggered
      | MemStorageReleaseResponse i \<Rightarrow>
          obind (get_instance my ms i) (\<lambda>(impl, ms'). Inr (al, ms', [Notify_Deallocation impl])))"

text \<open>
  A cluster: the allocator of the memory lives on its owner, every node has its own table of
  instances.  \<open>settle\<close> delivers the messages in turn and collects the notifications with the node
  at which they arrive; \<open>fuel\<close> bounds the number of deliveries.
\<close>

fun settle ::
  "nat \<Rightarrow> ('al \<Rightarrow> instance_id \<Rightarrow> nat \<Rightarrow> nat \<Rightarrow> nat \<Rightarrow> bool \<times> nat \<times> 'al) \<Rightarrow> ('al \<Rightarrow> instance_id \<Rightarrow> 'al) \<Rightarrow> (instance_id \<Rightarrow> nat) \<Rightarrow>
     node_id \<Rightarrow> 'al \<Rightarrow> (node_id \<Rightarrow> mem_instances) \<Rightarrow> (node_id \<times> mem_effect) list \<Rightarrow> (node_id \<times> mem_effect) list \<Rightarrow>
     ('al \<times> (node_id \<Rightarrow> mem_instances) \<times> (node_id \<times> mem_effect) list) outcome option" where
  "settle fuel allocate deallocate io own al mss [] done' = Some (Inr (al, mss, done'))"
| "settle 0 allocate deallocate io own al mss (e # es) done' = None"
| "settle (Suc fuel) allocate deallocate io own al mss ((n, Send tgt msg) # es) done' =
     (case handle_mem_message allocate deallocate io tgt own al (mss tgt) msg of
        Inl err \<Rightarrow> Some (Inl err)
      | Inr (al', ms', effs) \<Rightarrow>
          settle fuel allocate deallocate io own al' (mss(tgt := ms')) (es @ map (Pair tgt) effs) done')"
| "settle (Suc fuel) allocate deallocate io own al mss ((n, eff) # es) done' =
     settle fuel allocate deallocate io own al mss es (done' @ [(n, eff)])"

lemma get_instance_local:
  assumes "creator_node i = my" and "inst_idx i < length (instances (local_instances ms))"
    and "instances (local_instances ms) ! inst_idx i = Some i"
  shows "get_instance my ms i = Inr (i, ms)"
  using assms by (simp add: get_instance_def Let_def)

lemma get_instance_remote:
  assumes "creator_node i \<noteq> my"
  obtains impl ms' where "get_instance my ms i = Inr (impl, ms')" "local_instances ms' = local_instances ms"
    "impl = (case instances_by_creator ms (creator_node i) of
               None \<Rightarrow> i
             | Some l \<Rightarrow> if inst_idx i < length (instances l)
                         then case instances l ! inst_idx i of None \<Rightarrow> i | Some x \<Rightarrow> x else i)"
    "get_instance my ms' i = Inr (impl, ms')"
proof -
  define l where "l = (case instances_by_creator ms (creator_node i) of
                          None \<Rightarrow> \<lparr>instances = [], slot_free_list = []\<rparr> | Some l \<Rightarrow> l)"
  define insts where "insts = (if inst_idx i \<ge> length (instances l)
                        then instances l @ replicate (inst_idx i + 1 - length (instances l)) None else instances l)"
  define impl where "impl = (case insts ! inst_idx i of None \<Rightarrow> i | Some x \<Rightarrow> x)"
  define ms' where "ms' = ms\<lparr>instances_by_creator :=
     (instances_by_creator ms)(creator_node i \<mapsto> l\<lparr>instances := insts[inst_idx i := Some impl]\<rparr>)\<rparr>"
  have len: "inst_idx i < length insts" by (simp add: insts_def)
  have g: "get_instance my ms i = Inr (impl, ms')"
    using assms unfolding get_instance_def Let_def l_def [symmetric] insts_def [symmetric] impl_def [symmetric] ms'_def
    by simp
  have g2: "get_instance my ms' i = Inr (impl, ms')"
    using assms len by (simp add: get_instance_def Let_def ms'_def)
  have "impl = (case instances_by_creator ms (creator_node i) of
               None \<Rightarrow> i
             | Some l \<Rightarrow> if inst_idx i < length (instances l)
                         then case instances l ! inst_idx i of None \<Rightarrow> i | Some x \<Rightarrow> x else i)"
    by (auto simp: impl_def insts_def l_def nth_append not_less split: option.splits)
  then show ?thesis using that [OF g _ _ g2] by (simp add: ms'_def)
qed

section \<open>Properties\<close>

text \<open>
  C13. Slots of instances are never shared.  Whatever sequence of creations and releases a memory has
  seen, with an index field of at least three bits the instances in use have different slots, each is
  found under its own identifier, and a new instance is refused only when all slots are in use;
  otherwise it gets a slot that no instance in use has.
\<close>

theorem instance_slots_unique:
  assumes "3 \<le> W" and "reaches (\<lambda>x. 3 \<le> W \<and> x = (\<lparr>instances = [], slot_free_list = []\<rparr>, []))
     (slots_step W my mem_owner mem_index) (l, live)"
  shows "distinct (map inst_idx live) \<and>
    (\<forall>i \<in> set live. get_instance my \<lparr>local_instances = l, instances_by_creator = others\<rparr> i =
        Inr (i, \<lparr>local_instances = l, instances_by_creator = others\<rparr>)) \<and>
    (case new_instance W my mem_owner mem_index l of
       None \<Rightarrow> length live = 2 ^ W
     | Some (i, l') \<Rightarrow> inst_idx i \<notin> inst_idx ` set live \<and> inst_idx i < 2 ^ W)"
proof (intro conjI)
  have ok: "slots_ok W my mem_owner mem_index (l, live)" using slots.inv_reaches [OF assms(2)] by simp
  then show d: "distinct (map inst_idx live)" by (simp add: slots_ok_def)
  show "\<forall>i \<in> set live. get_instance my \<lparr>local_instances = l, instances_by_creator = others\<rparr> i =
        Inr (i, \<lparr>local_instances = l, instances_by_creator = others\<rparr>)"
  proof
    fix i assume i: "i \<in> set live"
    then have n: "inst_idx i < length (instances l)" "instances l ! inst_idx i = Some i"
      using ok by (auto simp: slots_ok_def)
    then have "i = \<lparr>owner_node = mem_owner, creator_node = my, mem_idx = mem_index, inst_idx = inst_idx i\<rparr>"
      using ok unfolding slots_ok_def prod.case by blast
    then have "creator_node i = my" by (metis instance_id.select_convs(2))
    with n show "get_instance my \<lparr>local_instances = l, instances_by_creator = others\<rparr> i =
        Inr (i, \<lparr>local_instances = l, instances_by_creator = others\<rparr>)" by (intro get_instance_local) auto
  qed
  from ok assms(1) show "case new_instance W my mem_owner mem_index l of
       None \<Rightarrow> length live = 2 ^ W
     | Some (i, l') \<Rightarrow> inst_idx i \<notin> inst_idx ` set live \<and> inst_idx i < 2 ^ W"
  proof (cases rule: slot_cases)
    case full
    then have "inst_idx ` set live = {..< 2 ^ W}" using ok by (simp add: slots_ok_def)
    then have "card (set (map inst_idx live)) = 2 ^ W" by simp
    then have "length live = 2 ^ W" unfolding distinct_card [OF d] by simp
    with full show ?thesis by simp
  next
    case (grow n i)
    then have "inst_idx ` set live = {..< n}" using ok by (simp add: slots_ok_def)
    with grow show ?thesis by simp
  next
    case (reuse fs n i)
    then have "n \<notin> inst_idx ` set live" "length (instances l) \<le> 2 ^ W" using ok by (auto simp: slots_ok_def)
    with reuse show ?thesis by simp
  qed
qed

definition slot_demo :: "InstanceList \<times> instance_id list" where
  "slot_demo = (let (i, l) = the (new_instance 4 1 0 5 \<lparr>instances = [], slot_free_list = []\<rparr>) in (l, [i]))"

lemma slot_demo_eval:
  "slot_demo = (\<lparr>instances = Some \<lparr>owner_node = 0, creator_node = 1, mem_idx = 5, inst_idx = 0\<rparr> # replicate 7 None,
     slot_free_list = [7, 6, 5, 4, 3, 2, 1]\<rparr>, [\<lparr>owner_node = 0, creator_node = 1, mem_idx = 5, inst_idx = 0\<rparr>])"
  by (simp add: slot_demo_def new_instance_def choose_slot_def Let_def upt_rec numeral_eq_Suc)

lemma slot_demo_reached:
  "reaches (\<lambda>x. 3 \<le> (4::nat) \<and> x = (\<lparr>instances = [], slot_free_list = []\<rparr>, [])) (slots_step 4 1 0 5) slot_demo"
proof (rule reaches_step)
  show "reaches (\<lambda>x. 3 \<le> (4::nat) \<and> x = (\<lparr>instances = [], slot_free_list = []\<rparr>, [])) (slots_step 4 1 0 5)
      (\<lparr>instances = [], slot_free_list = []\<rparr>, [])" by (rule reaches_init) simp
  show "slots_step 4 1 0 5 (\<lparr>instances = [], slot_free_list = []\<rparr>, []) slot_demo"
    unfolding slot_demo_eval by (rule slots_new) (simp add: new_instance_def choose_slot_def Let_def upt_rec numeral_eq_Suc)
qed

theorem instance_slots_unique_witness:
  "case new_instance 4 1 0 5 (fst slot_demo) of None \<Rightarrow> False | Some (i, l') \<Rightarrow> inst_idx i \<notin> {0}"
  using instance_slots_unique [of 4 1 0 5 "fst slot_demo" "snd slot_demo"] slot_demo_reached
  by (auto simp: slot_demo_eval new_instance_def choose_slot_def Let_def)

text \<open>
  Whoever asks for the storage of an instance, the allocator of the memory is asked once, on the
  owner, and its answer arrives exactly once, at the node that created the instance: by a call when
  creator and owner are the same, otherwise through a response, after a request when the call was made
  elsewhere.  Three deliveries are enough.
\<close>

theorem allocation_notified_once:
  assumes "inst_idx i < length (instances (local_instances (mss (creator_node i))))"
    and "instances (local_instances (mss (creator_node i))) ! inst_idx i = Some i"
    and "allocate al i bytes alignment offset = (ok, offset', al')"
  shows "\<exists>al1 ms1 effs imm mss'.
    allocate_instance_storage allocate n own al (mss n) i bytes alignment offset = Inr (al1, ms1, effs, imm) \<and>
    settle 3 allocate deallocate io own al1 (mss(n := ms1)) (map (Pair n) effs) [] =
      Some (Inr (al', mss', [(creator_node i, Notify_Allocation i ok offset')]))"
proof -
  have g: "get_instance (creator_node i) (mss (creator_node i)) i = Inr (i, mss (creator_node i))"
    using assms(1,2) by (intro get_instance_local) simp_all
  note defs = allocate_instance_storage_def handle_mem_message_def Let_def numeral_3_eq_3
  show ?thesis
  proof (cases "own = n"; cases "creator_node i = own")
    assume "own = n" "creator_node i = own"
    with g assms(3) show ?thesis by (auto simp: defs)
  next
    assume "own = n" "creator_node i \<noteq> own"
    with g assms(3) show ?thesis by (auto simp: defs)
  next
    assume "own \<noteq> n" "creator_node i = own"
    with g assms(3) show ?thesis by (auto simp: defs)
  next
    assume "own \<noteq> n" "creator_node i \<noteq> own"
    with g assms(3) show ?thesis by (auto simp: defs)
  qed
qed

theorem allocation_notified_once_witness:
  "\<exists>al1 ms1 effs imm mss'.
    allocate_instance_storage (\<lambda>al i b a o1. (True, al, al + b)) 1 0 (100::nat)
      \<lparr>local_instances = fst slot_demo, instances_by_creator = (\<lambda>_. None)\<rparr> (snd slot_demo ! 0) 64 8 0 =
      Inr (al1, ms1, effs, imm) \<and>
    settle 3 (\<lambda>al i b a o1. (True, al, al + b)) (\<lambda>al i. al) (\<lambda>_. 0) 0 al1
      ((\<lambda>_. \<lparr>local_instances = fst slot_demo, instances_by_creator = (\<lambda>_. None)\<rparr>)(1 := ms1)) (map (Pair 1) effs) [] =
      Some (Inr (164, mss', [(1, Notify_Allocation (snd slot_demo ! 0) True 100)]))"
  using allocation_notified_once [of "snd slot_demo ! 0"
      "\<lambda>_. \<lparr>local_instances = fst slot_demo, instances_by_creator = (\<lambda>_. None)\<rparr>"
      "\<lambda>al i b a o1. (True, al, al + b)" 100 64 8 0 True 100 164 1 0 "\<lambda>al i. al" "\<lambda>_. 0"]
  by (simp add: slot_demo_eval)

text \<open>
  Releasing the storage of an instance with a triggered precondition: the owner gives the range back
  unless its allocation had failed, and the creator is notified exactly once, whoever called.  An owner
  that finds the instance unallocated stops in the assertion.
\<close>

theorem release_notified_once:
  assumes "inst_idx i < length (instances (local_instances (mss (creator_node i))))"
    and "instances (local_instances (mss (creator_node i))) ! inst_idx i = Some i"
    and "creator_node i \<noteq> own \<longrightarrow> (\<exists>ms'. get_instance own (mss own) i = Inr (i, ms'))"
    and "io i \<noteq> unallocated_offset"
  shows "\<exists>al1 ms1 effs mss'.
    release_instance_storage deallocate io n own al (mss n) i True = Inr (al1, ms1, effs) \<and>
    settle 3 allocate deallocate io own al1 (mss(n := ms1)) (map (Pair n) effs) [] =
      Some (Inr (if io i = failed_offset then al else deallocate al i, mss', [(creator_node i, Notify_Deallocation i)]))"
proof -
  have g: "get_instance (creator_node i) (mss (creator_node i)) i = Inr (i, mss (creator_node i))"
    using assms(1,2) by (intro get_instance_local) simp_all
  have loc: "get_instance (creator_node i) (mss (creator_node i)) i = Inr (i, mss (creator_node i))" by (fact g)
  obtain ms' where o: "get_instance own (mss own) i = Inr (i, ms')"
    using assms(3) g by (cases "creator_node i = own") auto
  note defs = release_instance_storage_def handle_mem_message_def Let_def numeral_3_eq_3
  show ?thesis
  proof (cases "own = n"; cases "creator_node i = own")
    assume "own = n" "creator_node i = own"
    with g o assms(4) show ?thesis by (auto simp: defs)
  next
    assume "own = n" "creator_node i \<noteq> own"
    with g o assms(4) show ?thesis by (auto simp: defs)
  next
    assume "own \<noteq> n" "creator_node i = own"
    with g o assms(4) show ?thesis by (auto simp: defs)
  next
    assume "own \<noteq> n" "creator_node i \<noteq> own"
    with g o assms(4) show ?thesis by (auto simp: defs)
  qed
qed

theorem release_notified_once_witness:
  "\<exists>al1 ms1 effs mss'.
    release_instance_storage (\<lambda>al i. al - 64) (\<lambda>_. 0) 1 0 (164::nat)
      \<lparr>local_instances = fst slot_demo, instances_by_creator = (\<lambda>_. None)\<rparr> (snd slot_demo ! 0) True = Inr (al1, ms1, effs) \<and>
    settle 3 (\<lambda>al i b a o1. (True, al, al + b)) (\<lambda>al i. al - 64) (\<lambda>_. 0) 0 al1
      ((\<lambda>_. \<lparr>local_instances = fst slot_demo, instances_by_creator = (\<lambda>_. None)\<rparr>)(1 := ms1)) (map (Pair 1) effs) [] =
      Some (Inr (100, mss', [(1, Notify_Deallocation (snd slot_demo ! 0))]))"
  using release_notified_once [of "snd slot_demo ! 0"
      "\<lambda>_. \<lparr>local_instances = fst slot_demo, instances_by_creator = (\<lambda>_. None)\<rparr>" 0 "\<lambda>_. 0" "\<lambda>al i. al - 64" 1 "164::nat"
      "\<lambda>al i b a o1. (True, al, al + b)"]
  by (simp add: slot_demo_eval get_instance_def Let_def unallocated_offset_def failed_offset_def)

end
