(* ===== verification/Registry.thy ===== *)
theory Registry
  imports Instances
begin

text \<open>
  What the runtime keeps of a machine (\<^verbatim>\<open>runtime_impl.cc\<close> and \<^verbatim>\<open>runtime_impl.h\<close>): memories and
  processors of each node, created at start-up and found by their identifiers, and the tables of
  events, barriers, reservations, processor groups and sparsity maps.  The bit layout of identifiers
  is not in the repository: an identifier is a value with the fields the code reads, and the widths
  of the index fields are arguments.  The tables themselves are not in the repository either; only
  their leaves are built here (\<open>new_leaf_node\<close>), and the look-up of an entry is an argument.
\<close>

section \<open>Identifiers, memories and processors\<close>

datatype ID =
    ID_event (creator: node_id) (index: nat) (generation: nat)
  | ID_barrier (creator: node_id) (index: nat) (generation: nat)
  | ID_reservation (creator: node_id) (index: nat)
  | ID_memory (owner: node_id) (index: nat)
  | ID_ib_memory (owner: node_id) (index: nat)
  | ID_instance instance_id
  | ID_processor (owner: node_id) (index: nat)
  | ID_procgroup (owner: node_id) (creator: node_id) (index: nat)
  | ID_sparsity (owner: node_id) (creator: node_id) (index: nat)

datatype Memory_Kind = SYSTEM_MEM | REGDMA_MEM | DISK_MEM | HDF_MEM | FILE_MEM | GLOBAL_MEM | Z_COPY_MEM
datatype Processor_Kind = LOC_PROC | UTIL_PROC | IO_PROC | PROC_SET

record reg_memory =
  mem_me :: ID
  mem_kind :: Memory_Kind
  mem_size :: size_t

record reg_processor =
  proc_me :: ID
  proc_kind :: Processor_Kind

record Node =
  memories :: "reg_memory option list"
  ib_memories :: "reg_memory option list"
  processors :: "reg_processor option list"

record RuntimeImpl =
  my_node_id :: node_id
  max_node_id :: node_id
  mem_bits :: nat
  proc_bits :: nat
  nodes :: "node_id \<Rightarrow> Node"
  global_memory :: "reg_memory option"
  num_local_memories :: nat
  num_local_ib_memories :: nat
  num_local_processors :: nat

definition next_local_memory_id :: "RuntimeImpl \<Rightarrow> ID \<times> RuntimeImpl" where
  "next_local_memory_id rt =
     (ID_memory (my_node_id rt) (num_local_memories rt mod 2 ^ mem_bits rt),
      rt\<lparr>num_local_memories := num_local_memories rt + 1\<rparr>)"

definition next_local_ib_memory_id :: "RuntimeImpl \<Rightarrow> ID \<times> RuntimeImpl" where
  "next_local_ib_memory_id rt =
     (ID_ib_memory (my_node_id rt) (num_local_ib_memories rt mod 2 ^ mem_bits rt),
      rt\<lparr>num_local_ib_memories := num_local_ib_memories rt + 1\<rparr>)"

definition next_local_processor_id :: "RuntimeImpl \<Rightarrow> ID \<times> RuntimeImpl" where
  "next_local_processor_id rt =
     (ID_processor (my_node_id rt) (num_local_processors rt mod 2 ^ proc_bits rt),
      rt\<lparr>num_local_processors := num_local_processors rt + 1\<rparr>)"

abbreviation my_node :: "RuntimeImpl \<Rightarrow> Node" where
  "my_node rt \<equiv> nodes rt (my_node_id rt)"

definition add_memory :: "RuntimeImpl \<Rightarrow> reg_memory \<Rightarrow> RuntimeImpl outcome" where
  "add_memory rt m =
     obind (cassert (owner (mem_me m) = my_node_id rt)) (\<lambda>_.
     obind (cassert (index (mem_me m) = length (memories (my_node rt)))) (\<lambda>_.
       Inr (rt\<lparr>nodes := (nodes rt)(my_node_id rt := (my_node rt)\<lparr>memories := memories (my_node rt) @ [Some m]\<rparr>)\<rparr>)))"

definition add_ib_memory :: "RuntimeImpl \<Rightarrow> reg_memory \<Rightarrow> RuntimeImpl outcome" where
  "add_ib_memory rt m =
     obind (cassert (owner (mem_me m) = my_node_id rt)) (\<lambda>_.
     obind (cassert (index (mem_me m) = length (ib_memories (my_node rt)))) (\<lambda>_.
       Inr (rt\<lparr>nodes := (nodes rt)(my_node_id rt := (my_node rt)\<lparr>ib_memories := ib_memories (my_node rt) @ [Some m]\<rparr>)\<rparr>)))"

definition add_processor :: "RuntimeImpl \<Rightarrow> reg_processor \<Rightarrow> RuntimeImpl outcome" where
  "add_processor rt p =
     obind (cassert (owner (proc_me p) = my_node_id rt)) (\<lambda>_.
     obind (cassert (index (proc_me p) = length (processors (my_node rt)))) (\<lambda>_.
       Inr (rt\<lparr>nodes := (nodes rt)(my_node_id rt := (my_node rt)\<lparr>processors := processors (my_node rt) @ [Some p]\<rparr>)\<rparr>)))"

section \<open>Start-up\<close>

record CoreModule =
  num_cpu_procs :: nat
  num_util_procs :: nat
  num_io_procs :: nat
  concurrent_io_threads :: nat
  sysmem_size_in_mb :: size_t
  core_stack_size_in_mb :: size_t
  pin_util_procs :: bool

definition CoreModule_construct :: CoreModule where
  "CoreModule_construct =
     \<lparr>num_cpu_procs = 1, num_util_procs = 1, num_io_procs = 0, concurrent_io_threads = 1, sysmem_size_in_mb = 512,
      core_stack_size_in_mb = 2, pin_util_procs = False\<rparr>"

text \<open>A memory of a kind and size, a processor of a kind: the next identifier, the object, the registration.\<close>

definition create_memory :: "Memory_Kind \<Rightarrow> size_t \<Rightarrow> RuntimeImpl \<Rightarrow> RuntimeImpl outcome" where
  "create_memory kind bytes rt =
     (let (m, rt1) = next_local_memory_id rt in add_memory rt1 \<lparr>mem_me = m, mem_kind = kind, mem_size = bytes\<rparr>)"

definition create_ib_memory :: "Memory_Kind \<Rightarrow> size_t \<Rightarrow> RuntimeImpl \<Rightarrow> RuntimeImpl outcome" where
  "create_ib_memory kind bytes rt =
     (let (m, rt1) = next_local_ib_memory_id rt in add_ib_memory rt1 \<lparr>mem_me = m, mem_kind = kind, mem_size = bytes\<rparr>)"

fun create_procs :: "Processor_Kind \<Rightarrow> nat \<Rightarrow> RuntimeImpl \<Rightarrow> RuntimeImpl outcome" where
  "create_procs kind 0 rt = Inr rt"
| "create_procs kind (Suc n) rt =
     (let (p, rt1) = next_local_processor_id rt
      in obind (add_processor rt1 \<lparr>proc_me = p, proc_kind = kind\<rparr>) (create_procs kind n))"

definition core_create_memories :: "CoreModule \<Rightarrow> RuntimeImpl \<Rightarrow> RuntimeImpl outcome" where
  "core_create_memories cm rt =
     (if sysmem_size_in_mb cm > 0 then create_memory SYSTEM_MEM (push_bit 20 (sysmem_size_in_mb cm)) rt else Inr rt)"

definition core_create_processors :: "CoreModule \<Rightarrow> RuntimeImpl \<Rightarrow> RuntimeImpl outcome" where
  "core_create_processors cm rt =
     obind (create_procs UTIL_PROC (num_util_procs cm) rt) (\<lambda>rt.
     obind (create_procs IO_PROC (num_io_procs cm) rt) (\<lambda>rt.
       create_procs LOC_PROC (num_cpu_procs cm) rt))"

text \<open>
  The memories and processors of \<^verbatim>\<open>configure_from_command_line\<close>, with the core module as the only
  module: sizes of the global, registered, intermediate and disk memory in megabytes.  The file memory
  chooses its size itself, in code that is not in the repository.
\<close>

record mem_options =
  gasnet_mem_size_in_mb :: size_t
  reg_mem_size_in_mb :: size_t
  reg_ib_mem_size_in_mb :: size_t
  disk_mem_size_in_mb :: size_t
  file_mem_size :: size_t

definition create_resources :: "mem_options \<Rightarrow> CoreModule \<Rightarrow> RuntimeImpl \<Rightarrow> RuntimeImpl outcome" where
  "create_resources op cm rt0 =
     (let rt = rt0\<lparr>global_memory :=
                 (if gasnet_mem_size_in_mb op > 0
                  then Some \<lparr>mem_me = ID_memory 0 ((2 ^ 32 - 1) mod 2 ^ mem_bits rt0), mem_kind = GLOBAL_MEM,
                             mem_size = push_bit 20 (gasnet_mem_size_in_mb op)\<rparr>
                  else None)\<rparr>
      in obind (core_create_memories cm rt) (\<lambda>rt.
         obind (if reg_mem_size_in_mb op > 0
                then create_memory REGDMA_MEM (push_bit 20 (reg_mem_size_in_mb op)) rt else Inr rt) (\<lambda>rt.
         obind (core_create_processors cm rt) (\<lambda>rt.
         obind (if reg_ib_mem_size_in_mb op > 0
                then create_ib_memory REGDMA_MEM (push_bit 20 (reg_ib_mem_size_in_mb op)) rt else Inr rt) (\<lambda>rt.
         obind (if disk_mem_size_in_mb op > 0
                then create_memory DISK_MEM (push_bit 20 (disk_mem_size_in_mb op)) rt else Inr rt) (\<lambda>rt.
           create_memory FILE_MEM (file_mem_size op) rt))))))"

section \<open>Look-up\<close>

text \<open>A vector indexed out of range is undefined; a null pointer stops in the assertion.\<close>

definition null_check :: "'a option list \<Rightarrow> nat \<Rightarrow> 'a outcome" where
  "null_check xs i =
     (if \<not> i < length xs then Inl Undefined_Behaviour
      else case xs ! i of None \<Rightarrow> Inl Assert_Failed | Some x \<Rightarrow> Inr x)"

definition node_check :: "RuntimeImpl \<Rightarrow> node_id \<Rightarrow> unit outcome" where
  "node_check rt n = (if n \<le> max_node_id rt then Inr () else Inl Undefined_Behaviour)"

text \<open>The result of a memory look-up is \<open>None\<close> when there is no global memory: the code returns a null pointer.\<close>

definition find_memory :: "nat \<Rightarrow> RuntimeImpl \<Rightarrow> node_id \<Rightarrow> nat \<Rightarrow> reg_memory option outcome" where
  "find_memory MAX_NODE_ID rt own idx =
     (if own > MAX_NODE_ID \<or> idx = 2 ^ 12 - 1 then Inr (global_memory rt)
      else obind (node_check rt own) (\<lambda>_. obind (null_check (memories (nodes rt own)) idx) (\<lambda>m. Inr (Some m))))"

definition get_memory_impl :: "nat \<Rightarrow> RuntimeImpl \<Rightarrow> ID \<Rightarrow> reg_memory option outcome" where
  "get_memory_impl MAX_NODE_ID rt i =
     (case i of
        ID_memory own idx \<Rightarrow> find_memory MAX_NODE_ID rt own idx
      | ID_ib_memory own idx \<Rightarrow>
          obind (node_check rt own) (\<lambda>_. obind (null_check (ib_memories (nodes rt own)) idx) (\<lambda>m. Inr (Some m)))
      | ID_instance inst \<Rightarrow> find_memory MAX_NODE_ID rt (owner_node inst) (mem_idx inst)
      | _ \<Rightarrow> Inl Assert_Failed)"

text \<open>
  The tables: \<open>entry kind n i own\<close> is the identifier in the entry that \<^verbatim>\<open>lookup_entry(i, own)\<close> of a
  table of node \<open>n\<close> returns.  The look-ups check that it is the right one.
\<close>

datatype table = Events | Barriers | Reservations | Proc_Groups

type_synonym table_lookup = "table \<Rightarrow> node_id \<Rightarrow> nat \<Rightarrow> node_id \<Rightarrow> ID"

definition get_genevent_impl :: "table_lookup \<Rightarrow> RuntimeImpl \<Rightarrow> ID \<Rightarrow> ID outcome" where
  "get_genevent_impl entry rt i =
     (case i of
        ID_event c idx gen \<Rightarrow>
          obind (node_check rt c) (\<lambda>_.
            let me = entry Events c idx c
            in if creator me = c \<and> index me = idx then Inr me else Inl Assert_Failed)
      | _ \<Rightarrow> Inl Assert_Failed)"

definition get_barrier_impl :: "table_lookup \<Rightarrow> RuntimeImpl \<Rightarrow> ID \<Rightarrow> ID outcome" where
  "get_barrier_impl entry rt i =
     (case i of
        ID_barrier c idx gen \<Rightarrow>
          obind (node_check rt c) (\<lambda>_.
            let me = entry Barriers c idx c
            in if creator me = c \<and> index me = idx then Inr me else Inl Assert_Failed)
      | _ \<Rightarrow> Inl Assert_Failed)"

definition get_event_impl :: "table_lookup \<Rightarrow> RuntimeImpl \<Rightarrow> ID \<Rightarrow> ID outcome" where
  "get_event_impl entry rt i =
     (case i of
        ID_event c idx gen \<Rightarrow> get_genevent_impl entry rt i
      | ID_barrier c idx gen \<Rightarrow> get_barrier_impl entry rt i
      | _ \<Rightarrow> Inl Assert_Failed)"

definition get_procgroup_impl :: "table_lookup \<Rightarrow> RuntimeImpl \<Rightarrow> ID \<Rightarrow> ID outcome" where
  "get_procgroup_impl entry rt i =
     (case i of
        ID_procgroup own c idx \<Rightarrow>
          obind (node_check rt own) (\<lambda>_.
            let me = entry Proc_Groups own idx own in if me = i then Inr me else Inl Assert_Failed)
      | _ \<Rightarrow> Inl Assert_Failed)"

text \<open>A processor handle names a group or a processor.\<close>

definition get_processor_impl :: "table_lookup \<Rightarrow> RuntimeImpl \<Rightarrow> ID \<Rightarrow> (ID + reg_processor) outcome" where
  "get_processor_impl entry rt i =
     (case i of
        ID_procgroup own c idx \<Rightarrow> obind (get_procgroup_impl entry rt i) (\<lambda>g. Inr (Inl g))
      | ID_processor own idx \<Rightarrow>
          obind (node_check rt own) (\<lambda>_. obind (null_check (processors (nodes rt own)) idx) (\<lambda>p. Inr (Inr p)))
      | _ \<Rightarrow> Inl Assert_Failed)"

text \<open>
  An instance is looked up in its memory; the instance tables of the memories are given by the
  identifier of the memory.  A null pointer for the memory is dereferenced.
\<close>

definition get_instance_impl ::
  "nat \<Rightarrow> RuntimeImpl \<Rightarrow> (ID \<Rightarrow> mem_instances) \<Rightarrow> ID \<Rightarrow> (instance_id \<times> (ID \<Rightarrow> mem_instances)) outcome" where
  "get_instance_impl MAX_NODE_ID rt insts i =
     (case i of
        ID_instance inst \<Rightarrow>
          obind (get_memory_impl MAX_NODE_ID rt i) (\<lambda>m.
            case m of
              None \<Rightarrow> Inl Undefined_Behaviour
            | Some mem \<Rightarrow>
                obind (get_instance (my_node_id rt) (insts (mem_me mem)) inst) (\<lambda>(impl, ms).
                  Inr (impl, insts(mem_me mem := ms))))
      | _ \<Rightarrow> Inl Assert_Failed)"

text \<open>The lock of a reservation, an instance or a processor group.\<close>

datatype lock_ref = Lock_of_Reservation ID | Lock_of_Instance instance_id | Lock_of_Group ID

definition get_lock_impl ::
  "nat \<Rightarrow> table_lookup \<Rightarrow> RuntimeImpl \<Rightarrow> (ID \<Rightarrow> mem_instances) \<Rightarrow> ID \<Rightarrow> lock_ref outcome" where
  "get_lock_impl MAX_NODE_ID entry rt insts i =
     (case i of
        ID_reservation c idx \<Rightarrow>
          obind (node_check rt c) (\<lambda>_.
            let me = entry Reservations c idx c in if me = i then Inr (Lock_of_Reservation me) else Inl Assert_Failed)
      | ID_instance inst \<Rightarrow> obind (get_instance_impl MAX_NODE_ID rt insts i) (\<lambda>(impl, _). Inr (Lock_of_Instance impl))
      | ID_procgroup own c idx \<Rightarrow> obind (get_procgroup_impl entry rt i) (\<lambda>g. Inr (Lock_of_Group g))
      | _ \<Rightarrow> Inl Assert_Failed)"

section \<open>Invariant\<close>

text \<open>
  \<open>numbered mk n xs\<close>: \<open>n\<close> objects, each carrying the identifier of its position.  \<open>rt_ok\<close>: the local
  vectors are numbered, and the counters that give out identifiers agree with them.
\<close>

definition numbered :: "('a \<Rightarrow> ID) \<Rightarrow> (nat \<Rightarrow> ID) \<Rightarrow> nat \<Rightarrow> 'a option list \<Rightarrow> bool" where
  "numbered me mk n xs \<longleftrightarrow> length xs = n \<and> (\<forall>i < n. \<exists>x. xs ! i = Some x \<and> me x = mk i)"

lemma numbered_Nil: "numbered me mk 0 []"
  by (simp add: numbered_def)

lemma numbered_snoc: "numbered me mk n xs \<Longrightarrow> me x = mk n \<Longrightarrow> numbered me mk (Suc n) (xs @ [Some x])"
  by (auto simp: numbered_def nth_append less_Suc_eq)

lemma numbered_find:
  assumes "numbered me mk n xs" and "Some x \<in> set xs"
  obtains i where "i < n" "me x = mk i" "null_check xs i = Inr x"
proof -
  from assms(2) obtain i where i: "i < length xs" "xs ! i = Some x" by (metis in_set_conv_nth)
  with assms(1) have "i < n" "me x = mk i" by (auto simp: numbered_def)
  with i that show ?thesis by (simp add: null_check_def)
qed

definition rt_ok :: "RuntimeImpl \<Rightarrow> bool" where
  "rt_ok rt \<longleftrightarrow>
     numbered mem_me (ID_memory (my_node_id rt)) (num_local_memories rt) (memories (my_node rt)) \<and>
     numbered mem_me (ID_ib_memory (my_node_id rt)) (num_local_ib_memories rt) (ib_memories (my_node rt)) \<and>
     numbered proc_me (ID_processor (my_node_id rt)) (num_local_processors rt) (processors (my_node rt))"

text \<open>What a creation leaves alone, and how many objects of each sort it adds.\<close>

definition grows :: "nat \<Rightarrow> nat \<Rightarrow> nat \<Rightarrow> RuntimeImpl \<Rightarrow> RuntimeImpl \<Rightarrow> bool" where
  "grows a b c rt rt' \<longleftrightarrow> my_node_id rt' = my_node_id rt \<and> max_node_id rt' = max_node_id rt \<and> mem_bits rt' = mem_bits rt \<and>
     proc_bits rt' = proc_bits rt \<and> global_memory rt' = global_memory rt \<and>
     num_local_memories rt' = num_local_memories rt + a \<and> num_local_ib_memories rt' = num_local_ib_memories rt + b \<and>
     num_local_processors rt' = num_local_processors rt + c"

lemma grows_refl: "grows 0 0 0 rt rt"
  by (simp add: grows_def)

lemma grows_trans: "grows a b c rt rt' \<Longrightarrow> grows a' b' c' rt' rt'' \<Longrightarrow> grows (a + a') (b + b') (c + c') rt rt''"
  by (simp add: grows_def)

lemma create_memory_ok:
  assumes "rt_ok rt" and "num_local_memories rt < 2 ^ mem_bits rt"
  shows "\<exists>rt'. create_memory k sz rt = Inr rt' \<and> rt_ok rt' \<and> grows 1 0 0 rt rt'"
  using assms
  by (auto simp: create_memory_def next_local_memory_id_def add_memory_def rt_ok_def grows_def numbered_def nth_append less_Suc_eq)

lemma create_ib_memory_ok:
  assumes "rt_ok rt" and "num_local_ib_memories rt < 2 ^ mem_bits rt"
  shows "\<exists>rt'. create_ib_memory k sz rt = Inr rt' \<and> rt_ok rt' \<and> grows 0 1 0 rt rt'"
  using assms
  by (auto simp: create_ib_memory_def next_local_ib_memory_id_def add_ib_memory_def rt_ok_def grows_def numbered_def nth_append less_Suc_eq)

lemma create_procs_ok:
  assumes "rt_ok rt" and "num_local_processors rt + n \<le> 2 ^ proc_bits rt"
  shows "\<exists>rt'. create_procs k n rt = Inr rt' \<and> rt_ok rt' \<and> grows 0 0 n rt rt'"
  using assms
proof (induction n arbitrary: rt)
  case (Suc n)
  obtain p rt1 where e: "next_local_processor_id rt = (p, rt1)" by (metis surj_pair)
  have "\<exists>rt2. add_processor rt1 \<lparr>proc_me = p, proc_kind = k\<rparr> = Inr rt2 \<and> rt_ok rt2 \<and> grows 0 0 1 rt rt2"
    using Suc.prems e
    by (auto simp: next_local_processor_id_def add_processor_def rt_ok_def grows_def numbered_def nth_append less_Suc_eq)
  then obtain rt2 where r: "add_processor rt1 \<lparr>proc_me = p, proc_kind = k\<rparr> = Inr rt2" "rt_ok rt2" "grows 0 0 1 rt rt2" by blast
  with Suc.prems have "num_local_processors rt2 + n \<le> 2 ^ proc_bits rt2" by (simp add: grows_def)
  with Suc.IH r obtain rt' where "create_procs k n rt2 = Inr rt'" "rt_ok rt'" "grows 0 0 n rt2 rt'" by blast
  then show ?case using e r grows_trans [OF r(3), of 0 0 n rt'] by simp
qed (simp add: grows_refl)

lemma core_create_processors_ok:
  assumes "rt_ok rt" and "num_local_processors rt + (num_util_procs cm + num_io_procs cm + num_cpu_procs cm) \<le> 2 ^ proc_bits rt"
  shows "\<exists>rt'. core_create_processors cm rt = Inr rt' \<and> rt_ok rt' \<and>
    grows 0 0 (num_util_procs cm + num_io_procs cm + num_cpu_procs cm) rt rt'"
proof -
  obtain r1 where r1: "create_procs UTIL_PROC (num_util_procs cm) rt = Inr r1" "rt_ok r1" "grows 0 0 (num_util_procs cm) rt r1"
    using create_procs_ok [OF assms(1), of "num_util_procs cm"] assms(2) by auto
  then obtain r2 where r2: "create_procs IO_PROC (num_io_procs cm) r1 = Inr r2" "rt_ok r2" "grows 0 0 (num_io_procs cm) r1 r2"
    using create_procs_ok [of r1 "num_io_procs cm"] assms(2) by (auto simp: grows_def)
  then obtain r3 where r3: "create_procs LOC_PROC (num_cpu_procs cm) r2 = Inr r3" "rt_ok r3" "grows 0 0 (num_cpu_procs cm) r2 r3"
    using create_procs_ok [of r2 "num_cpu_procs cm"] assms(2) r1(3) by (auto simp: grows_def)
  show ?thesis using r1 r2 r3 grows_trans [OF grows_trans [OF r1(3) r2(3)] r3(3)] by (simp add: core_create_processors_def)
qed

text \<open>An optional creation.\<close>

lemma create_if_ok:
  assumes "rt_ok rt" and "num_local_memories rt < 2 ^ mem_bits rt"
  shows "\<exists>rt'. (if b then create_memory k sz rt else Inr rt) = Inr rt' \<and> rt_ok rt' \<and> grows (of_bool b) 0 0 rt rt'"
  using create_memory_ok [OF assms, of k sz] assms grows_refl [of rt] by (cases b) auto

lemma create_resources_ok:
  assumes "rt_ok rt" and "num_local_memories rt + 4 \<le> 2 ^ mem_bits rt" and "num_local_ib_memories rt < 2 ^ mem_bits rt"
    and "num_local_processors rt + (num_util_procs cm + num_io_procs cm + num_cpu_procs cm) \<le> 2 ^ proc_bits rt"
  shows "\<exists>rt'. create_resources op cm rt = Inr rt' \<and> rt_ok rt' \<and> my_node_id rt' = my_node_id rt \<and> max_node_id rt' = max_node_id rt \<and>
    num_local_memories rt' = num_local_memories rt + of_bool (sysmem_size_in_mb cm > 0) + of_bool (reg_mem_size_in_mb op > 0) +
      of_bool (disk_mem_size_in_mb op > 0) + 1 \<and>
    num_local_ib_memories rt' = num_local_ib_memories rt + of_bool (reg_ib_mem_size_in_mb op > 0) \<and>
    num_local_processors rt' = num_local_processors rt + (num_util_procs cm + num_io_procs cm + num_cpu_procs cm)"
proof -
  define r0 where "r0 = rt\<lparr>global_memory := (if gasnet_mem_size_in_mb op > 0
      then Some \<lparr>mem_me = ID_memory 0 ((2 ^ 32 - 1) mod 2 ^ mem_bits rt), mem_kind = GLOBAL_MEM,
                 mem_size = push_bit 20 (gasnet_mem_size_in_mb op)\<rparr> else None)\<rparr>"
  have r0: "rt_ok r0" using assms(1) by (simp add: r0_def rt_ok_def)
  have f0: "num_local_memories r0 = num_local_memories rt" "num_local_ib_memories r0 = num_local_ib_memories rt"
    "num_local_processors r0 = num_local_processors rt" "mem_bits r0 = mem_bits rt" "proc_bits r0 = proc_bits rt"
    "my_node_id r0 = my_node_id rt" "max_node_id r0 = max_node_id rt" by (simp_all add: r0_def)
  let ?n = "num_util_procs cm + num_io_procs cm + num_cpu_procs cm"
  obtain r1 where r1: "core_create_memories cm r0 = Inr r1" "rt_ok r1" "grows (of_bool (sysmem_size_in_mb cm > 0)) 0 0 r0 r1"
    using create_if_ok [OF r0, of "sysmem_size_in_mb cm > 0" SYSTEM_MEM "push_bit 20 (sysmem_size_in_mb cm)"] assms(2)
    by (auto simp: core_create_memories_def f0)
  moreover from r1(3) have b1: "num_local_memories r1 + 3 \<le> 2 ^ mem_bits r1" using assms(2) by (auto simp: grows_def f0)
  ultimately obtain r2 where r2: "(if reg_mem_size_in_mb op > 0 then create_memory REGDMA_MEM (push_bit 20 (reg_mem_size_in_mb op)) r1 else Inr r1) = Inr r2"
      "rt_ok r2" "grows (of_bool (reg_mem_size_in_mb op > 0)) 0 0 r1 r2"
    using create_if_ok [of r1 "reg_mem_size_in_mb op > 0" REGDMA_MEM "push_bit 20 (reg_mem_size_in_mb op)"] b1 by auto
  have b2: "num_local_memories r2 + 2 \<le> 2 ^ mem_bits r2" using b1 r2(3) by (auto simp: grows_def)
  from r2 obtain r3 where r3: "core_create_processors cm r2 = Inr r3" "rt_ok r3" "grows 0 0 ?n r2 r3"
    using core_create_processors_ok [of r2 cm] assms(4) r1(3) by (auto simp: grows_def f0)
  then obtain r4 where r4: "(if reg_ib_mem_size_in_mb op > 0 then create_ib_memory REGDMA_MEM (push_bit 20 (reg_ib_mem_size_in_mb op)) r3 else Inr r3) = Inr r4"
      "rt_ok r4" "grows 0 (of_bool (reg_ib_mem_size_in_mb op > 0)) 0 r3 r4"
    using create_ib_memory_ok [of r3] assms(3) r1(3) r2(3) grows_refl [of r3] by (cases "reg_ib_mem_size_in_mb op > 0") (auto simp: grows_def f0)
  moreover from r4(3) r3(3) have b4: "num_local_memories r4 + 2 \<le> 2 ^ mem_bits r4" using b2 by (auto simp: grows_def)
  ultimately obtain r5 where r5: "(if disk_mem_size_in_mb op > 0 then create_memory DISK_MEM (push_bit 20 (disk_mem_size_in_mb op)) r4 else Inr r4) = Inr r5"
      "rt_ok r5" "grows (of_bool (disk_mem_size_in_mb op > 0)) 0 0 r4 r5"
    using create_if_ok [of r4 "disk_mem_size_in_mb op > 0" DISK_MEM "push_bit 20 (disk_mem_size_in_mb op)"] b4 by auto
  have b5: "num_local_memories r5 < 2 ^ mem_bits r5" using b4 r5(3) by (auto simp: grows_def)
  obtain r6 where r6: "create_memory FILE_MEM (file_mem_size op) r5 = Inr r6" "rt_ok r6" "grows 1 0 0 r5 r6"
    using create_memory_ok [OF r5(2) b5] by blast
  have "create_resources op cm rt = Inr r6"
    unfolding create_resources_def Let_def r0_def [symmetric] using r1(1) r2(1) r3(1) r4(1) r5(1) r6(1) by simp
  with r1(3) r2(3) r3(3) r4(3) r5(3) r6(2,3) show ?thesis by (auto simp: grows_def f0)
qed

section \<open>Properties\<close>

text \<open>A runtime that has just been constructed.\<close>

definition RuntimeImpl_init :: "node_id \<Rightarrow> node_id \<Rightarrow> nat \<Rightarrow> nat \<Rightarrow> RuntimeImpl" where
  "RuntimeImpl_init my mx mw pw =
     \<lparr>my_node_id = my, max_node_id = mx, mem_bits = mw, proc_bits = pw,
      nodes = (\<lambda>_. \<lparr>memories = [], ib_memories = [], processors = []\<rparr>), global_memory = None,
      num_local_memories = 0, num_local_ib_memories = 0, num_local_processors = 0\<rparr>"

text \<open>Whether or not there is room, what succeeds leaves the numbers of the nodes alone.\<close>

lemma create_same_node:
  "create_memory k sz rt = Inr rt' \<Longrightarrow> my_node_id rt' = my_node_id rt \<and> max_node_id rt' = max_node_id rt"
  "create_ib_memory k sz rt = Inr rt' \<Longrightarrow> my_node_id rt' = my_node_id rt \<and> max_node_id rt' = max_node_id rt"
  by (auto simp: create_memory_def create_ib_memory_def next_local_memory_id_def next_local_ib_memory_id_def add_memory_def
      add_ib_memory_def obind_Inr_iff)

lemma create_procs_same_node:
  "create_procs k n rt = Inr rt' \<Longrightarrow> my_node_id rt' = my_node_id rt \<and> max_node_id rt' = max_node_id rt"
  by (induction k n rt rule: create_procs.induct) (auto simp: next_local_processor_id_def add_processor_def obind_Inr_iff)

lemma core_create_same_node:
  "core_create_memories cm rt = Inr rt' \<Longrightarrow> my_node_id rt' = my_node_id rt \<and> max_node_id rt' = max_node_id rt"
  "core_create_processors cm rt = Inr rt' \<Longrightarrow> my_node_id rt' = my_node_id rt \<and> max_node_id rt' = max_node_id rt"
  "(if b then create_memory k sz rt else Inr rt) = Inr rt' \<Longrightarrow> my_node_id rt' = my_node_id rt \<and> max_node_id rt' = max_node_id rt"
  "(if b then create_ib_memory k sz rt else Inr rt) = Inr rt' \<Longrightarrow> my_node_id rt' = my_node_id rt \<and> max_node_id rt' = max_node_id rt"
  by (auto simp: core_create_memories_def core_create_processors_def obind_Inr_iff split: if_splits
      dest!: create_same_node create_procs_same_node)

lemma create_resources_same_node:
  assumes "create_resources op cm rt = Inr rt'"
  shows "my_node_id rt' = my_node_id rt \<and> max_node_id rt' = max_node_id rt"
proof -
  define r0 where "r0 = rt\<lparr>global_memory := (if gasnet_mem_size_in_mb op > 0
      then Some \<lparr>mem_me = ID_memory 0 ((2 ^ 32 - 1) mod 2 ^ mem_bits rt), mem_kind = GLOBAL_MEM,
                 mem_size = push_bit 20 (gasnet_mem_size_in_mb op)\<rparr> else None)\<rparr>"
  from assms [unfolded create_resources_def Let_def, folded r0_def] obtain r1 r2 r3 r4 r5 where
    r: "core_create_memories cm r0 = Inr r1"
      "(if reg_mem_size_in_mb op > 0 then create_memory REGDMA_MEM (push_bit 20 (reg_mem_size_in_mb op)) r1 else Inr r1) = Inr r2"
      "core_create_processors cm r2 = Inr r3"
      "(if reg_ib_mem_size_in_mb op > 0 then create_ib_memory REGDMA_MEM (push_bit 20 (reg_ib_mem_size_in_mb op)) r3 else Inr r3) = Inr r4"
      "(if disk_mem_size_in_mb op > 0 then create_memory DISK_MEM (push_bit 20 (disk_mem_size_in_mb op)) r4 else Inr r4) = Inr r5"
      "create_memory FILE_MEM (file_mem_size op) r5 = Inr rt'"
    by (elim obind_InrE) (rule that)
  note c = core_create_same_node(1) [OF r(1)] core_create_same_node(3) [OF r(2)] core_create_same_node(2) [OF r(3)]
    core_create_same_node(4) [OF r(4)] core_create_same_node(3) [OF r(5)] create_same_node(1) [OF r(6)]
  have "my_node_id r0 = my_node_id rt" "max_node_id r0 = max_node_id rt" by (simp_all add: r0_def)
  with c show ?thesis by simp
qed

lemma rt_ok_init: "rt_ok (RuntimeImpl_init my mx mw pw)"
  by (simp add: rt_ok_def RuntimeImpl_init_def numbered_Nil)

lemma lookup_registered:
  assumes "rt_ok rt" and "my_node_id rt \<le> max_node_id rt" and "my_node_id rt \<le> MAXN" and "num_local_memories rt < 2 ^ 12"
    and "Some m \<in> set (memories (my_node rt))" and "mem_me m \<noteq> ID_memory (my_node_id rt) (2 ^ 12 - 1)"
  shows "get_memory_impl MAXN rt (mem_me m) = Inr (Some m)"
proof -
  from assms(1) have "numbered mem_me (ID_memory (my_node_id rt)) (num_local_memories rt) (memories (my_node rt))"
    by (simp add: rt_ok_def)
  from this assms(5) obtain i where "mem_me m = ID_memory (my_node_id rt) i" "null_check (memories (my_node rt)) i = Inr m"
    by (rule numbered_find)
  with assms(2,3,6) show ?thesis by (simp add: get_memory_impl_def find_memory_def node_check_def)
qed

text \<open>
  C23. Start-up registers everything under its identifier.  From a fresh runtime the creation of the
  memories and processors of a node never fails an assertion, as long as the identifiers have room:
  the index fields hold at least four memories and all processors.  Afterwards there is a processor
  for every one asked for, and every memory, intermediate memory and processor of the node is what
  the look-up of its identifier returns.
\<close>

theorem startup_registers:
  assumes "my \<le> mx" and "my \<le> MAXN" and "2 \<le> mw" and "num_util_procs cm + num_io_procs cm + num_cpu_procs cm \<le> 2 ^ pw"
  shows "\<exists>rt. create_resources op cm (RuntimeImpl_init my mx mw pw) = Inr rt \<and>
    length (processors (my_node rt)) = num_util_procs cm + num_io_procs cm + num_cpu_procs cm \<and>
    (\<forall>m. Some m \<in> set (memories (my_node rt)) \<or> Some m \<in> set (ib_memories (my_node rt)) \<longrightarrow>
       get_memory_impl MAXN rt (mem_me m) = Inr (Some m)) \<and>
    (\<forall>p. Some p \<in> set (processors (my_node rt)) \<longrightarrow> get_processor_impl entry rt (proc_me p) = Inr (Inr p))"
proof -
  let ?rt = "RuntimeImpl_init my mx mw pw"
  have f: "my_node_id ?rt = my" "max_node_id ?rt = mx" "mem_bits ?rt = mw" "proc_bits ?rt = pw" "num_local_memories ?rt = 0"
    "num_local_ib_memories ?rt = 0" "num_local_processors ?rt = 0" by (simp_all add: RuntimeImpl_init_def)
  have "(2::nat) ^ 2 \<le> 2 ^ mw" using assms(3) by (intro power_increasing) simp_all
  then have "num_local_memories ?rt + 4 \<le> 2 ^ mem_bits ?rt" "num_local_ib_memories ?rt < 2 ^ mem_bits ?rt" by (simp_all add: f)
  from create_resources_ok [OF rt_ok_init this, of cm op] assms(4) f obtain rt where
    rt: "create_resources op cm ?rt = Inr rt" "rt_ok rt" "my_node_id rt = my" "max_node_id rt = mx" "num_local_memories rt \<le> 4"
      "num_local_processors rt = num_util_procs cm + num_io_procs cm + num_cpu_procs cm" by auto
  have n: "numbered mem_me (ID_memory my) (num_local_memories rt) (memories (my_node rt))"
      "numbered mem_me (ID_ib_memory my) (num_local_ib_memories rt) (ib_memories (my_node rt))"
      "numbered proc_me (ID_processor my) (num_local_processors rt) (processors (my_node rt))"
    using rt(2,3) by (simp_all add: rt_ok_def)
  have m: "get_memory_impl MAXN rt (mem_me m) = Inr (Some m)"
    if "Some m \<in> set (memories (my_node rt)) \<or> Some m \<in> set (ib_memories (my_node rt))" for m
  proof (rule disjE [OF that])
    assume "Some m \<in> set (memories (my_node rt))"
    with n(1) obtain i where "i < num_local_memories rt" "mem_me m = ID_memory my i" by (rule numbered_find)
    then show ?thesis using lookup_registered [OF rt(2), of MAXN m] rt assms(1,2) \<open>Some m \<in> set (memories (my_node rt))\<close> by simp
  next
    assume "Some m \<in> set (ib_memories (my_node rt))"
    with n(2) obtain i where "mem_me m = ID_ib_memory my i" "null_check (ib_memories (my_node rt)) i = Inr m" by (rule numbered_find)
    then show ?thesis using rt(3,4) assms(1) by (simp add: get_memory_impl_def node_check_def)
  qed
  have "get_processor_impl entry rt (proc_me p) = Inr (Inr p)" if "Some p \<in> set (processors (my_node rt))" for p
  proof -
    from n(3) that obtain i where "proc_me p = ID_processor my i" "null_check (processors (my_node rt)) i = Inr p" by (rule numbered_find)
    then show ?thesis using rt(3,4) assms(1) by (simp add: get_processor_impl_def node_check_def)
  qed
  moreover have "length (processors (my_node rt)) = num_util_procs cm + num_io_procs cm + num_cpu_procs cm"
    using n(3) rt(6) by (simp add: numbered_def)
  ultimately show ?thesis using rt(1) m by blast
qed

definition demo_options :: mem_options where
  "demo_options = \<lparr>gasnet_mem_size_in_mb = 256, reg_mem_size_in_mb = 0, reg_ib_mem_size_in_mb = 256, disk_mem_size_in_mb = 16, file_mem_size = 0\<rparr>"

fun demo_entry :: table_lookup where
  "demo_entry Events n i own = ID_event own i 0"
| "demo_entry Barriers n i own = ID_barrier own i 0"
| "demo_entry Reservations n i own = ID_reservation own i"
| "demo_entry Proc_Groups n i own = ID_procgroup own 0 i"

theorem startup_registers_witness:
  "\<exists>rt. create_resources demo_options CoreModule_construct (RuntimeImpl_init 1 3 8 12) = Inr rt \<and>
     length (processors (my_node rt)) = 2"
proof -
  have "\<exists>rt. create_resources demo_options CoreModule_construct (RuntimeImpl_init 1 3 8 12) = Inr rt \<and>
      length (processors (my_node rt)) = num_util_procs CoreModule_construct + num_io_procs CoreModule_construct + num_cpu_procs CoreModule_construct \<and>
      (\<forall>m. Some m \<in> set (memories (my_node rt)) \<or> Some m \<in> set (ib_memories (my_node rt)) \<longrightarrow> get_memory_impl 100 rt (mem_me m) = Inr (Some m)) \<and>
      (\<forall>p. Some p \<in> set (processors (my_node rt)) \<longrightarrow> get_processor_impl demo_entry rt (proc_me p) = Inr (Inr p))"
    by (rule startup_registers) (simp_all add: CoreModule_construct_def)
  then obtain rt where "create_resources demo_options CoreModule_construct (RuntimeImpl_init 1 3 8 12) = Inr rt"
    "length (processors (my_node rt)) = num_util_procs CoreModule_construct + num_io_procs CoreModule_construct + num_cpu_procs CoreModule_construct"
    by blast
  then show ?thesis by (intro exI [of _ rt]) (simp add: CoreModule_construct_def)
qed

text \<open>
  The index of all ones is taken for the global memory whatever the width of the field: a node whose
  index field is wider than twelve bits can register a memory with this index, and the look-up of its
  identifier then gives the global memory, or a null pointer, instead.
\<close>

lemma memory_4095_hidden: "get_memory_impl MAXN rt (ID_memory n (2 ^ 12 - 1)) = Inr (global_memory rt)"
  by (simp add: get_memory_impl_def find_memory_def)

text \<open>What the code relies on of the tables: an entry carries the identifier it is found under.\<close>

definition table_laws :: "table_lookup \<Rightarrow> bool" where
  "table_laws entry \<longleftrightarrow> (\<forall>n i. entry Events n i n = ID_event n i 0 \<and> entry Barriers n i n = ID_barrier n i 0 \<and>
     entry Reservations n i n = ID_reservation n i \<and> entry Proc_Groups n i n = ID_procgroup n 0 i)"



end
