(* ===== verification/Affinities.thy ===== *)
theory Affinities
  imports Registry
begin

text \<open>
  The affinities between processors and memories that \<^verbatim>\<open>configure_from_command_line\<close> adds for the
  local processors where a module has not given any (\<^verbatim>\<open>add_proc_mem_affinities\<close>,
  \<^verbatim>\<open>add_mem_mem_affinities\<close>).  The machine model that stores them is not in the repository: its
  query and its insertion are arguments, related by \<open>affinity_laws\<close>.
\<close>

section \<open>Adding what is missing\<close>

record ('k, 'm) machine_ops =
  get_affinity :: "'m \<Rightarrow> 'k \<Rightarrow> 'k \<Rightarrow> (int \<times> int) list"
  add_affinity :: "'k \<Rightarrow> 'k \<Rightarrow> int \<Rightarrow> int \<Rightarrow> 'm \<Rightarrow> 'm"

definition add_proc_mem_affinities :: "('k, 'm) machine_ops \<Rightarrow> 'k list \<Rightarrow> 'k list \<Rightarrow> int \<Rightarrow> int \<Rightarrow> 'm \<Rightarrow> 'm" where
  "add_proc_mem_affinities mo procs mems bandwidth latency machine =
     fold (\<lambda>p. fold (\<lambda>m mc. if get_affinity mo mc p m \<noteq> [] then mc else add_affinity mo p m bandwidth latency mc) mems)
       procs machine"

definition add_mem_mem_affinities :: "('k, 'm) machine_ops \<Rightarrow> 'k list \<Rightarrow> 'k list \<Rightarrow> int \<Rightarrow> int \<Rightarrow> 'm \<Rightarrow> 'm" where
  "add_mem_mem_affinities mo mems1 mems2 bandwidth latency machine =
     fold (\<lambda>m1. fold (\<lambda>m2 mc. if get_affinity mo mc m1 m2 \<noteq> [] then mc else add_affinity mo m1 m2 bandwidth latency mc) mems2)
       mems1 machine"

text \<open>The identifiers of the local processors and memories of a kind; the global memory counts as local.\<close>

definition procs_by_kind :: "RuntimeImpl \<Rightarrow> Processor_Kind \<Rightarrow> ID list" where
  "procs_by_kind rt k = concat (map (\<lambda>p. case p of None \<Rightarrow> [] | Some x \<Rightarrow> if proc_kind x = k then [proc_me x] else []) (processors (my_node rt)))"

definition mems_by_kind :: "RuntimeImpl \<Rightarrow> Memory_Kind \<Rightarrow> ID list" where
  "mems_by_kind rt k =
     concat (map (\<lambda>m. case m of None \<Rightarrow> [] | Some x \<Rightarrow> if mem_kind x = k then [mem_me x] else []) (memories (my_node rt))) @
     (if k = GLOBAL_MEM then case global_memory rt of None \<Rightarrow> [] | Some g \<Rightarrow> [mem_me g] else [])"

definition local_cpu_kinds :: "Processor_Kind list" where
  "local_cpu_kinds = [LOC_PROC, UTIL_PROC, IO_PROC, PROC_SET]"

text \<open>The bandwidth and latency given to each kind of memory, in the order of the calls.\<close>

definition proc_mem_table :: "(Memory_Kind \<times> int \<times> int) list" where
  "proc_mem_table = [(SYSTEM_MEM, 100, 5), (REGDMA_MEM, 80, 10), (DISK_MEM, 5, 100), (HDF_MEM, 5, 100), (FILE_MEM, 5, 100), (GLOBAL_MEM, 10, 50)]"

definition mem_mem_table :: "(Memory_Kind \<times> Memory_Kind \<times> int \<times> int) list" where
  "mem_mem_table = [(SYSTEM_MEM, GLOBAL_MEM, 30, 25), (SYSTEM_MEM, DISK_MEM, 15, 50), (SYSTEM_MEM, FILE_MEM, 15, 50)]"

definition add_local_affinities :: "RuntimeImpl \<Rightarrow> (ID, 'm) machine_ops \<Rightarrow> (ID, 'm) machine_ops \<Rightarrow> 'm \<Rightarrow> 'm" where
  "add_local_affinities rt pm mm machine =
     (let m1 = fold (\<lambda>k. fold (\<lambda>(mk, bw, lat). add_proc_mem_affinities pm (procs_by_kind rt k) (mems_by_kind rt mk) bw lat) proc_mem_table)
                 local_cpu_kinds machine;
          m2 = fold (\<lambda>(a, b, bw, lat). add_mem_mem_affinities mm (mems_by_kind rt a) (mems_by_kind rt b) bw lat) mem_mem_table m1
      in fold (\<lambda>k. add_proc_mem_affinities pm (procs_by_kind rt k) (mems_by_kind rt Z_COPY_MEM) 40 3) local_cpu_kinds m2)"

section \<open>Laws and lemmas\<close>

definition affinity_laws :: "('k, 'm) machine_ops \<Rightarrow> bool" where
  "affinity_laws mo \<longleftrightarrow> (\<forall>p m b l mc p' m'.
     get_affinity mo (add_affinity mo p m b l mc) p' m' =
       (if p' = p \<and> m' = m then get_affinity mo mc p m @ [(b, l)] else get_affinity mo mc p' m'))"

definition independent :: "('k, 'm) machine_ops \<Rightarrow> ('k, 'm) machine_ops \<Rightarrow> bool" where
  "independent mo mo' \<longleftrightarrow> (\<forall>p m b l mc p' m'. get_affinity mo (add_affinity mo' p m b l mc) p' m' = get_affinity mo mc p' m')"

text \<open>What a pair has after a call: what it had, or else the new affinity.\<close>

definition or_else :: "'a list \<Rightarrow> 'a \<Rightarrow> 'a list" where
  "or_else xs x = (if xs = [] then [x] else xs)"

lemma or_else_idem [simp]: "or_else (or_else xs x) y = or_else xs x"
  by (simp add: or_else_def)

lemma add_row:
  assumes "affinity_laws mo"
  shows "get_affinity mo (fold (\<lambda>m mc. if get_affinity mo mc p m \<noteq> [] then mc else add_affinity mo p m b l mc) mems mc) p' m' =
    (if p' = p \<and> m' \<in> set mems then or_else (get_affinity mo mc p' m') (b, l) else get_affinity mo mc p' m')"
proof (induction mems arbitrary: mc)
  case (Cons m mems)
  have "get_affinity mo (add_affinity mo p m b l mc) p' m' =
      (if p' = p \<and> m' = m then get_affinity mo mc p m @ [(b, l)] else get_affinity mo mc p' m')"
    using assms by (simp add: affinity_laws_def)
  then show ?case by (auto simp: Cons or_else_def)
qed simp

lemma get_add_proc_mem:
  assumes "affinity_laws mo"
  shows "get_affinity mo (add_proc_mem_affinities mo procs mems b l mc) p m =
    (if p \<in> set procs \<and> m \<in> set mems then or_else (get_affinity mo mc p m) (b, l) else get_affinity mo mc p m)"
  by (induction procs arbitrary: mc) (auto simp: add_proc_mem_affinities_def add_row [OF assms] or_else_def)

lemma get_add_mem_mem:
  assumes "independent mo mo'"
  shows "get_affinity mo (add_mem_mem_affinities mo' xs ys b l mc) p m = get_affinity mo mc p m"
proof -
  have "get_affinity mo (fold (\<lambda>m2 mc. if get_affinity mo' mc m1 m2 \<noteq> [] then mc else add_affinity mo' m1 m2 b l mc) ys mc) p m =
      get_affinity mo mc p m" for m1 mc
    using assms by (induction ys arbitrary: mc) (auto simp: independent_def)
  then show ?thesis by (induction xs arbitrary: mc) (auto simp: add_mem_mem_affinities_def)
qed

text \<open>The affinity the calls give to the memories of a kind.\<close>

fun kind_affinity :: "Memory_Kind \<Rightarrow> int \<times> int" where
  "kind_affinity SYSTEM_MEM = (100, 5)"
| "kind_affinity REGDMA_MEM = (80, 10)"
| "kind_affinity DISK_MEM = (5, 100)"
| "kind_affinity HDF_MEM = (5, 100)"
| "kind_affinity FILE_MEM = (5, 100)"
| "kind_affinity GLOBAL_MEM = (10, 50)"
| "kind_affinity Z_COPY_MEM = (40, 3)"

text \<open>Every memory has one kind: local identifiers are numbered, and that of the global memory is none of them.\<close>

definition kinds_unique :: "RuntimeImpl \<Rightarrow> bool" where
  "kinds_unique rt \<longleftrightarrow> (\<forall>m k k'. m \<in> set (mems_by_kind rt k) \<longrightarrow> m \<in> set (mems_by_kind rt k') \<longrightarrow> k = k')"

definition global_apart :: "RuntimeImpl \<Rightarrow> bool" where
  "global_apart rt \<longleftrightarrow> (\<forall>g m. global_memory rt = Some g \<longrightarrow> Some m \<in> set (memories (my_node rt)) \<longrightarrow> mem_me m \<noteq> mem_me g)"

lemma pick_iff:
  "i \<in> set (concat (map (\<lambda>p. case p of None \<Rightarrow> [] | Some x \<Rightarrow> if P x then [f x] else []) xs)) \<longleftrightarrow>
     (\<exists>x. Some x \<in> set xs \<and> P x \<and> f x = i)"
  by (induction xs) (auto split: option.splits)

lemma mems_by_kind_iff:
  "i \<in> set (mems_by_kind rt k) \<longleftrightarrow> (\<exists>m. Some m \<in> set (memories (my_node rt)) \<and> mem_kind m = k \<and> mem_me m = i) \<or>
     (k = GLOBAL_MEM \<and> (\<exists>g. global_memory rt = Some g \<and> mem_me g = i))"
  unfolding mems_by_kind_def set_append Un_iff pick_iff by (cases "global_memory rt"; cases "k = GLOBAL_MEM") auto

lemma procs_by_kind_iff:
  "i \<in> set (procs_by_kind rt k) \<longleftrightarrow> (\<exists>p. Some p \<in> set (processors (my_node rt)) \<and> proc_kind p = k \<and> proc_me p = i)"
  unfolding procs_by_kind_def pick_iff ..

lemma numbered_inj:
  assumes "numbered me mk n xs" and "inj mk" and "Some x \<in> set xs" and "Some y \<in> set xs" and "me x = me y"
  shows "x = y"
proof -
  from assms(1,3) obtain i where i: "me x = mk i" "null_check xs i = Inr x" by (rule numbered_find)
  from assms(1,4) obtain j where j: "me y = mk j" "null_check xs j = Inr y" by (rule numbered_find)
  have "i = j" using i(1) j(1) assms(2,5) by (simp add: inj_eq)
  with i(2) j(2) show ?thesis by simp
qed

lemma kinds_unique:
  assumes "rt_ok rt" and "global_apart rt"
  shows "kinds_unique rt"
proof -
  have "numbered mem_me (ID_memory (my_node_id rt)) (num_local_memories rt) (memories (my_node rt))" "inj (ID_memory (my_node_id rt))"
    using assms(1) by (simp_all add: rt_ok_def inj_def)
  note u = numbered_inj [OF this]
  show ?thesis unfolding kinds_unique_def mems_by_kind_iff
  proof (intro allI impI, elim disjE exE conjE)
  qed (use assms(2) in \<open>auto simp: global_apart_def dest: u\<close>)
qed

lemma fold_table:
  assumes "affinity_laws pm" and "kinds_unique rt" and "m \<in> set (mems_by_kind rt mk)" and "\<forall>(k, b, l) \<in> set tbl. kind_affinity k = (b, l)"
  shows "get_affinity pm (fold (\<lambda>(k, bw, lat). add_proc_mem_affinities pm procs (mems_by_kind rt k) bw lat) tbl mc) p m =
    (if p \<in> set procs \<and> mk \<in> fst ` set tbl then or_else (get_affinity pm mc p m) (kind_affinity mk) else get_affinity pm mc p m)"
  using assms(4)
proof (induction tbl arbitrary: mc)
  case (Cons x tbl)
  obtain k b l where x: "x = (k, b, l)" by (metis surj_pair)
  have "m \<in> set (mems_by_kind rt k) \<longleftrightarrow> k = mk" using assms(2,3) unfolding kinds_unique_def by blast
  then show ?case using Cons x by (auto simp: get_add_proc_mem [OF assms(1)])
qed simp

lemma fold_kinds:
  assumes "\<And>k mc. get_affinity pm (f k mc) p m = (if p \<in> set (procs_by_kind rt k) \<and> c then or_else (get_affinity pm mc p m) a else get_affinity pm mc p m)"
  shows "get_affinity pm (fold f ks mc) p m =
    (if (\<exists>k \<in> set ks. p \<in> set (procs_by_kind rt k)) \<and> c then or_else (get_affinity pm mc p m) a else get_affinity pm mc p m)"
  by (induction ks arbitrary: mc) (auto simp: assms)

lemma add_local_affinities_get:
  assumes "affinity_laws pm" and "independent pm mm" and u: "kinds_unique rt" and m: "m \<in> set (mems_by_kind rt k)"
  shows "get_affinity pm (add_local_affinities rt pm mm mc) p m =
    (if \<exists>c. p \<in> set (procs_by_kind rt c) then or_else (get_affinity pm mc p m) (kind_affinity k) else get_affinity pm mc p m)"
proof -
  have all: "(\<exists>c \<in> set local_cpu_kinds. p \<in> set (procs_by_kind rt c)) \<longleftrightarrow> (\<exists>c. p \<in> set (procs_by_kind rt c))"
  proof -
    have "c \<in> set local_cpu_kinds" for c by (cases c) (simp_all add: local_cpu_kinds_def)
    then show ?thesis by blast
  qed
  have t: "\<forall>(k, b, l) \<in> set proc_mem_table. kind_affinity k = (b, l)" by (simp add: proc_mem_table_def)
  have kt: "k \<in> fst ` set proc_mem_table \<longleftrightarrow> k \<noteq> Z_COPY_MEM" by (cases k) (simp_all add: proc_mem_table_def)
  have z: "m \<in> set (mems_by_kind rt Z_COPY_MEM) \<longleftrightarrow> k = Z_COPY_MEM" using u m unfolding kinds_unique_def by blast
  have mm: "get_affinity pm (fold (\<lambda>(a, b, bw, lat). add_mem_mem_affinities mm (mems_by_kind rt a) (mems_by_kind rt b) bw lat) tbl mc') p m =
      get_affinity pm mc' p m" for tbl mc'
    by (induction tbl arbitrary: mc') (auto simp: get_add_mem_mem [OF assms(2)])
  note s1 = fold_kinds [where pm = pm and p = p and m = m and c = "k \<noteq> Z_COPY_MEM" and a = "kind_affinity k",
      OF fold_table [OF assms(1) u m t, unfolded kt]]
  have s3: "get_affinity pm (add_proc_mem_affinities pm (procs_by_kind rt c) (mems_by_kind rt Z_COPY_MEM) 40 3 mc') p m =
      (if p \<in> set (procs_by_kind rt c) \<and> k = Z_COPY_MEM then or_else (get_affinity pm mc' p m) (kind_affinity k) else get_affinity pm mc' p m)" for c mc'
    using z by (auto simp: get_add_proc_mem [OF assms(1)])
  show ?thesis
    unfolding add_local_affinities_def Let_def fold_kinds [OF s3] mm s1 all by (cases "k = Z_COPY_MEM") simp_all
qed

section \<open>Properties\<close>


text \<open>A machine model that satisfies the laws: two lists of affinities.\<close>

definition demo_pm :: "(ID, (ID \<times> ID \<times> int \<times> int) list \<times> (ID \<times> ID \<times> int \<times> int) list) machine_ops" where
  "demo_pm = \<lparr>get_affinity = (\<lambda>mc p m. map (snd \<circ> snd) (filter (\<lambda>x. fst x = p \<and> fst (snd x) = m) (fst mc))),
     add_affinity = (\<lambda>p m b l mc. (fst mc @ [(p, m, b, l)], snd mc))\<rparr>"

definition demo_mm :: "(ID, (ID \<times> ID \<times> int \<times> int) list \<times> (ID \<times> ID \<times> int \<times> int) list) machine_ops" where
  "demo_mm = \<lparr>get_affinity = (\<lambda>mc p m. map (snd \<circ> snd) (filter (\<lambda>x. fst x = p \<and> fst (snd x) = m) (snd mc))),
     add_affinity = (\<lambda>p m b l mc. (fst mc, snd mc @ [(p, m, b, l)]))\<rparr>"

definition demo_runtime :: RuntimeImpl where
  "demo_runtime = projr (create_resources demo_options CoreModule_construct (RuntimeImpl_init 1 3 8 12))"


end
