(* ===== verification/Announcements.thy ===== *)
theory Announcements
  imports Affinities "HOL-Library.Multiset"
begin

text \<open>
  The announcement of a node to all others at the end of \<^verbatim>\<open>configure_from_command_line\<close>
  (\<^verbatim>\<open>src/templates/runtime_impl.cc\<close>): processors, memories, affinities and DMA channels, written one
  after the other into a buffer and sent with their numbers.  The serialiser is not in the
  repository: \<open>put\<close> appends one field and says whether it could; nor are the queries of the
  machine model and the channels, which are the arguments of \<open>announce_query\<close>.
\<close>

section \<open>Fields and items\<close>

datatype announce_tag =
    NODE_ANNOUNCE_DONE
  | NODE_ANNOUNCE_PROC
  | NODE_ANNOUNCE_MEM
  | NODE_ANNOUNCE_IB_MEM
  | NODE_ANNOUNCE_PMA
  | NODE_ANNOUNCE_MMA
  | NODE_ANNOUNCE_DMA_CHANNEL

datatype 'c field =
    Tag announce_tag
  | Ident ID
  | Proc_Kind Processor_Kind
  | Mem_Kind Memory_Kind
  | Number int
  | Channel_Info 'c

type_synonym affinity = "ID \<times> ID \<times> int \<times> int"

text \<open>What one round of the loops announces.\<close>

datatype 'c item =
    Announce_Proc ID Processor_Kind int
  | Announce_Mem ID Memory_Kind int int
  | Announce_IB_Mem ID Memory_Kind int int
  | Announce_PMA affinity
  | Announce_MMA affinity
  | Announce_Channel 'c
  | Announce_Done

fun fields_of :: "'c item \<Rightarrow> 'c field list" where
  "fields_of (Announce_Proc p k num_cores) = [Tag NODE_ANNOUNCE_PROC, Ident p, Proc_Kind k, Number num_cores]"
| "fields_of (Announce_Mem m k sz regptr) = [Tag NODE_ANNOUNCE_MEM, Ident m, Mem_Kind k, Number sz, Number regptr]"
| "fields_of (Announce_IB_Mem m k sz regptr) = [Tag NODE_ANNOUNCE_IB_MEM, Ident m, Mem_Kind k, Number sz, Number regptr]"
| "fields_of (Announce_PMA (p, m, bandwidth, latency)) =
     [Tag NODE_ANNOUNCE_PMA, Ident p, Ident m, Number bandwidth, Number latency]"
| "fields_of (Announce_MMA (m1, m2, bandwidth, latency)) =
     [Tag NODE_ANNOUNCE_MMA, Ident m1, Ident m2, Number bandwidth, Number latency]"
| "fields_of (Announce_Channel c) = [Tag NODE_ANNOUNCE_DMA_CHANNEL, Channel_Info c]"
| "fields_of Announce_Done = [Tag NODE_ANNOUNCE_DONE]"

text \<open>Nothing more is written once a field could not be.\<close>

fun write_fields :: "('c field \<Rightarrow> 'b \<Rightarrow> bool \<times> 'b) \<Rightarrow> 'c field list \<Rightarrow> bool \<times> 'b \<Rightarrow> bool \<times> 'b" where
  "write_fields put [] (ok, dbs) = (ok, dbs)"
| "write_fields put (f # fs) (ok, dbs) = (if ok then write_fields put fs (put f dbs) else (ok, dbs))"

section \<open>The announcement\<close>

record 'c announce_query =
  aq_num_cores :: "reg_processor \<Rightarrow> int"
  aq_reg_base :: "reg_memory \<Rightarrow> int"
  aq_proc_mem :: "ID \<Rightarrow> affinity list"
  aq_mem_mem :: "ID \<Rightarrow> affinity list"
  aq_address_space :: "ID \<Rightarrow> node_id"
  aq_channels :: "'c option list"

definition present :: "'a option list \<Rightarrow> 'a list" where
  "present xs = concat (map (\<lambda>x. case x of None \<Rightarrow> [] | Some y \<Rightarrow> [y]) xs)"

definition announce_procs :: "'c announce_query \<Rightarrow> Node \<Rightarrow> 'c item list" where
  "announce_procs q n = map (\<lambda>p. Announce_Proc (proc_me p) (proc_kind p) (aq_num_cores q p)) (present (processors n))"

definition announce_memories :: "'c announce_query \<Rightarrow> Node \<Rightarrow> 'c item list" where
  "announce_memories q n =
     map (\<lambda>m. Announce_Mem (mem_me m) (mem_kind m) (uint (mem_size m)) (aq_reg_base q m)) (present (memories n)) @
     map (\<lambda>m. Announce_IB_Mem (mem_me m) (mem_kind m) (uint (mem_size m)) (aq_reg_base q m)) (present (ib_memories n))"

definition announce_proc_mem :: "'c announce_query \<Rightarrow> Node \<Rightarrow> affinity list" where
  "announce_proc_mem q n = concat (map (\<lambda>p. aq_proc_mem q (proc_me p)) (present (processors n)))"

text \<open>Only affinities within the node, and only those with the memory as the first, to avoid duplicates.\<close>

definition announce_mem_mem :: "'c announce_query \<Rightarrow> node_id \<Rightarrow> Node \<Rightarrow> affinity list" where
  "announce_mem_mem q my n =
     concat (map (\<lambda>m. filter (\<lambda>(m1, m2, b, l). \<not> (m1 \<noteq> mem_me m \<or> aq_address_space q m2 \<noteq> my)) (aq_mem_mem q (mem_me m)))
       (present (memories n)))"

definition announcement :: "'c announce_query \<Rightarrow> RuntimeImpl \<Rightarrow> 'c item list" where
  "announcement q rt =
     (let n = my_node rt
      in announce_procs q n @ announce_memories q n @ map Announce_PMA (announce_proc_mem q n) @
         map Announce_MMA (announce_mem_mem q (my_node_id rt) n) @ map Announce_Channel (present (aq_channels q)) @
         [Announce_Done])"

text \<open>The messages: target, numbers of processors, memories and intermediate memories, buffer.\<close>

definition announce_node ::
  "('c field \<Rightarrow> 'b \<Rightarrow> bool \<times> 'b) \<Rightarrow> 'b \<Rightarrow> 'c announce_query \<Rightarrow> RuntimeImpl \<Rightarrow>
     (node_id \<times> nat \<times> nat \<times> nat \<times> 'b) list outcome" where
  "announce_node put dbs0 q rt =
     (let (ok, dbs) = write_fields put (concat (map fields_of (announcement q rt))) (True, dbs0); n = my_node rt
      in obind (cassert ok) (\<lambda>_.
           Inr (map (\<lambda>i. (i, length (present (processors n)), length (present (memories n)), length (present (ib_memories n)), dbs))
                 (filter (\<lambda>i. i \<noteq> my_node_id rt) [0 ..< max_node_id rt + 1]))))"

section \<open>Lemmas\<close>

lemma fields_inj:
  assumes "concat (map fields_of xs) = concat (map fields_of ys)"
  shows "xs = ys"
  using assms
proof (induction xs arbitrary: ys)
  case Nil
  then show ?case by (cases ys) (auto elim: fields_of.elims)
next
  case (Cons x xs)
  obtain y ys' where ys: "ys = y # ys'" using Cons.prems by (cases ys) (auto elim: fields_of.elims)
  have "x = y \<and> concat (map fields_of xs) = concat (map fields_of ys')"
    using Cons.prems unfolding ys by (cases x rule: fields_of.cases; cases y rule: fields_of.cases) auto
  with Cons.IH ys show ?case by blast
qed

lemma write_fields_fail: "write_fields put fs (False, b) = (False, b)"
  by (cases fs) auto

lemma write_fields_all:
  assumes "\<And>f b. fst (put f b)"
  shows "write_fields put fs (True, b) = (True, fold (\<lambda>f. snd \<circ> put f) fs b)"
proof (induction fs arbitrary: b)
  case (Cons f fs)
  obtain b' where "put f b = (True, b')" using assms [of f b] by (cases "put f b") auto
  with Cons show ?case by simp
qed simp

lemma present_simps [simp]: "present [] = []" "present (None # xs) = present xs" "present (Some x # xs) = x # present xs"
  by (simp_all add: present_def)

lemma set_present: "set (present xs) = {x. Some x \<in> set xs}"
  by (induction xs) (auto simp: present_def split: option.splits)

lemma split_filter:
  assumes "k \<notin> S"
  shows "mset (filter (\<lambda>a. fst a = k \<and> Q a) xs) + mset (filter (\<lambda>a. fst a \<in> S \<and> Q a) xs) =
    mset (filter (\<lambda>a. fst a \<in> insert k S \<and> Q a) xs)"
  using assms by (induction xs) auto

lemma collect_by_key:
  assumes "distinct ks"
  shows "mset (concat (map (\<lambda>k. filter (\<lambda>a. fst a = k \<and> Q a) xs) ks)) = mset (filter (\<lambda>a. fst a \<in> set ks \<and> Q a) xs)"
  using assms
proof (induction ks)
  case (Cons k ks)
  then show ?case using split_filter [of k "set ks" Q xs] by simp
qed simp

lemma distinct_present:
  assumes "numbered me mk n xs" and "inj mk"
  shows "distinct (map me (present xs))"
proof -
  have "map me (present xs) = map mk [0 ..< n]"
    using assms(1)
  proof (induction n arbitrary: xs)
    case (Suc n)
    then obtain ys y where xs: "xs = ys @ [y]" by (metis length_0_conv nat.distinct(1) numbered_def rev_exhaust)
    then have l: "length ys = n" using Suc.prems by (simp add: numbered_def)
    have "numbered me mk n ys"
      unfolding numbered_def
    proof (intro conjI allI impI)
      show "\<exists>x. ys ! i = Some x \<and> me x = mk i" if "i < n" for i
        using Suc.prems that l by (auto simp: numbered_def xs nth_append dest: spec [of _ i])
    qed (rule l)
    moreover obtain x where "y = Some x" "me x = mk n"
      using Suc.prems l by (auto simp: numbered_def xs nth_append dest: spec [of _ n])
    ultimately show ?case using Suc.IH [of ys] by (simp add: xs present_def)
  qed (simp add: numbered_def)
  then show ?thesis using inj_on_subset [OF assms(2), of "{0 ..< n}"] by (simp add: distinct_map)
qed

text \<open>
  What the machine model answers: the affinities of a processor, and those with a memory on either side.
\<close>

definition machine_view :: "'c announce_query \<Rightarrow> affinity list \<Rightarrow> affinity list \<Rightarrow> bool" where
  "machine_view q pl ml \<longleftrightarrow>
     (\<forall>p. aq_proc_mem q p = filter (\<lambda>a. fst a = p) pl) \<and>
     (\<forall>m. aq_mem_mem q m = filter (\<lambda>a. fst a = m \<or> fst (snd a) = m) ml)"

lemma announced_affinities:
  assumes v: "machine_view q pl ml" and ok: "rt_ok rt"
  shows "mset (announce_proc_mem q (my_node rt)) =
      mset (filter (\<lambda>a. fst a \<in> proc_me ` set (present (processors (my_node rt)))) pl)"
    "mset (announce_mem_mem q (my_node_id rt) (my_node rt)) =
      mset (filter (\<lambda>a. fst a \<in> mem_me ` set (present (memories (my_node rt))) \<and> aq_address_space q (fst (snd a)) = my_node_id rt) ml)"
proof -
  let ?n = "my_node rt"
  have p: "distinct (map proc_me (present (processors ?n)))" and m: "distinct (map mem_me (present (memories ?n)))"
    using ok by (auto simp: rt_ok_def inj_def intro: distinct_present)
  have "announce_proc_mem q ?n = concat (map (\<lambda>k. filter (\<lambda>a. fst a = k \<and> True) pl) (map proc_me (present (processors ?n))))"
    using v by (simp add: announce_proc_mem_def machine_view_def comp_def)
  with collect_by_key [OF p, of "\<lambda>_. True" pl]
  show "mset (announce_proc_mem q ?n) = mset (filter (\<lambda>a. fst a \<in> proc_me ` set (present (processors ?n))) pl)" by simp
  have f: "filter (\<lambda>(m1, m2, b, l). \<not> (m1 \<noteq> k \<or> aq_address_space q m2 \<noteq> my_node_id rt)) (aq_mem_mem q k) =
      filter (\<lambda>a. fst a = k \<and> aq_address_space q (fst (snd a)) = my_node_id rt) ml" for k
    using v by (auto simp: machine_view_def filter_filter intro!: filter_cong)
  have "announce_mem_mem q (my_node_id rt) ?n =
      concat (map (\<lambda>k. filter (\<lambda>a. fst a = k \<and> aq_address_space q (fst (snd a)) = my_node_id rt) ml) (map mem_me (present (memories ?n))))"
    by (simp only: announce_mem_mem_def f list.map_comp comp_def)
  with collect_by_key [OF m, of "\<lambda>a. aq_address_space q (fst (snd a)) = my_node_id rt" ml]
  show "mset (announce_mem_mem q (my_node_id rt) ?n) =
      mset (filter (\<lambda>a. fst a \<in> mem_me ` set (present (memories ?n)) \<and> aq_address_space q (fst (snd a)) = my_node_id rt) ml)"
    by simp
qed

section \<open>Property\<close>

text \<open>
  C24. A node announces itself completely and without repetition: when the serialiser takes every
  field, no assertion fails and every other node gets one message with the numbers of processors
  and memories and the same buffer.  The buffer holds the fields of a list of items that its fields
  determine: every local processor, memory, intermediate memory and channel once, every affinity of
  a local processor once, every affinity between two memories of the node once although the
  machine model lists it under both, and at the end the mark that the announcement is complete.
\<close>

theorem announcement_complete:
  assumes "\<And>f b. fst (put f b)" and "machine_view q pl ml" and "rt_ok rt"
  shows "\<exists>items. announce_node put dbs0 q rt =
      Inr (map (\<lambda>i. (i, length (present (processors (my_node rt))), length (present (memories (my_node rt))),
                      length (present (ib_memories (my_node rt))),
                      fold (\<lambda>f. snd \<circ> put f) (concat (map fields_of items)) dbs0))
            (filter (\<lambda>i. i \<noteq> my_node_id rt) [0 ..< max_node_id rt + 1])) \<and>
    (\<forall>ys. concat (map fields_of ys) = concat (map fields_of items) \<longrightarrow> ys = items) \<and>
    last items = Announce_Done \<and>
    mset items =
      mset (map (\<lambda>p. Announce_Proc (proc_me p) (proc_kind p) (aq_num_cores q p)) (present (processors (my_node rt)))) +
      mset (map (\<lambda>m. Announce_Mem (mem_me m) (mem_kind m) (uint (mem_size m)) (aq_reg_base q m)) (present (memories (my_node rt)))) +
      mset (map (\<lambda>m. Announce_IB_Mem (mem_me m) (mem_kind m) (uint (mem_size m)) (aq_reg_base q m)) (present (ib_memories (my_node rt)))) +
      mset (map Announce_PMA (filter (\<lambda>a. fst a \<in> proc_me ` set (present (processors (my_node rt)))) pl)) +
      mset (map Announce_MMA (filter (\<lambda>a. fst a \<in> mem_me ` set (present (memories (my_node rt))) \<and>
        aq_address_space q (fst (snd a)) = my_node_id rt) ml)) +
      mset (map Announce_Channel (present (aq_channels q))) + {#Announce_Done#}"
proof (intro exI [of _ "announcement q rt"] conjI allI impI)
  note a = announced_affinities [OF assms(2,3)]
  show "announce_node put dbs0 q rt =
      Inr (map (\<lambda>i. (i, length (present (processors (my_node rt))), length (present (memories (my_node rt))),
                      length (present (ib_memories (my_node rt))),
                      fold (\<lambda>f. snd \<circ> put f) (concat (map fields_of (announcement q rt))) dbs0))
            (filter (\<lambda>i. i \<noteq> my_node_id rt) [0 ..< max_node_id rt + 1]))"
    by (simp add: announce_node_def write_fields_all [OF assms(1)] Let_def del: upt_Suc)
  show "ys = announcement q rt" if "concat (map fields_of ys) = concat (map fields_of (announcement q rt))" for ys
    using that by (rule fields_inj)
  show "last (announcement q rt) = Announce_Done" by (simp add: announcement_def Let_def)
  show "mset (announcement q rt) =
      mset (map (\<lambda>p. Announce_Proc (proc_me p) (proc_kind p) (aq_num_cores q p)) (present (processors (my_node rt)))) +
      mset (map (\<lambda>m. Announce_Mem (mem_me m) (mem_kind m) (uint (mem_size m)) (aq_reg_base q m)) (present (memories (my_node rt)))) +
      mset (map (\<lambda>m. Announce_IB_Mem (mem_me m) (mem_kind m) (uint (mem_size m)) (aq_reg_base q m)) (present (ib_memories (my_node rt)))) +
      mset (map Announce_PMA (filter (\<lambda>a. fst a \<in> proc_me ` set (present (processors (my_node rt)))) pl)) +
      mset (map Announce_MMA (filter (\<lambda>a. fst a \<in> mem_me ` set (present (memories (my_node rt))) \<and>
        aq_address_space q (fst (snd a)) = my_node_id rt) ml)) +
      mset (map Announce_Channel (present (aq_channels q))) + {#Announce_Done#}"
    by (simp only: announcement_def Let_def announce_procs_def announce_memories_def mset_append mset_map mset.simps a add.assoc empty_neutral)
qed

text \<open>
  Example: node 1 of four with two linked memories and one channel, and a serialiser that collects the
  fields.
\<close>

definition demo_query :: "nat announce_query" where
  "demo_query = \<lparr>aq_num_cores = (\<lambda>_. 1), aq_reg_base = (\<lambda>_. 0),
     aq_proc_mem = (\<lambda>p. filter (\<lambda>a. fst a = p) []),
     aq_mem_mem = (\<lambda>m. filter (\<lambda>a. fst a = m \<or> fst (snd a) = m) [(ID_memory 1 0, ID_memory 1 1, 15, 50)]),
     aq_address_space = owner, aq_channels = [Some 4, None]\<rparr>"

definition demo_two_memories :: RuntimeImpl where
  "demo_two_memories = projr (obind (create_memory SYSTEM_MEM 64 (RuntimeImpl_init 1 3 8 12)) (create_memory FILE_MEM 32))"

theorem announcement_complete_witness:
  "\<exists>items. announce_node (\<lambda>f b. (True, b @ [f])) [] demo_query demo_two_memories =
      Inr (map (\<lambda>i. (i, 0, 2, 0, fold (\<lambda>f b. b @ [f]) (concat (map fields_of items)) [])) [0, 2, 3]) \<and>
    mset items = {#Announce_Mem (ID_memory 1 0) SYSTEM_MEM 64 0, Announce_Mem (ID_memory 1 1) FILE_MEM 32 0,
      Announce_MMA (ID_memory 1 0, ID_memory 1 1, 15, 50), Announce_Channel 4, Announce_Done#}"
proof -
  let ?rt = demo_two_memories
  have v: "machine_view demo_query [] [(ID_memory 1 0, ID_memory 1 1, 15, 50)]"
    by (simp add: machine_view_def demo_query_def)
  have rt: "my_node_id ?rt = 1" "max_node_id ?rt = 3" "processors (nodes ?rt 1) = []" "ib_memories (nodes ?rt 1) = []"
    "memories (nodes ?rt 1) = [Some \<lparr>mem_me = ID_memory 1 0, mem_kind = SYSTEM_MEM, mem_size = 64\<rparr>,
       Some \<lparr>mem_me = ID_memory 1 1, mem_kind = FILE_MEM, mem_size = 32\<rparr>]"
    "num_local_memories ?rt = 2" "num_local_ib_memories ?rt = 0" "num_local_processors ?rt = 0"
    by (simp_all add: demo_two_memories_def create_memory_def next_local_memory_id_def add_memory_def RuntimeImpl_init_def)
  have ok: "rt_ok ?rt" unfolding rt_ok_def rt numbered_def by (auto simp: less_2_cases_iff)
  have n: "filter (\<lambda>i. i \<noteq> Suc 0) [0 ..< 4] = [0, 2, 3 :: nat]" by (simp add: upt_rec)
  have q: "aq_address_space demo_query = owner" "aq_channels demo_query = [Some 4, None]" "aq_reg_base demo_query = (\<lambda>_. 0)"
    by (simp_all add: demo_query_def)
  from announcement_complete [of "\<lambda>f b. (True, b @ [f])", OF _ v ok, of "[]"] obtain items where
    i: "announce_node (\<lambda>f b. (True, b @ [f])) [] demo_query ?rt =
      Inr (map (\<lambda>i. (i, 0, 2, 0, fold (\<lambda>f b. b @ [f]) (concat (map fields_of items)) [])) [0, 2, 3])"
    "mset items = {#Announce_Mem (ID_memory 1 0) SYSTEM_MEM 64 0, Announce_Mem (ID_memory 1 1) FILE_MEM 32 0,
      Announce_MMA (ID_memory 1 0, ID_memory 1 1, 15, 50), Announce_Channel 4, Announce_Done#}"
    unfolding rt q by (auto simp: comp_def n)
  then show ?thesis by blast
qed

end
