(* ===== verification/Configuration.thy ===== *)
theory Configuration
  imports Message_Handlers Announcements Environment
begin

text \<open>
  \<^verbatim>\<open>RuntimeImpl::configure_from_command_line\<close> as a whole (\<^verbatim>\<open>src/templates/runtime_impl.cc\<close>), composed of the
  parts modelled elsewhere: options are parsed, the message handlers are registered, the message
  layer is set up, what is left of the command line is checked, signal handlers are installed, memories and processors are created,
  affinities added and the node is announced.  The allocator of remote identifiers makes no
  requests at this point, since no batch sizes are set.  The command-line parser, the loggers, modules and
  profiler that take their options, the thread and core management and the machine model are not in
  the repository; they are the fields of \<open>config_args\<close>.  The enumeration of message numbers is that of
  \<^verbatim>\<open>activemsg.h\<close>.
\<close>

section \<open>Message numbers and handlers\<close>

definition FIRST_AVAILABLE :: nat where "FIRST_AVAILABLE = 140"

definition ActiveMessageIDs :: "string list" where
  "ActiveMessageIDs = [
    ''FIRST_AVAILABLE'', ''NODE_ANNOUNCE_MSGID'', ''SPAWN_TASK_MSGID'', ''LOCK_REQUEST_MSGID'',
    ''LOCK_RELEASE_MSGID'', ''LOCK_GRANT_MSGID'', ''EVENT_SUBSCRIBE_MSGID'', ''EVENT_TRIGGER_MSGID'',
    ''EVENT_UPDATE_MSGID'', ''REMOTE_MALLOC_MSGID'', ''REMOTE_MALLOC_RPLID'', ''CREATE_ALLOC_MSGID'',
    ''CREATE_ALLOC_RPLID'', ''CREATE_INST_MSGID'', ''CREATE_INST_RPLID'', ''VALID_MASK_REQ_MSGID'',
    ''VALID_MASK_DATA_MSGID'', ''VALID_MASK_FTH_MSGID'', ''ROLL_UP_TIMER_MSGID'', ''ROLL_UP_DATA_MSGID'',
    ''CLEAR_TIMER_MSGID'', ''DESTROY_INST_MSGID'', ''REMOTE_WRITE_MSGID'', ''REMOTE_REDUCE_MSGID'',
    ''REMOTE_SERDEZ_MSGID'', ''REMOTE_WRITE_FENCE_MSGID'', ''REMOTE_WRITE_FENCE_ACK_MSGID'',
    ''DESTROY_LOCK_MSGID'', ''REMOTE_REDLIST_MSGID'', ''MACHINE_SHUTDOWN_MSGID'', ''BARRIER_ADJUST_MSGID'',
    ''BARRIER_SUBSCRIBE_MSGID'', ''BARRIER_TRIGGER_MSGID'', ''BARRIER_MIGRATE_MSGID'', ''METADATA_REQUEST_MSGID'',
    ''METADATA_RESPONSE_MSGID'', ''METADATA_INVALIDATE_MSGID'', ''METADATA_INVALIDATE_ACK_MSGID'',
    ''XFERDES_REMOTEWRITE_MSGID'', ''XFERDES_REMOTEWRITE_ACK_MSGID'', ''XFERDES_CREATE_MSGID'',
    ''XFERDES_DESTROY_MSGID'', ''XFERDES_NOTIFY_COMPLETION_MSGID'', ''XFERDES_UPDATE_BYTES_WRITE_MSGID'',
    ''XFERDES_UPDATE_BYTES_READ_MSGID'', ''REGISTER_TASK_MSGID'', ''REGISTER_TASK_COMPLETE_MSGID'',
    ''REMOTE_MICROOP_MSGID'', ''REMOTE_MICROOP_COMPLETE_MSGID'', ''REMOTE_SPARSITY_CONTRIB_MSGID'',
    ''REMOTE_SPARSITY_REQUEST_MSGID'', ''APPROX_IMAGE_RESPONSE_MSGID'', ''SET_CONTRIB_COUNT_MSGID'',
    ''REMOTE_ID_REQUEST_MSGID'', ''REMOTE_ID_RESPONSE_MSGID'', ''REMOTE_IB_ALLOC_REQUEST_MSGID'',
    ''REMOTE_IB_ALLOC_RESPONSE_MSGID'', ''REMOTE_IB_FREE_REQUEST_MSGID'', ''REMOTE_COPY_MSGID'',
    ''REMOTE_FILL_MSGID'', ''MEM_STORAGE_ALLOC_REQ_MSGID'', ''MEM_STORAGE_ALLOC_RESP_MSGID'',
    ''MEM_STORAGE_RELEASE_REQ_MSGID'', ''MEM_STORAGE_RELEASE_RESP_MSGID'']"

definition msgid_of :: "string \<Rightarrow> nat" where
  "msgid_of name = FIRST_AVAILABLE + length (takeWhile (\<lambda>s. s \<noteq> name) ActiveMessageIDs)"

text \<open>The classes in the order of their registration; most of them are not in the repository.\<close>

definition registered_messages :: "string list" where
  "registered_messages = [
    ''NodeAnnounceMessage'', ''SpawnTaskMessage'', ''LockRequestMessage'', ''LockReleaseMessage'',
    ''LockGrantMessage'', ''EventSubscribeMessage'', ''EventTriggerMessage'', ''EventUpdateMessage'',
    ''RemoteMemAllocRequest::Request'', ''RemoteMemAllocRequest::Response'', ''RemoteCopyMessage'',
    ''RemoteFillMessage'', ''RemoteWriteMessage'', ''RemoteReduceMessage'', ''RemoteSerdezMessage'',
    ''RemoteWriteFenceMessage'', ''RemoteWriteFenceAckMessage'', ''DestroyLockMessage'',
    ''RemoteReduceListMessage'', ''RuntimeShutdownMessage'', ''BarrierAdjustMessage'',
    ''BarrierSubscribeMessage'', ''BarrierTriggerMessage'', ''BarrierMigrationMessage'',
    ''MetadataRequestMessage'', ''MetadataResponseMessage'', ''MetadataInvalidateMessage'',
    ''MetadataInvalidateAckMessage'', ''XferDesRemoteWriteMessage'', ''XferDesRemoteWriteAckMessage'',
    ''XferDesCreateMessage'', ''XferDesDestroyMessage'', ''NotifyXferDesCompleteMessage'',
    ''UpdateBytesWriteMessage'', ''UpdateBytesReadMessage'', ''RegisterTaskMessage'',
    ''RegisterTaskCompleteMessage'', ''RemoteMicroOpMessage'', ''RemoteMicroOpCompleteMessage'',
    ''RemoteSparsityContribMessage'', ''RemoteSparsityRequestMessage'', ''ApproxImageResponseMessage'',
    ''SetContribCountMessage'', ''RemoteIDRequestMessage'', ''RemoteIDResponseMessage'',
    ''RemoteIBAllocRequestAsync'', ''RemoteIBAllocResponseAsync'', ''RemoteIBFreeRequestAsync'',
    ''MemStorageAllocRequest'', ''MemStorageAllocResponse'', ''MemStorageReleaseRequest'',
    ''MemStorageReleaseResponse'', ''CancelOperationMessage'']"

fun register_all :: "(string \<Rightarrow> message_class) \<Rightarrow> string list \<Rightarrow> nat list \<Rightarrow> nat list outcome" where
  "register_all classes [] handlers = Inr handlers"
| "register_all classes (c # cs) handlers =
     obind (add_handler_entries handlers (classes c)) (register_all classes cs)"

section \<open>Options\<close>

text \<open>
  A parser gets the names of its options, each with a mark whether it stays on the command line, and
  the command line; it gives back whether all went well, the options found with their values, in
  order, and what is left.
\<close>

type_synonym parser = "(string \<times> bool) list \<Rightarrow> string list \<Rightarrow> bool \<times> (string \<times> nat) list \<times> string list"

definition core_options :: "(string \<times> bool) list" where
  "core_options = [(''-ll:cpu'', False), (''-ll:util'', False), (''-ll:io'', False), (''-ll:concurrent_io'', False),
     (''-ll:csize'', False), (''-ll:stacksize'', True), (''-ll:pin_util'', False)]"

definition set_core_option :: "string \<times> nat \<Rightarrow> CoreModule \<Rightarrow> CoreModule" where
  "set_core_option b cm =
     (let (nm, v) = b in
      if nm = ''-ll:cpu'' then cm\<lparr>num_cpu_procs := v\<rparr>
      else if nm = ''-ll:util'' then cm\<lparr>num_util_procs := v\<rparr>
      else if nm = ''-ll:io'' then cm\<lparr>num_io_procs := v\<rparr>
      else if nm = ''-ll:concurrent_io'' then cm\<lparr>concurrent_io_threads := v\<rparr>
      else if nm = ''-ll:csize'' then cm\<lparr>sysmem_size_in_mb := of_nat v\<rparr>
      else if nm = ''-ll:stacksize'' then cm\<lparr>core_stack_size_in_mb := of_nat v\<rparr>
      else if nm = ''-ll:pin_util'' then cm\<lparr>pin_util_procs := (v \<noteq> 0)\<rparr>
      else cm)"

text \<open>The result of the parser is not looked at here.\<close>

definition create_core_module :: "parser \<Rightarrow> string list \<Rightarrow> CoreModule \<times> string list" where
  "create_core_module parse cmdline =
     (let (ok, bs, rest) = parse core_options cmdline in (fold set_core_option bs CoreModule_construct, rest))"

record runtime_options =
  ro_gsize :: size_t
  ro_rsize :: size_t
  ro_ib_rsize :: size_t
  ro_dsize :: size_t
  ro_stacksize :: size_t
  ro_dma :: nat
  ro_pin_dma :: bool
  ro_amsg :: nat
  ro_ahandlers :: nat
  ro_dummy_rsrv_ok :: bool
  ro_show_rsrv :: bool
  ro_ht_sharing :: bool
  ro_force_kthreads :: bool
  ro_frsrv_fallback :: bool

definition default_runtime_options :: runtime_options where
  "default_runtime_options =
     \<lparr>ro_gsize = 256, ro_rsize = 0, ro_ib_rsize = 256, ro_dsize = 0, ro_stacksize = 2, ro_dma = 1, ro_pin_dma = False,
      ro_amsg = 1, ro_ahandlers = 1, ro_dummy_rsrv_ok = True, ro_show_rsrv = False, ro_ht_sharing = True,
      ro_force_kthreads = False, ro_frsrv_fallback = False\<rparr>"

definition runtime_option_names :: "(string \<times> bool) list" where
  "runtime_option_names = map (\<lambda>nm. (nm, False))
     [''-ll:gsize'', ''-ll:rsize'', ''-ll:ib_rsize'', ''-ll:dsize'', ''-ll:stacksize'', ''-ll:dma'', ''-ll:pin_dma'',
      ''-ll:amsg'', ''-ll:ahandlers'', ''-ll:dummy_rsrv_ok'', ''-ll:show_rsrv'', ''-ll:ht_sharing'', ''-ll:eventtrace'',
      ''-ll:locktrace'', ''-ll:prefix'', ''-realm:eventloopcheck'', ''-ll:force_kthreads'', ''-ll:frsrv_fallback'',
      ''-ll:machine_query_cache'']"

definition set_runtime_option :: "string \<times> nat \<Rightarrow> runtime_options \<Rightarrow> runtime_options" where
  "set_runtime_option b op =
     (let (nm, v) = b in
      if nm = ''-ll:gsize'' then op\<lparr>ro_gsize := of_nat v\<rparr>
      else if nm = ''-ll:rsize'' then op\<lparr>ro_rsize := of_nat v\<rparr>
      else if nm = ''-ll:ib_rsize'' then op\<lparr>ro_ib_rsize := of_nat v\<rparr>
      else if nm = ''-ll:dsize'' then op\<lparr>ro_dsize := of_nat v\<rparr>
      else if nm = ''-ll:stacksize'' then op\<lparr>ro_stacksize := of_nat v\<rparr>
      else if nm = ''-ll:dma'' then op\<lparr>ro_dma := v\<rparr>
      else if nm = ''-ll:pin_dma'' then op\<lparr>ro_pin_dma := (v \<noteq> 0)\<rparr>
      else if nm = ''-ll:amsg'' then op\<lparr>ro_amsg := v\<rparr>
      else if nm = ''-ll:ahandlers'' then op\<lparr>ro_ahandlers := v\<rparr>
      else if nm = ''-ll:dummy_rsrv_ok'' then op\<lparr>ro_dummy_rsrv_ok := (v \<noteq> 0)\<rparr>
      else if nm = ''-ll:show_rsrv'' then op\<lparr>ro_show_rsrv := (v \<noteq> 0)\<rparr>
      else if nm = ''-ll:ht_sharing'' then op\<lparr>ro_ht_sharing := (v \<noteq> 0)\<rparr>
      else if nm = ''-ll:force_kthreads'' then op\<lparr>ro_force_kthreads := (v \<noteq> 0)\<rparr>
      else if nm = ''-ll:frsrv_fallback'' then op\<lparr>ro_frsrv_fallback := (v \<noteq> 0)\<rparr>
      else op)"

definition am_option_names :: "(string \<times> bool) list" where
  "am_option_names = map (\<lambda>nm. (nm, False))
     [''-ll:numlmbs'', ''-ll:lmbsize'', ''-ll:forcelong'', ''-ll:sdpsize'', ''-ll:maxsend'', ''-ll:spillwarn'',
      ''-ll:spillstep'', ''-ll:spillstall'']"

section \<open>Configuration\<close>

record ('m, 'c, 'b) config_args =
  ca_threading_ok :: bool
  ca_loggers :: "string list \<Rightarrow> string list"
  ca_modules :: "string list \<Rightarrow> string list"
  ca_profiler :: "string list \<Rightarrow> string list"
  ca_parse :: parser
  ca_classes :: "string \<Rightarrow> message_class"
  ca_MAX_NODE_ID :: node_id
  ca_seg_addr :: size_t
  ca_seg_size :: size_t
  ca_env :: environment
  ca_actions :: actions
  ca_mem_bits :: nat
  ca_proc_bits :: nat
  ca_file_mem_size :: size_t
  ca_cores_ok :: "bool \<Rightarrow> bool"
  ca_proc_mem :: "(ID, 'm) machine_ops"
  ca_mem_mem :: "(ID, 'm) machine_ops"
  ca_machine :: 'm
  ca_query :: "'m \<Rightarrow> 'c announce_query"
  ca_put :: "'c field \<Rightarrow> 'b \<Rightarrow> bool \<times> 'b"
  ca_buffer :: 'b

record ('m, 'b) configured =
  cf_options :: runtime_options
  cf_core :: CoreModule
  cf_setup :: am_setup
  cf_cmdline :: "string list"
  cf_actions :: actions
  cf_alarm :: "int option"
  cf_runtime :: RuntimeImpl
  cf_machine :: 'm
  cf_announced :: "(node_id \<times> nat \<times> nat \<times> nat \<times> 'b) list"

text \<open>A size in megabytes as the \<^verbatim>\<open>int\<close> that \<^verbatim>\<open>init_endpoints\<close> takes.\<close>

definition as_int :: "size_t \<Rightarrow> int" where
  "as_int w = sint (ucast w :: 32 word)"

definition memory_sizes :: "runtime_options \<Rightarrow> size_t \<Rightarrow> mem_options" where
  "memory_sizes op file_size =
     \<lparr>gasnet_mem_size_in_mb = ro_gsize op, reg_mem_size_in_mb = ro_rsize op, reg_ib_mem_size_in_mb = ro_ib_rsize op,
      disk_mem_size_in_mb = ro_dsize op, file_mem_size = file_size\<rparr>"

text \<open>The first half: everything that reads the command line.\<close>

definition configure_options ::
  "('m, 'c, 'b) config_args \<Rightarrow> node_id \<Rightarrow> string list \<Rightarrow> (runtime_options \<times> CoreModule \<times> am_setup \<times> string list) outcome" where
  "configure_options ca mx cmdline =
     (if \<not> ca_threading_ok ca then Inl (Exit_Process 1)
      else
        let (cm, cl1) = create_core_module (ca_parse ca) (ca_loggers ca cmdline);
            (ok, bs, cl2) = ca_parse ca runtime_option_names (ca_modules ca cl1);
            op = fold set_runtime_option bs default_runtime_options
        in if \<not> ok then Inl (Exit_Process 1)
           else if mx > ca_MAX_NODE_ID ca then Inl (Exit_Process 1)
           else
             obind (register_all (ca_classes ca) registered_messages []) (\<lambda>hs.
             let (ok2, aopts, cl3) = ca_parse ca am_option_names (ca_profiler ca cl2)
             in obind (cassert ok2) (\<lambda>_.
                obind (init_endpoints aopts (mx + 1) (ca_seg_addr ca) (ca_seg_size ca) (as_int (ro_gsize op)) (as_int (ro_rsize op))
                         (as_int (ro_ib_rsize op)) hs) (\<lambda>su.
                obind (check_leftover cl3) (\<lambda>_. Inr (op, cm, su, cl3))))))"

definition configure_from_command_line ::
  "('m, 'c, 'b) config_args \<Rightarrow> node_id \<Rightarrow> node_id \<Rightarrow> string list \<Rightarrow> ('m, 'b) configured outcome" where
  "configure_from_command_line ca my mx cmdline =
     obind (configure_options ca mx cmdline) (\<lambda>(op, cm, su, rest).
     obind (setup_signals my (ca_env ca) (ca_actions ca)) (\<lambda>(acts, alarm).
     obind (create_resources (memory_sizes op (ca_file_mem_size ca)) cm
              (RuntimeImpl_init my mx (ca_mem_bits ca) (ca_proc_bits ca))) (\<lambda>rt.
     obind (if ca_cores_ok ca (ro_dummy_rsrv_ok op) then Inr () else Inl (Exit_Process 1)) (\<lambda>_.
       let mc = add_local_affinities rt (ca_proc_mem ca) (ca_mem_mem ca) (ca_machine ca)
       in obind (announce_node (ca_put ca) (ca_buffer ca) (ca_query ca mc) rt) (\<lambda>msgs.
            Inr \<lparr>cf_options = op, cf_core = cm, cf_setup = su, cf_cmdline = rest, cf_actions = acts, cf_alarm = alarm,
                 cf_runtime = rt, cf_machine = mc, cf_announced = msgs\<rparr>)))))"

section \<open>Lemmas\<close>

lemma ActiveMessageIDs_distinct: "distinct ActiveMessageIDs" "length ActiveMessageIDs = 64"
  by code_simp+

lemma registered_distinct: "distinct registered_messages" "length registered_messages = 53"
  by code_simp+

lemma takeWhile_neq_index:
  assumes "distinct xs" and "i < length xs"
  shows "length (takeWhile (\<lambda>s. s \<noteq> xs ! i) xs) = i"
  using assms by (induction xs arbitrary: i) (auto simp: nth_Cons split: nat.splits)

lemma msgid_nth: "i < 64 \<Longrightarrow> msgid_of (ActiveMessageIDs ! i) = 140 + i"
  by (simp add: msgid_of_def FIRST_AVAILABLE_def takeWhile_neq_index ActiveMessageIDs_distinct)

lemma msgid_range: "nm \<in> set ActiveMessageIDs \<Longrightarrow> msgid_of nm \<in> {140 ..< 204}"
  by (auto simp: in_set_conv_nth ActiveMessageIDs_distinct msgid_nth)

lemma msgid_inj: "inj_on msgid_of (set ActiveMessageIDs)"
  by (rule inj_onI) (auto simp: in_set_conv_nth ActiveMessageIDs_distinct msgid_nth)

lemma raw_args_bound: "4 * raw_args mc \<le> 64 \<longleftrightarrow> mc_sizeof mc \<le> 64"
proof
  assume "mc_sizeof mc \<le> 64"
  then have "(max (mc_sizeof mc) 8 + 7) div 8 \<le> 8" by (simp add: less_mult_imp_div_less div_le_mono [of _ 71 8, simplified])
  then show "4 * raw_args mc \<le> 64" by (simp add: raw_args_def sizeof_AtLeastEightBytes_def div_le_mono [of _ 67 4, simplified])
qed (auto simp: raw_args_def sizeof_AtLeastEightBytes_def)

lemma register_all_iff:
  "register_all classes cs hs = Inr hs' \<longleftrightarrow>
     (\<forall>c \<in> set cs. mc_sizeof (classes c) \<le> 64) \<and> (cs = [] \<or> length hs + length cs \<le> MAX_HANDLERS) \<and>
     hs' = hs @ map (\<lambda>c. mc_msgid (classes c)) cs"
proof (induction cs arbitrary: hs)
  case (Cons c cs)
  then show ?case by (cases cs) (auto simp: obind_Inr_iff add_handler_entries_def add_handler_entry_def raw_args_bound)
qed auto

lemma as_int_small:
  assumes "unat w < 2048"
  shows "as_int w = int (unat w)"
proof -
  have "(ucast w :: 32 word) = of_nat (unat w)" by simp
  then show ?thesis unfolding as_int_def using sint_of_nat_32 [of "unat w"] assms by simp
qed

lemma announced_nodes:
  assumes "announce_node put dbs0 q rt = Inr msgs"
  shows "map fst msgs = filter (\<lambda>i. i \<noteq> my_node_id rt) [0 ..< max_node_id rt + 1]"
  using assms by (auto simp: announce_node_def Let_def comp_def obind_Inr_iff split: prod.splits simp del: upt_Suc)

lemma announce_node_ok:
  assumes "\<And>f b. fst (put f b)"
  shows "\<exists>msgs. announce_node put dbs0 q rt = Inr msgs"
  by (simp add: announce_node_def write_fields_all [OF assms] Let_def del: upt_Suc)

lemma check_leftover_iff: "check_leftover cl = Inr u \<longleftrightarrow> (\<forall>s \<in> set cl. take 4 s \<noteq> ''-ll:'')"
  by (simp add: check_leftover_def)

lemma init_endpoints_handlers:
  "init_endpoints opts k saddr ssize g r ib hs = Inr su \<Longrightarrow>
     su_handlers su = hs @ [MSGID_FLIP_REQ, MSGID_FLIP_ACK, MSGID_RELEASE_SRCPTR]"
  by (auto simp: init_endpoints_def Let_def split: if_splits)

text \<open>What is known after the first half.\<close>

lemma configure_options_checked:
  assumes "configure_options ca mx cl = Inr (op, cm, su, rest)"
  shows "mx \<le> ca_MAX_NODE_ID ca" "\<forall>s \<in> set rest. take 4 s \<noteq> ''-ll:''"
    "\<forall>c \<in> set registered_messages. mc_sizeof (ca_classes ca c) \<le> 64"
    "su_handlers su = map (\<lambda>c. mc_msgid (ca_classes ca c)) registered_messages @ [MSGID_FLIP_REQ, MSGID_FLIP_ACK, MSGID_RELEASE_SRCPTR]"
  using assms
  by (auto simp: configure_options_def Let_def obind_Inr_iff register_all_iff check_leftover_iff split: prod.splits if_splits
      dest: init_endpoints_handlers)

lemma configured_parts:
  assumes "configure_from_command_line ca my mx cl = Inr cf"
  shows "configure_options ca mx cl = Inr (cf_options cf, cf_core cf, cf_setup cf, cf_cmdline cf)"
    "map fst (cf_announced cf) = filter (\<lambda>i. i \<noteq> my) [0 ..< mx + 1]"
proof -
  from assms obtain rt where cf: "configure_options ca mx cl = Inr (cf_options cf, cf_core cf, cf_setup cf, cf_cmdline cf)"
    "create_resources (memory_sizes (cf_options cf) (ca_file_mem_size ca)) (cf_core cf)
       (RuntimeImpl_init my mx (ca_mem_bits ca) (ca_proc_bits ca)) = Inr rt"
    "announce_node (ca_put ca) (ca_buffer ca)
       (ca_query ca (add_local_affinities rt (ca_proc_mem ca) (ca_mem_mem ca) (ca_machine ca))) rt = Inr (cf_announced cf)"
    by (auto simp: configure_from_command_line_def Let_def obind_Inr_iff)
  show "configure_options ca mx cl = Inr (cf_options cf, cf_core cf, cf_setup cf, cf_cmdline cf)" by (rule cf(1))
  have "my_node_id rt = my" "max_node_id rt = mx" using create_resources_same_node [OF cf(2)] by (simp_all add: RuntimeImpl_init_def)
  with announced_nodes [OF cf(3)] show "map fst (cf_announced cf) = filter (\<lambda>i. i \<noteq> my) [0 ..< mx + 1]" by simp
qed

text \<open>The whole of the configuration, when everything is in order.\<close>

lemma configuration_succeeds:
  assumes "ca_threading_ok ca" and "create_core_module (ca_parse ca) (ca_loggers ca cl) = (cm, cl1)"
    and "ca_parse ca runtime_option_names (ca_modules ca cl1) = (True, bs, cl2)"
    and "ca_parse ca am_option_names (ca_profiler ca cl2) = (True, aopts, rest)"
    and "op = fold set_runtime_option bs default_runtime_options"
    and "\<forall>s \<in> set rest. take 4 s \<noteq> ''-ll:''"
    and "mx \<le> ca_MAX_NODE_ID ca" and "2 \<le> ca_mem_bits ca"
    and "num_util_procs cm + num_io_procs cm + num_cpu_procs cm \<le> 2 ^ ca_proc_bits ca"
    and "\<forall>c \<in> set registered_messages. mc_sizeof (ca_classes ca c) \<le> 64"
    and "unat (ro_gsize op) < 2048" and "unat (ro_rsize op) < 2048" and "unat (ro_ib_rsize op) < 2048"
    and "unat (ca_seg_addr ca) + unat (ca_seg_size ca) < 2 ^ 64"
    and "(unat (ro_gsize op) + unat (ro_rsize op) + unat (ro_ib_rsize op)) * 2 ^ 20 +
      unat (push_bit 20 (opt_sdpsize_in_mb (parse_options aopts))) +
      (mx + 1) * opt_num_lmbs (parse_options aopts) * unat (lmb_bytes (parse_options aopts)) \<le> unat (ca_seg_size ca)"
    and "ca_cores_ok ca (ro_dummy_rsrv_ok op)" and "\<And>f b. fst (ca_put ca f b)"
    and "\<And>e. ca_env ca ''REALM_SHOW_EVENT_WAITERS'' = Some e \<Longrightarrow> \<exists>d. show_event_delay my e = Inr d"
  shows "\<exists>cf. configure_from_command_line ca my mx cl = Inr cf \<and> cf_options cf = op \<and> cf_core cf = cm \<and> cf_cmdline cf = rest \<and>
    rt_ok (cf_runtime cf) \<and>
    length (processors (my_node (cf_runtime cf))) = num_util_procs cm + num_io_procs cm + num_cpu_procs cm \<and>
    map fst (cf_announced cf) = filter (\<lambda>i. i \<noteq> my) [0 ..< mx + 1]"
proof -
  let ?hs = "map (\<lambda>c. mc_msgid (ca_classes ca c)) registered_messages"
  let ?rt = "RuntimeImpl_init my mx (ca_mem_bits ca) (ca_proc_bits ca)"
  have hs: "register_all (ca_classes ca) registered_messages [] = Inr ?hs"
    using assms(10) by (simp add: register_all_iff registered_distinct MAX_HANDLERS_def)
  have "\<exists>su. init_endpoints aopts (mx + 1) (ca_seg_addr ca) (ca_seg_size ca) (as_int (ro_gsize op)) (as_int (ro_rsize op))
      (as_int (ro_ib_rsize op)) ?hs = Inr su \<and> su_handlers su = ?hs @ [MSGID_FLIP_REQ, MSGID_FLIP_ACK, MSGID_RELEASE_SRCPTR]"
    using assms(11-15) by (intro init_endpoints_ok) (simp_all only: as_int_small length_map registered_distinct MAX_HANDLERS_def nat_int)
  then obtain su where su: "init_endpoints aopts (mx + 1) (ca_seg_addr ca) (ca_seg_size ca) (as_int (ro_gsize op)) (as_int (ro_rsize op))
      (as_int (ro_ib_rsize op)) ?hs = Inr su" by blast
  have lo: "check_leftover rest = Inr ()" using assms(6) by (simp add: check_leftover_iff)
  have first: "configure_options ca mx cl = Inr (op, cm, su, rest)"
    using assms(1,7) by (simp add: configure_options_def Let_def assms(2-4) assms(5) [symmetric] hs su [simplified] lo)
  have "(2::nat) ^ 2 \<le> 2 ^ ca_mem_bits ca" using assms(8) by (intro power_increasing) simp_all
  then have "num_local_memories ?rt + 4 \<le> 2 ^ mem_bits ?rt" "num_local_ib_memories ?rt < 2 ^ mem_bits ?rt"
    by (simp_all add: RuntimeImpl_init_def)
  from create_resources_ok [OF rt_ok_init this, of cm "memory_sizes op (ca_file_mem_size ca)"] assms(9) obtain rt where
    rt: "create_resources (memory_sizes op (ca_file_mem_size ca)) cm ?rt = Inr rt" "rt_ok rt" "my_node_id rt = my" "max_node_id rt = mx"
      "num_local_processors rt = num_util_procs cm + num_io_procs cm + num_cpu_procs cm" by (auto simp: RuntimeImpl_init_def)
  obtain acts alarm where sig: "setup_signals my (ca_env ca) (ca_actions ca) = Inr (acts, alarm)"
    using assms(18) by (cases "ca_env ca ''REALM_SHOW_EVENT_WAITERS''") (auto simp: setup_signals_def Let_def)
  obtain msgs where msgs: "announce_node (ca_put ca) (ca_buffer ca)
      (ca_query ca (add_local_affinities rt (ca_proc_mem ca) (ca_mem_mem ca) (ca_machine ca))) rt = Inr msgs"
    using announce_node_ok [of "ca_put ca", OF assms(17)] by blast
  have "length (processors (my_node rt)) = num_util_procs cm + num_io_procs cm + num_cpu_procs cm"
    using rt(2,5) by (simp add: rt_ok_def numbered_def)
  then show ?thesis
    using announced_nodes [OF msgs] rt assms(16) by (simp add: configure_from_command_line_def first sig msgs Let_def del: upt_Suc)
qed

section \<open>Properties\<close>

text \<open>
  C21. A node whose configuration is in order comes up.  Whatever the command line: when the options
  parse, no unknown low-level option is left, the numbers of nodes, memories and processors fit the
  identifiers, every message class fits the arguments of a handler, and the memories, the source data pool
  and the message buffers fit the segment (each memory below 2048 megabytes), and the delay of an event dump is
  valid if one is asked for, no assertion of
  \<^verbatim>\<open>configure_from_command_line\<close> fails; the registry is numbered consistently, the processors asked for
  exist, the options have the values parsed last, and every other node gets one announcement.
\<close>

theorem configuration_complete:
  assumes "ca_threading_ok ca" and "create_core_module (ca_parse ca) (ca_loggers ca cl) = (cm, cl1)"
    and "ca_parse ca runtime_option_names (ca_modules ca cl1) = (True, bs, cl2)"
    and "ca_parse ca am_option_names (ca_profiler ca cl2) = (True, aopts, rest)"
    and "op = fold set_runtime_option bs default_runtime_options"
    and "\<forall>s \<in> set rest. take 4 s \<noteq> ''-ll:''"
    and "mx \<le> ca_MAX_NODE_ID ca" and "2 \<le> ca_mem_bits ca"
    and "num_util_procs cm + num_io_procs cm + num_cpu_procs cm \<le> 2 ^ ca_proc_bits ca"
    and "\<forall>c \<in> set registered_messages. mc_sizeof (ca_classes ca c) \<le> 64"
    and "unat (ro_gsize op) < 2048" and "unat (ro_rsize op) < 2048" and "unat (ro_ib_rsize op) < 2048"
    and "unat (ca_seg_addr ca) + unat (ca_seg_size ca) < 2 ^ 64"
    and "(unat (ro_gsize op) + unat (ro_rsize op) + unat (ro_ib_rsize op)) * 2 ^ 20 +
      unat (push_bit 20 (opt_sdpsize_in_mb (parse_options aopts))) +
      (mx + 1) * opt_num_lmbs (parse_options aopts) * unat (lmb_bytes (parse_options aopts)) \<le> unat (ca_seg_size ca)"
    and "ca_cores_ok ca (ro_dummy_rsrv_ok op)" and "\<And>f b. fst (ca_put ca f b)"
    and "\<And>e. ca_env ca ''REALM_SHOW_EVENT_WAITERS'' = Some e \<Longrightarrow> \<exists>d. show_event_delay my e = Inr d"
  shows "\<exists>cf. configure_from_command_line ca my mx cl = Inr cf \<and> cf_options cf = op \<and> cf_core cf = cm \<and> cf_cmdline cf = rest \<and>
    rt_ok (cf_runtime cf) \<and>
    length (processors (my_node (cf_runtime cf))) = num_util_procs cm + num_io_procs cm + num_cpu_procs cm \<and>
    map fst (cf_announced cf) = filter (\<lambda>i. i \<noteq> my) [0 ..< mx + 1]"
  by (rule configuration_succeeds [OF assms])

text \<open>
  Example: a parser that reads a number as the length of the next argument, a command line with one
  option and one argument of the application, and message classes numbered in the order of their
  registration.
\<close>

fun demo_parse :: parser where
  "demo_parse opts (nm # v # cl) =
     (if nm \<in> fst ` set opts then case demo_parse opts cl of (ok, bs, rest) \<Rightarrow> (ok, (nm, length v) # bs, rest)
      else case demo_parse opts (v # cl) of (ok, bs, rest) \<Rightarrow> (ok, bs, nm # rest))"
| "demo_parse opts cl = (True, [], cl)"

definition demo_name :: "string \<Rightarrow> string" where
  "demo_name c = ActiveMessageIDs ! (1 + length (takeWhile (\<lambda>s. s \<noteq> c) registered_messages))"

definition demo_args :: "((ID \<times> ID \<times> int \<times> int) list \<times> (ID \<times> ID \<times> int \<times> int) list, nat, nat field list) config_args" where
  "demo_args = \<lparr>ca_threading_ok = True, ca_loggers = (\<lambda>cl. cl), ca_modules = (\<lambda>cl. cl), ca_profiler = (\<lambda>cl. cl),
     ca_parse = demo_parse, ca_classes = (\<lambda>c. \<lparr>mc_msgid = msgid_of (demo_name c), mc_sizeof = 48\<rparr>), ca_MAX_NODE_ID = 1023,
     ca_seg_addr = 2 ^ 40, ca_seg_size = 2 ^ 30, ca_env = (\<lambda>_. None), ca_actions = (\<lambda>_. SIG_DFL),
     ca_mem_bits = 8, ca_proc_bits = 12, ca_file_mem_size = 0, ca_cores_ok = (\<lambda>_. True),
     ca_proc_mem = demo_pm, ca_mem_mem = demo_mm, ca_machine = ([], []),
     ca_query = (\<lambda>mc. \<lparr>aq_num_cores = (\<lambda>_. 1), aq_reg_base = (\<lambda>_. 0), aq_proc_mem = (\<lambda>p. filter (\<lambda>a. fst a = p) (fst mc)),
       aq_mem_mem = (\<lambda>m. filter (\<lambda>a. fst a = m \<or> fst (snd a) = m) (snd mc)), aq_address_space = owner, aq_channels = []\<rparr>),
     ca_put = (\<lambda>f b. (True, b @ [f])), ca_buffer = []\<rparr>"

definition demo_cmdline :: "string list" where
  "demo_cmdline = [''-ll:gsize'', ''1111'', ''input'']"

lemma demo_parsed:
  "create_core_module (ca_parse demo_args) (ca_loggers demo_args demo_cmdline) = (CoreModule_construct, demo_cmdline)"
  "ca_parse demo_args runtime_option_names (ca_modules demo_args demo_cmdline) = (True, [(''-ll:gsize'', 4)], [''input''])"
  "ca_parse demo_args am_option_names (ca_profiler demo_args [''input'']) = (True, [], [''input''])"
  by (simp_all add: create_core_module_def demo_args_def demo_cmdline_def core_options_def runtime_option_names_def)

lemmas demo_facts = demo_args_def default_runtime_options_def set_runtime_option_def CoreModule_construct_def parse_options_def
  default_options_def push_bit_eq_mult

theorem configuration_complete_witness:
  "\<exists>cf. configure_from_command_line demo_args 1 3 demo_cmdline = Inr cf \<and> ro_gsize (cf_options cf) = 4 \<and>
     cf_cmdline cf = [''input''] \<and> length (processors (my_node (cf_runtime cf))) = 2 \<and> map fst (cf_announced cf) = [0, 2, 3]"
proof -
  let ?op = "fold set_runtime_option [(''-ll:gsize'', 4)] default_runtime_options"
  have n: "filter (\<lambda>i. i \<noteq> 1) [0 ..< 3 + 1] = [0, 2, 3 :: nat]" by (simp add: upt_rec)
  have "\<exists>cf. configure_from_command_line demo_args 1 3 demo_cmdline = Inr cf \<and> cf_options cf = ?op \<and>
      cf_core cf = CoreModule_construct \<and> cf_cmdline cf = [''input''] \<and> rt_ok (cf_runtime cf) \<and>
      length (processors (my_node (cf_runtime cf))) =
        num_util_procs CoreModule_construct + num_io_procs CoreModule_construct + num_cpu_procs CoreModule_construct \<and>
      map fst (cf_announced cf) = filter (\<lambda>i. i \<noteq> 1) [0 ..< 3 + 1]"
    by (rule configuration_complete [OF _ demo_parsed refl]) (simp_all add: demo_facts)
  then show ?thesis
    unfolding n by (rule ex_forward) (simp add: set_runtime_option_def default_runtime_options_def CoreModule_construct_def)
qed


text \<open>Example: the node of the example above.\<close>

lemma in_set_tlD: "x \<in> set (tl xs) \<Longrightarrow> x \<in> set xs"
  by (cases xs) auto

lemma demo_configured: "\<exists>cf. configure_from_command_line demo_args 1 3 demo_cmdline = Inr cf"
proof -
  have "\<exists>cf. configure_from_command_line demo_args 1 3 demo_cmdline = Inr cf \<and>
      cf_options cf = fold set_runtime_option [(''-ll:gsize'', 4)] default_runtime_options \<and>
      cf_core cf = CoreModule_construct \<and> cf_cmdline cf = [''input''] \<and> rt_ok (cf_runtime cf) \<and>
      length (processors (my_node (cf_runtime cf))) =
        num_util_procs CoreModule_construct + num_io_procs CoreModule_construct + num_cpu_procs CoreModule_construct \<and>
      map fst (cf_announced cf) = filter (\<lambda>i. i \<noteq> 1) [0 ..< 3 + 1]"
    by (rule configuration_succeeds [OF _ demo_parsed refl]) (simp_all add: demo_facts)
  then show ?thesis by (rule ex_forward) (rule conjunct1)
qed

lemma demo_names: "map demo_name registered_messages = take 53 (tl ActiveMessageIDs)"
  by (rule nth_equalityI) (simp_all add: demo_name_def registered_distinct ActiveMessageIDs_distinct takeWhile_neq_index nth_tl)


end
