(* ===== verification/Runtime_Interface.thy ===== *)
theory Runtime_Interface
  imports Shutdown Configuration
begin

text \<open>
  The class \<^verbatim>\<open>Runtime\<close> the application uses (\<^verbatim>\<open>src/templates/runtime_impl.cc\<close>): its objects hold a pointer to
  the one \<^verbatim>\<open>RuntimeImpl\<close> of the process, which \<^verbatim>\<open>network_init\<close> creates and \<^verbatim>\<open>wait_for_shutdown\<close> deletes.
  The heap, the pointers and the static variables \<^verbatim>\<open>runtime_singleton\<close> and \<^verbatim>\<open>shutdown_count\<close> are explicit, so that
  a pointer to a deleted object is a value like any other and its use is undefined behaviour.
\<close>

section \<open>State\<close>

text \<open>
  A \<^verbatim>\<open>RuntimeImpl\<close>: the part that \<open>Shutdown\<close> works on, whose counter is loaded from the static
  variable, and the processors whose threads were started.
\<close>

record impl_object =
  io_node :: runtime_node
  io_started :: "nat list"

type_synonym impl_ptr = "nat option"

record process =
  ps_heap :: "nat \<Rightarrow> impl_object option"
  ps_next :: nat
  ps_singleton :: impl_ptr
  ps_shutdown_count :: "32 word"
  ps_impl :: "nat \<Rightarrow> impl_ptr"
  ps_deferred :: "(impl_ptr \<times> DeferredShutdown) list"

definition process_start :: process where
  "process_start = \<lparr>ps_heap = (\<lambda>_. None), ps_next = 0, ps_singleton = None, ps_shutdown_count = 0, ps_impl = (\<lambda>_. None),
     ps_deferred = []\<rparr>"

definition deref :: "process \<Rightarrow> impl_ptr \<Rightarrow> (nat \<times> impl_object) outcome" where
  "deref ps ptr =
     (case ptr of None \<Rightarrow> Inl Undefined_Behaviour
      | Some p \<Rightarrow> (case ps_heap ps p of None \<Rightarrow> Inl Undefined_Behaviour | Some io \<Rightarrow> Inr (p, io)))"

section \<open>Operations\<close>

definition Runtime_construct :: "nat \<Rightarrow> process \<Rightarrow> process" where
  "Runtime_construct h ps = ps\<lparr>ps_impl := (ps_impl ps)(h := None)\<rparr>"

definition Runtime_get_runtime :: "nat \<Rightarrow> process \<Rightarrow> process" where
  "Runtime_get_runtime h ps = ps\<lparr>ps_impl := (ps_impl ps)(h := ps_singleton ps)\<rparr>"

text \<open>\<open>net\<close> is \<^verbatim>\<open>RuntimeImpl::network_init\<close>, which may replace the command line.\<close>

definition Runtime_network_init ::
  "(string list \<Rightarrow> (bool \<times> string list) outcome) \<Rightarrow> nat \<Rightarrow> string list \<Rightarrow> process \<Rightarrow> (bool \<times> string list \<times> process) outcome" where
  "Runtime_network_init net h argv ps =
     (if ps_singleton ps \<noteq> None then Inr (False, argv, ps)
      else
        let p = ps_next ps;
            ps1 = ps\<lparr>ps_heap := (ps_heap ps)(p \<mapsto> \<lparr>io_node = RuntimeImpl_construct [], io_started = []\<rparr>), ps_next := p + 1,
                     ps_impl := (ps_impl ps)(h \<mapsto> p), ps_singleton := Some p\<rparr>
        in obind (net argv) (\<lambda>(ok, argv'). Inr (ok, argv', ps1)))"

text \<open>
  \<open>conf\<close> is \<^verbatim>\<open>RuntimeImpl::configure_from_command_line\<close>: its result, what is left of the vector it is given and
  the processors it created.  The caller's vector changes only when it asks for that.
\<close>

type_synonym configure_fun = "string list \<Rightarrow> (bool \<times> string list \<times> nat list) outcome"

definition impl_configure :: "('m, 'c, 'b) config_args \<Rightarrow> node_id \<Rightarrow> node_id \<Rightarrow> configure_fun" where
  "impl_configure ca my mx cmdline =
     obind (configure_from_command_line ca my mx cmdline) (\<lambda>cf.
       Inr (True, cf_cmdline cf, [0 ..< length (processors (my_node (cf_runtime cf)))]))"

definition Runtime_configure :: "configure_fun \<Rightarrow> nat \<Rightarrow> string list \<Rightarrow> bool \<Rightarrow> process \<Rightarrow> (bool \<times> string list \<times> process) outcome" where
  "Runtime_configure conf h cmdline remove_realm_args ps =
     obind (cassert (ps_impl ps h \<noteq> None)) (\<lambda>_.
     obind (deref ps (ps_impl ps h)) (\<lambda>(p, io).
     obind (conf cmdline) (\<lambda>(ok, rest, procs).
       Inr (ok, if remove_realm_args then rest else cmdline,
            ps\<lparr>ps_heap := (ps_heap ps)(p \<mapsto> io\<lparr>io_node := (io_node io)\<lparr>local_procs := procs\<rparr>\<rparr>)\<rparr>))))"

text \<open>The variant for the arguments of \<^verbatim>\<open>main\<close> copies all but the first into a vector.\<close>

definition Runtime_configure_argv :: "configure_fun \<Rightarrow> nat \<Rightarrow> string list \<Rightarrow> process \<Rightarrow> (bool \<times> process) outcome" where
  "Runtime_configure_argv conf h argv ps =
     obind (Runtime_configure conf h (tl argv) True ps) (\<lambda>(ok, _, ps'). Inr (ok, ps'))"

definition RuntimeImpl_start :: "impl_object \<Rightarrow> impl_object" where
  "RuntimeImpl_start io = io\<lparr>io_started := io_started io @ local_procs (io_node io)\<rparr>"

definition Runtime_start :: "nat \<Rightarrow> process \<Rightarrow> process outcome" where
  "Runtime_start h ps =
     obind (cassert (ps_impl ps h \<noteq> None)) (\<lambda>_.
     obind (deref ps (ps_impl ps h)) (\<lambda>(p, io). Inr (ps\<lparr>ps_heap := (ps_heap ps)(p \<mapsto> RuntimeImpl_start io)\<rparr>)))"

definition Runtime_init ::
  "(string list \<Rightarrow> (bool \<times> string list) outcome) \<Rightarrow> configure_fun \<Rightarrow> nat \<Rightarrow> string list \<Rightarrow> process \<Rightarrow>
     (bool \<times> string list \<times> process) outcome" where
  "Runtime_init net conf h argv ps =
     obind (Runtime_network_init net h argv ps) (\<lambda>(ok, argv1, ps1).
     if \<not> ok then Inr (False, argv1, ps1)
     else obind (Runtime_configure_argv conf h argv1 ps1) (\<lambda>(ok2, ps2).
       if \<not> ok2 then Inr (False, argv1, ps2)
       else obind (Runtime_start h ps2) (\<lambda>ps3. Inr (True, argv1, ps3))))"

text \<open>
  A shutdown reaches a \<^verbatim>\<open>RuntimeImpl\<close> by a request of the application, by the event a deferred request
  waits for, or by the message of another node; all three work on the static counter.
\<close>

definition with_count :: "process \<Rightarrow> impl_object \<Rightarrow> runtime_node" where
  "with_count ps io = (io_node io)\<lparr>shutdown_count := ps_shutdown_count ps\<rparr>"

definition store_node :: "nat \<Rightarrow> impl_object \<Rightarrow> runtime_node \<Rightarrow> process \<Rightarrow> process" where
  "store_node p io rt ps =
     ps\<lparr>ps_heap := (ps_heap ps)(p \<mapsto> io\<lparr>io_node := rt\<rparr>), ps_shutdown_count := shutdown_count rt\<rparr>"

definition Runtime_shutdown ::
  "node_id \<Rightarrow> node_id \<Rightarrow> nat \<Rightarrow> bool \<Rightarrow> int \<Rightarrow> process \<Rightarrow> (shutdown_message list \<times> process) outcome" where
  "Runtime_shutdown my mx h has_triggered result_code ps =
     (if has_triggered then
        obind (deref ps (ps_impl ps h)) (\<lambda>(p, io).
          let (rt, ms, _) = request_shutdown my mx (with_count ps io) True result_code in Inr (ms, store_node p io rt ps))
      else Inr ([], ps\<lparr>ps_deferred := ps_deferred ps @ [(ps_impl ps h, DeferredShutdown result_code)]\<rparr>))"

definition trigger_deferred :: "node_id \<Rightarrow> node_id \<Rightarrow> nat \<Rightarrow> process \<Rightarrow> (shutdown_message list \<times> process) outcome" where
  "trigger_deferred my mx i ps =
     (if i < length (ps_deferred ps) then
        let (ptr, d) = ps_deferred ps ! i
        in obind (deref ps ptr) (\<lambda>(p, io).
           obind (event_triggered my mx (with_count ps io) d False) (\<lambda>(rt, ms).
             Inr (ms, store_node p io rt (ps\<lparr>ps_deferred := without i (ps_deferred ps)\<rparr>))))
      else Inr ([], ps))"

definition receive_shutdown :: "node_id \<Rightarrow> node_id \<Rightarrow> shutdown_message \<Rightarrow> process \<Rightarrow> (shutdown_message list \<times> process) outcome" where
  "receive_shutdown my mx msg ps =
     obind (deref ps (ps_singleton ps)) (\<lambda>(p, io).
       let (rt, ms) = handle_shutdown_message my mx (with_count ps io) msg in Inr (ms, store_node p io rt ps))"

text \<open>\<open>None\<close> while it waits; \<open>others\<close> are the other nodes of the machine, for the barrier.\<close>

definition Runtime_wait_for_shutdown ::
  "node_id \<Rightarrow> node_id \<Rightarrow> (node_id \<Rightarrow> runtime_node) \<Rightarrow> bool \<Rightarrow> nat list \<Rightarrow> nat \<Rightarrow> process \<Rightarrow> (int \<times> process) outcome option" where
  "Runtime_wait_for_shutdown my mx others cleanup_ok modules h ps =
     (case deref ps (ps_impl ps h) of
        Inl e \<Rightarrow> Some (Inl e)
      | Inr (p, io) \<Rightarrow>
          (case wait_for_shutdown mx \<lparr>mc_nodes = others(my := io_node io), mc_net = [], mc_waiters = []\<rparr> cleanup_ok modules my of
             None \<Rightarrow> None
           | Some (Inl e) \<Rightarrow> Some (Inl e)
           | Some (Inr (_, result)) \<Rightarrow>
               Some (Inr (result, ps\<lparr>ps_heap := (ps_heap ps)(p := None), ps_impl := (ps_impl ps)(h := None), ps_singleton := None\<rparr>))))"

section \<open>Runs of a process\<close>

datatype runtime_call =
    Construct nat
  | Get_Runtime nat
  | Network_Init nat "string list"
  | Configure nat "string list" bool
  | Start nat
  | Init nat "string list"
  | Shutdown_Request nat bool int
  | Event_Triggers nat
  | Shutdown_Arrives shutdown_message
  | Wait_For_Shutdown nat "node_id \<Rightarrow> runtime_node" bool "nat list"

text \<open>One call; \<open>None\<close> when it blocks.\<close>

fun process_call ::
  "(string list \<Rightarrow> (bool \<times> string list) outcome) \<Rightarrow> configure_fun \<Rightarrow> node_id \<Rightarrow> node_id \<Rightarrow> runtime_call \<Rightarrow> process \<Rightarrow>
     process outcome option" where
  "process_call net conf my mx (Construct h) ps = Some (Inr (Runtime_construct h ps))"
| "process_call net conf my mx (Get_Runtime h) ps = Some (Inr (Runtime_get_runtime h ps))"
| "process_call net conf my mx (Network_Init h argv) ps = Some (obind (Runtime_network_init net h argv ps) (\<lambda>(_, _, t). Inr t))"
| "process_call net conf my mx (Configure h cl rm) ps = Some (obind (Runtime_configure conf h cl rm ps) (\<lambda>(_, _, t). Inr t))"
| "process_call net conf my mx (Start h) ps = Some (Runtime_start h ps)"
| "process_call net conf my mx (Init h argv) ps = Some (obind (Runtime_init net conf h argv ps) (\<lambda>(_, _, t). Inr t))"
| "process_call net conf my mx (Shutdown_Request h trig code) ps =
     Some (obind (Runtime_shutdown my mx h trig code ps) (\<lambda>(_, t). Inr t))"
| "process_call net conf my mx (Event_Triggers i) ps = Some (obind (trigger_deferred my mx i ps) (\<lambda>(_, t). Inr t))"
| "process_call net conf my mx (Shutdown_Arrives msg) ps = Some (obind (receive_shutdown my mx msg ps) (\<lambda>(_, t). Inr t))"
| "process_call net conf my mx (Wait_For_Shutdown h others ok modules) ps =
     map_option (\<lambda>r. obind r (\<lambda>(_, t). Inr t)) (Runtime_wait_for_shutdown my mx others ok modules h ps)"

fun process_run ::
  "(string list \<Rightarrow> (bool \<times> string list) outcome) \<Rightarrow> configure_fun \<Rightarrow> node_id \<Rightarrow> node_id \<Rightarrow> runtime_call list \<Rightarrow> process \<Rightarrow>
     process outcome option" where
  "process_run net conf my mx [] ps = Some (Inr ps)"
| "process_run net conf my mx (c # cs) ps =
     (case process_call net conf my mx c ps of
        Some (Inr t) \<Rightarrow> process_run net conf my mx cs t
      | r \<Rightarrow> r)"

section \<open>Invariants of a process\<close>

text \<open>
  What a predicate on processes has to satisfy to hold throughout a run; \<open>n\<close> bounds the number of
  calls so far, which keeps the counter from wrapping around.
\<close>

locale process_invariant =
  fixes I :: "nat \<Rightarrow> process \<Rightarrow> bool"
  assumes mono: "I n s \<Longrightarrow> n \<le> n' \<Longrightarrow> I n' s"
    and construct: "I n s \<Longrightarrow> I n (Runtime_construct h s)"
    and get_runtime: "I n s \<Longrightarrow> I n (Runtime_get_runtime h s)"
    and network: "I n s \<Longrightarrow> Runtime_network_init net h argv s = Inr (ok, argv', t) \<Longrightarrow> I n t"
    and update: "I n s \<Longrightarrow> ps_heap s p = Some io \<Longrightarrow> shutdown_requested (io_node io') = shutdown_requested (io_node io) \<Longrightarrow>
      I n (s\<lparr>ps_heap := (ps_heap s)(p \<mapsto> io')\<rparr>)"
    and deferral: "I n s \<Longrightarrow> I n (s\<lparr>ps_deferred := d\<rparr>)"
    and shutdown: "I n s \<Longrightarrow> ps_heap s p = Some io \<Longrightarrow> Suc n < 2 ^ 31 \<Longrightarrow>
      rt_shutdown my mx (with_count s io) local code = (rt, ms) \<Longrightarrow> I (Suc n) (store_node p io rt s)"
    and wait: "I n s \<Longrightarrow> Runtime_wait_for_shutdown my mx others cl modules h s = Some (Inr (code, t)) \<Longrightarrow> I n t"
begin

lemma configure_inv:
  assumes "I n s" and "Runtime_configure conf h cl rm s = Inr (ok, cl', t)"
  shows "I n t"
  using assms by (auto simp: Runtime_configure_def deref_def obind_Inr_iff split: option.splits intro!: update)

lemma start_inv:
  assumes "I n s" and "Runtime_start h s = Inr t"
  shows "I n t"
  using assms by (auto simp: Runtime_start_def deref_def obind_Inr_iff RuntimeImpl_start_def split: option.splits intro!: update)

lemma init_inv:
  assumes "I n s" and "Runtime_init net conf h argv s = Inr (ok, argv', t)"
  shows "I n t"
  using assms
  by (auto simp: Runtime_init_def Runtime_configure_argv_def obind_Inr_iff split: if_splits
      dest!: network [OF assms(1)] dest: configure_inv start_inv)

lemma shutdown_request_inv:
  assumes "I n s" and "Runtime_shutdown my mx h trig code s = Inr (ms, t)" and "Suc n < 2 ^ 31"
  shows "I (Suc n) t"
  using assms mono [of n "s\<lparr>ps_deferred := ps_deferred s @ [(ps_impl s h, DeferredShutdown code)]\<rparr>" "Suc n"]
  by (auto simp: Runtime_shutdown_def deref_def request_shutdown_def obind_Inr_iff Let_def split: if_splits option.splits prod.splits
      intro: shutdown deferral)

lemma trigger_inv:
  assumes "I n s" and "trigger_deferred my mx i s = Inr (ms, t)" and "Suc n < 2 ^ 31"
  shows "I (Suc n) t"
proof (cases "i < length (ps_deferred s)")
  case True
  let ?s = "s\<lparr>ps_deferred := without i (ps_deferred s)\<rparr>"
  from True assms(2) obtain ptr d p io rt where
    "ps_heap s p = Some io" "event_triggered my mx (with_count s io) d False = Inr (rt, ms)" "t = store_node p io rt ?s"
    by (auto simp: trigger_deferred_def Let_def deref_def obind_Inr_iff split: option.splits prod.splits)
  moreover have "with_count ?s io = with_count s io" by (simp add: with_count_def)
  ultimately show ?thesis
    using shutdown [OF deferral [OF assms(1)], of "without i (ps_deferred s)" p io] assms(3)
    by (auto simp: event_triggered_def split: DeferredShutdown.splits)
next
  case False
  with assms(1,2) show ?thesis by (auto simp: trigger_deferred_def intro: mono)
qed

lemma receive_inv:
  assumes "I n s" and "receive_shutdown my mx msg s = Inr (ms, t)" and "Suc n < 2 ^ 31"
  shows "I (Suc n) t"
  using assms
  by (auto simp: receive_shutdown_def deref_def handle_shutdown_message_def obind_Inr_iff Let_def
      split: option.splits prod.splits shutdown_message.splits intro: shutdown)

lemma call_inv:
  assumes "I n s" and "process_call net conf my mx c s = Some (Inr t)" and "Suc n < 2 ^ 31"
  shows "I (Suc n) t"
proof (cases c)
  case (Init h argv)
  with assms show ?thesis by (auto simp: obind_Inr_iff intro: mono dest: init_inv)
qed (use assms in \<open>auto simp: obind_Inr_iff intro: mono construct get_runtime shutdown_request_inv trigger_inv receive_inv
      dest: network configure_inv start_inv wait\<close>)

lemma run_inv:
  assumes "process_run net conf my mx cs s = Some (Inr t)" and "I n s" and "n + length cs < 2 ^ 31"
  shows "I (n + length cs) t"
  using assms
proof (induction cs arbitrary: n s)
  case (Cons c cs)
  then obtain u where u: "process_call net conf my mx c s = Some (Inr u)" "process_run net conf my mx cs u = Some (Inr t)"
    by (auto split: option.splits sum.splits)
  have "I (Suc n) u" using call_inv [OF Cons.prems(2) u(1)] Cons.prems(3) by simp
  from Cons.IH [OF u(2) this] Cons.prems(3) show ?case by simp
qed simp

end

text \<open>
  There is one live \<^verbatim>\<open>RuntimeImpl\<close>, the one the static variable points to, or none; the counter tells
  that there was a shutdown before any object was asked to shut down.
\<close>

definition one_runtime :: "nat \<Rightarrow> process \<Rightarrow> bool" where
  "one_runtime n s \<longleftrightarrow> dom (ps_heap s) = {p. ps_singleton s = Some p} \<and> unat (ps_shutdown_count s) \<le> n \<and>
     (\<forall>p io. ps_heap s p = Some io \<longrightarrow> shutdown_requested (io_node io) \<longrightarrow> ps_shutdown_count s \<noteq> 0)"

text \<open>The counter has been raised, but no live object was asked to shut down.\<close>

definition never_stops :: "nat \<Rightarrow> process \<Rightarrow> bool" where
  "never_stops n s \<longleftrightarrow> unat (ps_shutdown_count s) \<le> n \<and> ps_shutdown_count s \<noteq> 0 \<and>
     (\<forall>p io. ps_heap s p = Some io \<longrightarrow> \<not> shutdown_requested (io_node io))"

lemma unat_suc_32:
  assumes "unat (c :: 32 word) < 2 ^ 31"
  shows "unat (c + 1) = Suc (unat c)" "c + 1 \<noteq> 0"
proof -
  show u: "unat (c + 1) = Suc (unat c)" using assms by (simp add: unat_word_ariths)
  then show "c + 1 \<noteq> 0" by (metis nat.distinct(1) unat_0)
qed

lemma rt_shutdown_count:
  assumes "rt_shutdown my mx rt local code = (rt', ms)" and "unat (shutdown_count rt) < 2 ^ 31"
  shows "shutdown_count rt' = shutdown_count rt + 1"
    and "shutdown_count rt \<noteq> 0 \<Longrightarrow> shutdown_requested rt' = shutdown_requested rt"
  using assms started_iff [OF assms(2)] by (auto simp: rt_shutdown_def Let_def split: if_splits)

lemma wait_effect:
  assumes "Runtime_wait_for_shutdown my mx others cl modules h s = Some (Inr (code, t))"
  obtains p io where "ps_impl s h = Some p" "ps_heap s p = Some io" "shutdown_requested (io_node io)"
    "t = s\<lparr>ps_heap := (ps_heap s)(p := None), ps_impl := (ps_impl s)(h := None), ps_singleton := None\<rparr>"
  using assms
  by (auto simp: Runtime_wait_for_shutdown_def deref_def wait_for_shutdown_def Let_def split: option.splits sum.splits if_splits)

lemma network_effect:
  assumes "Runtime_network_init net h argv s = Inr (ok, argv', t)"
  obtains (refused) "t = s" "ok = False" "ps_singleton s \<noteq> None"
  | (created) "ps_singleton s = None"
      "t = s\<lparr>ps_heap := (ps_heap s)(ps_next s \<mapsto> \<lparr>io_node = RuntimeImpl_construct [], io_started = []\<rparr>), ps_next := ps_next s + 1,
             ps_impl := (ps_impl s)(h \<mapsto> ps_next s), ps_singleton := Some (ps_next s)\<rparr>"
  using assms by (auto simp: Runtime_network_init_def Let_def obind_Inr_iff split: if_splits)

interpretation one: process_invariant one_runtime
proof
  fix n s net h argv ok argv' t
  assume I: "one_runtime n s" and "Runtime_network_init net h argv s = Inr (ok, argv', t)"
  from this(2) show "one_runtime n t"
    by (cases rule: network_effect) (use I in \<open>auto simp: one_runtime_def RuntimeImpl_construct_def split: if_splits\<close>)
next
  fix n s p io my mx l code rt ms
  assume I: "one_runtime n s" "ps_heap s p = Some io" "Suc n < 2 ^ 31" "rt_shutdown my mx (with_count s io) l code = (rt, ms)"
  have c: "unat (shutdown_count (with_count s io)) < 2 ^ 31" using I by (simp add: one_runtime_def with_count_def)
  note r = rt_shutdown_count(1) [OF I(4) c]
  have "unat (shutdown_count rt) \<le> Suc n" "shutdown_count rt \<noteq> 0"
    using unat_suc_32 [OF c] I(1) by (simp_all add: r with_count_def one_runtime_def)
  then show "one_runtime (Suc n) (store_node p io rt s)" using I(1,2) by (auto simp: one_runtime_def store_node_def)
next
  fix n s my mx others cl modules h code t
  assume I: "one_runtime n s" and "Runtime_wait_for_shutdown my mx others cl modules h s = Some (Inr (code, t))"
  from this(2) obtain p io where "ps_heap s p = Some io"
    "t = s\<lparr>ps_heap := (ps_heap s)(p := None), ps_impl := (ps_impl s)(h := None), ps_singleton := None\<rparr>" by (rule wait_effect)
  then show "one_runtime n t" using I by (auto simp: one_runtime_def set_eq_iff split: if_splits)
qed (auto simp: one_runtime_def Runtime_construct_def Runtime_get_runtime_def split: if_splits)

interpretation stuck: process_invariant never_stops
proof
  fix n s net h argv ok argv' t
  assume I: "never_stops n s" and "Runtime_network_init net h argv s = Inr (ok, argv', t)"
  from this(2) show "never_stops n t"
    by (cases rule: network_effect) (use I in \<open>auto simp: never_stops_def RuntimeImpl_construct_def split: if_splits\<close>)
next
  fix n s p io my mx l code rt ms
  assume I: "never_stops n s" "ps_heap s p = Some io" "Suc n < 2 ^ 31" "rt_shutdown my mx (with_count s io) l code = (rt, ms)"
  have c: "unat (shutdown_count (with_count s io)) < 2 ^ 31" using I by (simp add: never_stops_def with_count_def)
  note r = rt_shutdown_count [OF I(4) c]
  have "unat (shutdown_count rt) \<le> Suc n" "shutdown_count rt \<noteq> 0" "\<not> shutdown_requested rt"
    using unat_suc_32 [OF c] I(1,2) r by (simp_all add: with_count_def never_stops_def)
  then show "never_stops (Suc n) (store_node p io rt s)" using I(1,2) by (auto simp: never_stops_def store_node_def)
next
  fix n s my mx others cl modules h code t
  assume I: "never_stops n s" and "Runtime_wait_for_shutdown my mx others cl modules h s = Some (Inr (code, t))"
  from this(2) obtain p io where "ps_heap s p = Some io" "shutdown_requested (io_node io)" by (rule wait_effect)
  then show "never_stops n t" using I by (simp add: never_stops_def)
qed (auto simp: never_stops_def Runtime_construct_def Runtime_get_runtime_def split: if_splits)

lemma one_runtime_start: "one_runtime 0 process_start"
  by (simp add: one_runtime_def process_start_def)

text \<open>What a shutdown leaves behind.\<close>

lemma stopped_never_stops:
  assumes "one_runtime n s" and "Runtime_wait_for_shutdown my mx others cl modules h s = Some (Inr (code, t))"
  shows "never_stops n t"
proof -
  from assms(2) obtain p io where w: "ps_heap s p = Some io" "shutdown_requested (io_node io)"
    "t = s\<lparr>ps_heap := (ps_heap s)(p := None), ps_impl := (ps_impl s)(h := None), ps_singleton := None\<rparr>" by (rule wait_effect)
  have "p \<in> dom (ps_heap s)" using w(1) by blast
  then have "dom (ps_heap s) = {p}" using assms(1) by (auto simp: one_runtime_def)
  then have "ps_heap t = (\<lambda>_. None)" by (auto simp: w(3) fun_eq_iff dom_def)
  with w assms(1) show ?thesis by (auto simp: never_stops_def one_runtime_def)
qed

section \<open>Properties\<close>

text \<open>
  C25. A process has one runtime at a time, whatever the calls and their order: the live
  \<^verbatim>\<open>RuntimeImpl\<close> objects are exactly the one \<^verbatim>\<open>runtime_singleton\<close> points to, so the pointer that
  \<^verbatim>\<open>get_runtime\<close> hands out never dangles, and \<^verbatim>\<open>network_init\<close> creates an object only when there is none.
\<close>

theorem one_runtime_at_a_time:
  assumes "process_run net conf my mx cs process_start = Some (Inr s)" and "length cs < 2 ^ 31"
  shows "dom (ps_heap s) = {p. ps_singleton s = Some p} \<and>
    (ps_singleton s = None \<longrightarrow> ps_heap s = (\<lambda>_. None)) \<and>
    (\<forall>p. ps_singleton s = Some p \<longrightarrow> (\<exists>io. deref s (ps_impl (Runtime_get_runtime h s) h) = Inr (p, io)) \<and>
       (\<forall>argv. Runtime_network_init net h argv s = Inr (False, argv, s)))"
proof -
  have I: "dom (ps_heap s) = {p. ps_singleton s = Some p}"
    using one.run_inv [OF assms(1) one_runtime_start] assms(2) by (simp add: one_runtime_def)
  moreover have "\<exists>io. ps_heap s p = Some io" if "ps_singleton s = Some p" for p using I that by (auto simp: dom_def)
  ultimately show ?thesis
    by (auto simp: deref_def Runtime_get_runtime_def Runtime_network_init_def dom_def fun_eq_iff split: option.splits)
qed

text \<open>
  Example: a network layer and a configuration that succeed, and a process that initialises its
  runtime and asks for it through a second object.
\<close>

abbreviation demo_net :: "string list \<Rightarrow> (bool \<times> string list) outcome" where
  "demo_net argv \<equiv> Inr (True, argv)"

abbreviation demo_conf :: configure_fun where
  "demo_conf cl \<equiv> Inr (True, cl, [0, 1])"

lemmas runtime_defs = Runtime_init_def Runtime_network_init_def Runtime_configure_argv_def Runtime_configure_def Runtime_start_def
  Runtime_get_runtime_def Runtime_shutdown_def Runtime_wait_for_shutdown_def RuntimeImpl_start_def deref_def with_count_def
  store_node_def process_start_def

theorem one_runtime_at_a_time_witness:
  "\<exists>s. process_run demo_net demo_conf 0 1 [Init 0 [''prog''], Get_Runtime 1] process_start = Some (Inr s) \<and>
     dom (ps_heap s) = {0} \<and> Runtime_network_init demo_net 2 [] s = Inr (False, [], s)"
proof -
  let ?cs = "[Init 0 [''prog''], Get_Runtime 1]"
  obtain s where s: "process_run demo_net demo_conf 0 1 ?cs process_start = Some (Inr s)" "ps_singleton s = Some 0"
    by (simp add: runtime_defs)
  from one_runtime_at_a_time [OF s(1), of 2] s(2) have "dom (ps_heap s) = {0}" "Runtime_network_init demo_net 2 [] s = Inr (False, [], s)"
    by auto
  with s(1) show ?thesis by blast
qed

text \<open>
  C26. Once a runtime has been shut down, no later one in the same process can be: \<^verbatim>\<open>wait_for_shutdown\<close> sets
  \<^verbatim>\<open>runtime_singleton\<close> to null, so that another runtime may be initialised, but the
  static \<^verbatim>\<open>shutdown_count\<close> keeps its value and every later request, local or from another node, counts as a
  duplicate.  Whatever is called afterwards, \<^verbatim>\<open>wait_for_shutdown\<close> of a live runtime never returns.
\<close>

theorem later_runtime_never_stops:
  assumes "process_run net conf my mx cs1 process_start = Some (Inr s)"
    and "Runtime_wait_for_shutdown my mx others cl modules h s = Some (Inr (code, t))"
    and "process_run net conf my mx cs2 t = Some (Inr u)" and "length cs1 + length cs2 < 2 ^ 31"
    and "deref u (ps_impl u h') = Inr (p, io)"
  shows "Runtime_wait_for_shutdown my mx others' cl' modules' h' u = None"
proof -
  have "one_runtime (length cs1) s" using one.run_inv [OF assms(1) one_runtime_start] assms(4) by simp
  from stuck.run_inv [OF assms(3) stopped_never_stops [OF this assms(2)]] assms(4)
  have "never_stops (length cs1 + length cs2) u" by simp
  with assms(5) have "\<not> shutdown_requested (io_node io)" by (auto simp: never_stops_def deref_def split: option.splits)
  with assms(5) show ?thesis by (simp add: Runtime_wait_for_shutdown_def wait_for_shutdown_def)
qed

text \<open>Example: a machine of one node, with a second runtime after the first.\<close>

theorem later_runtime_never_stops_witness:
  "\<exists>s t u. process_run demo_net demo_conf 0 0 [Init 0 [''prog''], Shutdown_Request 0 True 3] process_start = Some (Inr s) \<and>
     Runtime_wait_for_shutdown 0 0 (\<lambda>_. RuntimeImpl_construct []) True [] 0 s = Some (Inr (3, t)) \<and>
     process_run demo_net demo_conf 0 0 [Init 1 [''prog''], Shutdown_Request 1 True 4] t = Some (Inr u) \<and>
     Runtime_wait_for_shutdown 0 0 (\<lambda>_. RuntimeImpl_construct []) True [] 1 u = None"
proof -
  let ?cs1 = "[Init 0 [''prog''], Shutdown_Request 0 True 3]" and ?cs2 = "[Init 1 [''prog''], Shutdown_Request 1 True 4]"
  let ?o = "\<lambda>_ :: node_id. RuntimeImpl_construct []"
  let ?live = "\<lambda>u. \<exists>p io. deref u (ps_impl u 1) = Inr (p, io)"
  have "\<exists>s t u. process_run demo_net demo_conf 0 0 ?cs1 process_start = Some (Inr s) \<and>
      Runtime_wait_for_shutdown 0 0 ?o True [] 0 s = Some (Inr (3, t)) \<and>
      process_run demo_net demo_conf 0 0 ?cs2 t = Some (Inr u) \<and> ?live u"
    by (simp add: runtime_defs request_shutdown_def rt_shutdown_def RuntimeImpl_construct_def wait_for_shutdown_def Let_def)
  then obtain s t u p io where r: "process_run demo_net demo_conf 0 0 ?cs1 process_start = Some (Inr s)"
      "Runtime_wait_for_shutdown 0 0 ?o True [] 0 s = Some (Inr (3, t))"
      "process_run demo_net demo_conf 0 0 ?cs2 t = Some (Inr u)" "deref u (ps_impl u 1) = Inr (p, io)" by blast
  have "Runtime_wait_for_shutdown 0 0 ?o True [] 1 u = None" by (rule later_runtime_never_stops [OF r(1-3) _ r(4)]) simp
  with r(1-3) show ?thesis by blast
qed

text \<open>
  The first runtime of a process goes through its life: \<^verbatim>\<open>init\<close> creates it, hands the arguments behind the
  program name to the configuration and starts the threads of every processor once; a request to shut down tells
  every other node; and once these have been asked too, \<^verbatim>\<open>wait_for_shutdown\<close> returns the code of the request,
  with the object deleted and both pointers to it cleared.
\<close>

theorem runtime_lifecycle:
  assumes "ps_singleton s = None" and "ps_shutdown_count s = 0" and "ps_heap s = (\<lambda>_. None)"
    and "net argv = Inr (True, argv')" and "conf (tl argv') = Inr (True, rest, procs)"
    and "\<And>i. i \<le> mx \<Longrightarrow> i \<noteq> my \<Longrightarrow> shutdown_requested (others i)"
  shows "\<exists>t u v io. Runtime_init net conf h argv s = Inr (True, argv', t) \<and>
    deref t (ps_impl t h) = Inr (ps_next s, io) \<and> io_started io = procs \<and>
    Runtime_shutdown my mx h True code t =
      Inr (map (\<lambda>i. RuntimeShutdownMessage i my code) (filter (\<lambda>i. i \<noteq> my) [0 ..< Suc mx]), u) \<and>
    Runtime_wait_for_shutdown my mx others True modules h u = Some (Inr (code, v)) \<and>
    ps_singleton v = None \<and> ps_impl v h = None \<and> ps_heap v = (\<lambda>_. None)"
  using assms
  by (simp add: runtime_defs request_shutdown_def rt_shutdown_def RuntimeImpl_construct_def wait_for_shutdown_def Let_def del: upt_Suc)

theorem runtime_lifecycle_witness:
  "\<exists>t u v. Runtime_init demo_net demo_conf 5 [''prog''] process_start = Inr (True, [''prog''], t) \<and>
     Runtime_shutdown 0 0 5 True 7 t = Inr ([], u) \<and>
     Runtime_wait_for_shutdown 0 0 (\<lambda>_. RuntimeImpl_construct []) True [] 5 u = Some (Inr (7, v)) \<and> ps_singleton v = None"
  using runtime_lifecycle [of process_start demo_net "[''prog'']" "[''prog'']" demo_conf "[]" "[0, 1]" 0 0 "\<lambda>_. RuntimeImpl_construct []" 5 7 "[]"]
  by (auto simp: process_start_def)

text \<open>The vector of the caller is left alone unless it asks for the runtime's arguments to be removed.\<close>

lemma configure_caller_vector:
  assumes "Runtime_configure (impl_configure ca my mx) h cl remove s = Inr (ok, cl', t)"
  shows "ok \<and> (if remove then filter (\<lambda>a. take 4 a = ''-ll:'') cl' = [] else cl' = cl)"
proof -
  from assms obtain cf where cf: "configure_from_command_line ca my mx cl = Inr cf" "ok" "cl' = (if remove then cf_cmdline cf else cl)"
    by (auto simp: Runtime_configure_def impl_configure_def obind_Inr_iff)
  with configure_options_checked(2) [OF configured_parts(1) [OF cf(1)]] show ?thesis by (auto simp: filter_empty_conv)
qed

end
