(* ===== verification/Remote_IDs.thy ===== *)
theory Remote_IDs
  imports Legion_Prelude
begin

text \<open>
  \<^verbatim>\<open>RemoteIDAllocator\<close> of \<^verbatim>\<open>runtime_impl.cc\<close>: a node keeps, for every type of identifier
  and every other node, ranges of identifiers the other node has granted, hands them out one by one
  and asks for more before it runs out.  Types of identifiers are numbers (the enumeration is not in
  the repository), identifiers are 64-bit words.  The lock of the class is not modelled.
\<close>

section \<open>State and operations\<close>

type_synonym id_type = nat
type_synonym id_range = "64 word \<times> 64 word"

record RemoteIDAllocator =
  batch_sizes :: "(id_type, int) omap"
  low_water_marks :: "(id_type, int) omap"
  reqs_in_flight :: "id_type \<Rightarrow> node_id set"
  id_ranges :: "id_type \<Rightarrow> node_id \<Rightarrow> id_range list"

definition RemoteIDAllocator_construct :: RemoteIDAllocator where
  "RemoteIDAllocator_construct =
     \<lparr>batch_sizes = [], low_water_marks = [], reqs_in_flight = (\<lambda>_. {}), id_ranges = (\<lambda>_ _. [])\<rparr>"

definition set_request_size :: "RemoteIDAllocator \<Rightarrow> id_type \<Rightarrow> int \<Rightarrow> int \<Rightarrow> RemoteIDAllocator" where
  "set_request_size a t batch_size low_water_mark =
     a\<lparr>batch_sizes := om_put t batch_size (batch_sizes a),
       low_water_marks := om_put t low_water_mark (low_water_marks a)\<rparr>"

text \<open>The messages: a request names target, sender, type and count, a response its target and a range.\<close>

datatype id_message =
    RemoteIDRequestMessage node_id node_id id_type int
  | RemoteIDResponseMessage node_id node_id id_type "64 word" "64 word"

definition make_initial_requests ::
  "node_id \<Rightarrow> node_id \<Rightarrow> RemoteIDAllocator \<Rightarrow> RemoteIDAllocator \<times> id_message list" where
  "make_initial_requests my max_node_id a =
     fold (\<lambda>(t, batch_size) st.
        fold (\<lambda>i (a, ms).
           if i = my then (a, ms)
           else (a\<lparr>reqs_in_flight := (reqs_in_flight a)(t := insert i (reqs_in_flight a t))\<rparr>,
                 ms @ [RemoteIDRequestMessage i my t batch_size]))
          [0 ..< Suc max_node_id] st)
       (batch_sizes a) (a, [])"

text \<open>
  \<open>get_remote_id\<close> returns the identifier, the new state and the request for more, if one is sent.
  A type that was never configured has no low-water mark and stops in the first assertion.
\<close>

definition get_remote_id ::
  "node_id \<Rightarrow> RemoteIDAllocator \<Rightarrow> node_id \<Rightarrow> id_type \<Rightarrow>
     (64 word \<times> RemoteIDAllocator \<times> id_message list) outcome" where
  "get_remote_id my a target t =
     (case map_of (batch_sizes a) t of
        None \<Rightarrow> Inl Assert_Failed
      | Some batch_size \<Rightarrow>
          (case id_ranges a t target of
             [] \<Rightarrow> Inl Assert_Failed
           | (first_id, last_id) # rest \<Rightarrow>
               let tgt_ranges = (if first_id = last_id then rest else (first_id + 1, last_id) # rest);
                   low = (case map_of (low_water_marks a) t of None \<Rightarrow> 0 | Some n \<Rightarrow> n);
                   a1 = a\<lparr>id_ranges := (id_ranges a)(t := (id_ranges a t)(target := tgt_ranges))\<rparr>
               in if (tgt_ranges = [] \<or>
                      (length tgt_ranges = 1 \<and> snd (hd tgt_ranges) - fst (hd tgt_ranges) < word_of_int low)) \<and>
                     target \<notin> reqs_in_flight a t
                  then Inr (first_id,
                            a1\<lparr>reqs_in_flight := (reqs_in_flight a)(t := insert target (reqs_in_flight a t))\<rparr>,
                            [RemoteIDRequestMessage target my t batch_size])
                  else Inr (first_id, a1, [])))"

definition add_id_range ::
  "RemoteIDAllocator \<Rightarrow> node_id \<Rightarrow> id_type \<Rightarrow> 64 word \<Rightarrow> 64 word \<Rightarrow> RemoteIDAllocator outcome" where
  "add_id_range a target t first_id last_id =
     (if target \<notin> reqs_in_flight a t then Inl Assert_Failed
      else Inr (a\<lparr>reqs_in_flight := (reqs_in_flight a)(t := reqs_in_flight a t - {target}),
                  id_ranges := (id_ranges a)(t := (id_ranges a t)(target := id_ranges a t target @ [(first_id, last_id)]))\<rparr>))"

text \<open>
  The handlers of the two messages.  The handler of a request asserts in every case: for the sparsity
  type because the call that would allocate the range is commented out, for the others by default.
\<close>

definition handle_id_message ::
  "id_type \<Rightarrow> RemoteIDAllocator \<Rightarrow> id_message \<Rightarrow> (RemoteIDAllocator \<times> id_message list) outcome" where
  "handle_id_message ID_SPARSITY a msg =
     (case msg of
        RemoteIDRequestMessage me sender t cnt \<Rightarrow>
          (if t = ID_SPARSITY then Inl Assert_Failed else Inl Assert_Failed)
      | RemoteIDResponseMessage me responder t first_id last_id \<Rightarrow>
          obind (add_id_range a responder t first_id last_id) (\<lambda>a'. Inr (a', [])))"

section \<open>Runs\<close>

datatype id_op = GetID node_id id_type | Granted node_id id_type "64 word" "64 word"

record id_run =
  run_alloc :: RemoteIDAllocator
  run_sent :: "id_message list"
  run_ids :: "(id_type \<times> node_id \<times> 64 word) list"

definition id_step :: "node_id \<Rightarrow> id_type \<Rightarrow> id_run \<Rightarrow> id_op \<Rightarrow> id_run outcome" where
  "id_step my sp r x =
     (case x of
        GetID n t \<Rightarrow>
          obind (get_remote_id my (run_alloc r) n t) (\<lambda>(i, a, ms).
            Inr \<lparr>run_alloc = a, run_sent = run_sent r @ ms, run_ids = run_ids r @ [(t, n, i)]\<rparr>)
      | Granted n t f l \<Rightarrow>
          obind (handle_id_message sp (run_alloc r) (RemoteIDResponseMessage my n t f l)) (\<lambda>(a, ms).
            Inr (r\<lparr>run_alloc := a, run_sent := run_sent r @ ms\<rparr>)))"

fun id_steps :: "node_id \<Rightarrow> id_type \<Rightarrow> id_run \<Rightarrow> id_op list \<Rightarrow> id_run outcome" where
  "id_steps my sp r [] = Inr r"
| "id_steps my sp r (x # xs) = obind (id_step my sp r x) (\<lambda>r'. id_steps my sp r' xs)"

definition id_start :: "node_id \<Rightarrow> node_id \<Rightarrow> RemoteIDAllocator \<Rightarrow> id_run" where
  "id_start my mx a = (let (a', ms) = make_initial_requests my mx a in \<lparr>run_alloc = a', run_sent = ms, run_ids = []\<rparr>)"

text \<open>
  What a run is compared with: the identifiers of the granted ranges in the order of the grants, and
  the number of grants.
\<close>

definition ids_of :: "id_range \<Rightarrow> 64 word list" where
  "ids_of r = map of_nat [unat (fst r) ..< Suc (unat (snd r))]"

fun granted :: "id_type \<Rightarrow> node_id \<Rightarrow> id_op list \<Rightarrow> id_range list" where
  "granted t n [] = []"
| "granted t n (GetID m u # xs) = granted t n xs"
| "granted t n (Granted m u f l # xs) = (if m = n \<and> u = t then [(f, l)] else []) @ granted t n xs"

definition ids_for :: "id_type \<Rightarrow> node_id \<Rightarrow> (id_type \<times> node_id \<times> 64 word) list \<Rightarrow> 64 word list" where
  "ids_for t n is = map (snd \<circ> snd) (filter (\<lambda>i. fst i = t \<and> fst (snd i) = n) is)"

definition requests_to :: "id_type \<Rightarrow> node_id \<Rightarrow> id_message list \<Rightarrow> nat" where
  "requests_to t n ms = length (filter (\<lambda>m. case m of RemoteIDRequestMessage i s u c \<Rightarrow> i = n \<and> u = t | _ \<Rightarrow> False) ms)"

lemma ids_for_simps [simp]:
  "ids_for t n [] = []"
  "ids_for t n (xs @ ys) = ids_for t n xs @ ids_for t n ys"
  "ids_for t n [(u, m, i)] = (if u = t \<and> m = n then [i] else [])"
  by (auto simp: ids_for_def)

lemma requests_to_simps [simp]:
  "requests_to t n [] = 0"
  "requests_to t n (xs @ ys) = requests_to t n xs + requests_to t n ys"
  "requests_to t n [RemoteIDRequestMessage i s u c] = (if i = n \<and> u = t then 1 else 0)"
  by (auto simp: requests_to_def)

lemma next_id:
  fixes f l :: "64 word"
  assumes "f \<le> l" and "f \<noteq> l"
  shows "unat (f + 1) = Suc (unat f)" and "f + 1 \<le> l"
proof -
  have "unat f < unat l" using assms by (simp add: word_le_nat_alt word_unat_eq_iff)
  moreover from this have "unat f + 1 < 2 ^ 64" using unsigned_less [of l, where 'a = nat] by simp
  then show u: "unat (f + 1) = Suc (unat f)" by (simp add: unat_word_ariths)
  ultimately show "f + 1 \<le> l" by (simp add: word_le_nat_alt)
qed

lemma ids_of_step:
  assumes "f \<le> l"
  shows "ids_of (f, l) = f # (if f = l then [] else ids_of (f + 1, l))"
proof -
  have "unat f \<le> unat l" using assms by (simp add: word_le_nat_alt)
  then have "ids_of (f, l) = f # map of_nat [Suc (unat f) ..< Suc (unat l)]"
    by (simp add: ids_of_def upt_conv_Cons del: upt_Suc)
  with next_id(1) [OF assms] show ?thesis by (simp add: ids_of_def)
qed

section \<open>The initial requests\<close>

definition id_request_all :: "node_id \<Rightarrow> id_type \<Rightarrow> int \<Rightarrow> node_id list \<Rightarrow> RemoteIDAllocator \<times> id_message list \<Rightarrow>
    RemoteIDAllocator \<times> id_message list" where
  "id_request_all my t batch_size is st =
     fold (\<lambda>i (a, ms).
        if i = my then (a, ms)
        else (a\<lparr>reqs_in_flight := (reqs_in_flight a)(t := insert i (reqs_in_flight a t))\<rparr>,
              ms @ [RemoteIDRequestMessage i my t batch_size])) is st"

lemma id_request_all_effect:
  assumes "id_request_all my t b is (a, ms) = (a', ms')" and "distinct is"
  shows "reqs_in_flight a' = (reqs_in_flight a)(t := reqs_in_flight a t \<union> (set is - {my}))"
    and "requests_to u n ms' = requests_to u n ms + (if u = t \<and> n \<in> set is - {my} then 1 else 0)"
    and "id_ranges a' = id_ranges a" "batch_sizes a' = batch_sizes a" "low_water_marks a' = low_water_marks a"
  using assms by (induction "is" arbitrary: a ms) (auto simp: id_request_all_def split: if_splits)

lemma initial_requests_effect:
  assumes "fold (\<lambda>(t, b). id_request_all my t b [0 ..< Suc mx]) bs (a, ms) = (a', ms')" and "om_ok bs"
  shows "reqs_in_flight a' t = reqs_in_flight a t \<union> (if t \<in> fst ` set bs then {0..mx} - {my} else {}) \<and>
     requests_to t n ms' = requests_to t n ms + (if t \<in> fst ` set bs \<and> n \<in> {0..mx} - {my} then 1 else 0) \<and>
     id_ranges a' = id_ranges a \<and> batch_sizes a' = batch_sizes a \<and> low_water_marks a' = low_water_marks a"
  using assms
proof (induction bs arbitrary: a ms)
  case (Cons x bs)
  obtain u b where x: "x = (u, b)" by force
  obtain a1 ms1 where e: "id_request_all my u b [0 ..< Suc mx] (a, ms) = (a1, ms1)" by (metis surj_pair)
  have "u \<notin> fst ` set bs" using Cons.prems(2) x by auto
  moreover have "fold (\<lambda>(t, b). id_request_all my t b [0 ..< Suc mx]) bs (a1, ms1) = (a', ms')"
    using Cons.prems(1) x e by simp
  note Cons.IH [OF this]
  moreover have "set [0 ..< Suc mx] = {0..mx}" by auto
  moreover note id_request_all_effect [OF e distinct_upt]
  ultimately show ?case using Cons.prems(2) x by (auto simp del: upt_Suc)
qed simp

lemma make_initial_requests_fold:
  "make_initial_requests my mx a = fold (\<lambda>(t, b). id_request_all my t b [0 ..< Suc mx]) (batch_sizes a) (a, [])"
  by (simp add: make_initial_requests_def id_request_all_def [abs_def] del: upt_Suc)

section \<open>Invariants of a run\<close>

text \<open>
  \<open>id_fresh\<close>: an allocator that has been configured but not used.  \<open>id_inv\<close>: what has been handed out
  followed by what is left is what was granted, and every grant answers one request.
\<close>

definition id_fresh :: "RemoteIDAllocator \<Rightarrow> bool" where
  "id_fresh a \<longleftrightarrow> om_ok (batch_sizes a) \<and> (\<forall>t. reqs_in_flight a t = {}) \<and> (\<forall>t n. id_ranges a t n = [])"

definition id_inv :: "id_op list \<Rightarrow> id_run \<Rightarrow> id_type \<Rightarrow> node_id \<Rightarrow> bool" where
  "id_inv xs r t n \<longleftrightarrow>
     (\<forall>x \<in> set (id_ranges (run_alloc r) t n). fst x \<le> snd x) \<and>
     ids_for t n (run_ids r) @ concat (map ids_of (id_ranges (run_alloc r) t n)) = concat (map ids_of (granted t n xs)) \<and>
     requests_to t n (run_sent r) = length (granted t n xs) + (if n \<in> reqs_in_flight (run_alloc r) t then 1 else 0)"

definition low_mark :: "RemoteIDAllocator \<Rightarrow> id_type \<Rightarrow> 64 word" where
  "low_mark a t = word_of_int (case map_of (low_water_marks a) t of None \<Rightarrow> 0 | Some n \<Rightarrow> n)"

definition stocked :: "RemoteIDAllocator \<Rightarrow> id_type \<Rightarrow> node_id \<Rightarrow> bool" where
  "stocked a t n \<longleftrightarrow> n \<in> reqs_in_flight a t \<or>
     (case id_ranges a t n of [] \<Rightarrow> False | [(f, l)] \<Rightarrow> low_mark a t \<le> l - f | _ \<Rightarrow> True)"

definition good_grants :: "RemoteIDAllocator \<Rightarrow> id_op list \<Rightarrow> bool" where
  "good_grants a xs \<longleftrightarrow> (\<forall>n t f l. Granted n t f l \<in> set xs \<longrightarrow> f \<le> l \<and> low_mark a t \<le> l - f)"

lemma granted_append [simp]: "granted t n (xs @ ys) = granted t n xs @ granted t n ys"
  by (induction t n xs rule: granted.induct) auto

text \<open>One identifier handed out: the case rule the invariants share.\<close>

lemma get_remote_id_cases:
  assumes "get_remote_id my a m u = Inr (i, a', ms)"
  obtains last_id rest batch_size asks where "id_ranges a u m = (i, last_id) # rest"
    and "id_ranges a' = (id_ranges a)(u := (id_ranges a u)(m := (if i = last_id then [] else [(i + 1, last_id)]) @ rest))"
    and "batch_sizes a' = batch_sizes a" and "low_water_marks a' = low_water_marks a"
    and "reqs_in_flight a' = (reqs_in_flight a)(u := reqs_in_flight a u \<union> (if asks then {m} else {}))"
    and "ms = (if asks then [RemoteIDRequestMessage m my u batch_size] else [])"
    and "asks \<Longrightarrow> m \<notin> reqs_in_flight a u" and "stocked a' u m"
proof -
  from assms obtain b l rest where b: "map_of (batch_sizes a) u = Some b" and r: "id_ranges a u m = (i, l) # rest"
    by (auto simp: get_remote_id_def Let_def split: option.splits list.splits if_splits)
  define tr where "tr = (if i = l then [] else [(i + 1, l)]) @ rest"
  define asks where "asks \<longleftrightarrow> (tr = [] \<or> (length tr = 1 \<and> snd (hd tr) - fst (hd tr) < low_mark a u)) \<and> m \<notin> reqs_in_flight a u"
  have tr: "(if i = l then rest else (i + 1, l) # rest) = tr" by (simp add: tr_def)
  have "Inr (i, if asks then a\<lparr>id_ranges := (id_ranges a)(u := (id_ranges a u)(m := tr)),
                        reqs_in_flight := (reqs_in_flight a)(u := insert m (reqs_in_flight a u))\<rparr>
                  else a\<lparr>id_ranges := (id_ranges a)(u := (id_ranges a u)(m := tr))\<rparr>,
               if asks then [RemoteIDRequestMessage m my u b] else []) = get_remote_id my a m u"
    unfolding get_remote_id_def b r option.case list.case prod.case Let_def tr low_mark_def [symmetric] asks_def [symmetric]
    by simp
  then have e: "a' = (if asks then a\<lparr>id_ranges := (id_ranges a)(u := (id_ranges a u)(m := tr)),
                        reqs_in_flight := (reqs_in_flight a)(u := insert m (reqs_in_flight a u))\<rparr>
                  else a\<lparr>id_ranges := (id_ranges a)(u := (id_ranges a u)(m := tr))\<rparr>)"
      "ms = (if asks then [RemoteIDRequestMessage m my u b] else [])" using assms by simp_all
  moreover have "stocked a' u m"
  proof (cases asks)
    case False
    then show ?thesis using e(1) by (auto simp: stocked_def asks_def low_mark_def not_less split: list.splits)
  qed (simp add: e(1) stocked_def)
  moreover have "asks \<Longrightarrow> m \<notin> reqs_in_flight a u" by (simp add: asks_def)
  ultimately show ?thesis using r by (intro that [of l rest asks b]) (simp_all add: tr_def [symmetric])
qed

lemma id_step_inv:
  assumes "id_step my sp r x = Inr r'" and "id_inv xs r t n" and "good_grants a [x]"
  shows "id_inv (xs @ [x]) r' t n"
proof (cases x)
  case (GetID m u)
  with assms(1) obtain i a' ms where g: "get_remote_id my (run_alloc r) m u = Inr (i, a', ms)"
    and r': "r' = \<lparr>run_alloc = a', run_sent = run_sent r @ ms, run_ids = run_ids r @ [(u, m, i)]\<rparr>"
    by (auto simp: id_step_def)
  from g show ?thesis
  proof (cases rule: get_remote_id_cases)
    case (1 l rest b asks)
    then show ?thesis using assms(2) ids_of_step [of i l] next_id(2) [of i l] GetID by (auto simp: id_inv_def r')
  qed
next
  case (Granted m u f l)
  with assms show ?thesis by (auto simp: id_step_def handle_id_message_def add_id_range_def id_inv_def good_grants_def split: if_splits)
qed

lemma id_steps_inv:
  assumes "id_steps my sp r ys = Inr r'" and "id_inv xs r t n" and "good_grants a ys"
  shows "id_inv (xs @ ys) r' t n"
  using assms
proof (induction ys arbitrary: xs r)
  case (Cons y ys)
  then obtain r1 where r1: "id_step my sp r y = Inr r1" "id_steps my sp r1 ys = Inr r'" by auto
  moreover have "id_inv (xs @ [y]) r1 t n"
    using id_step_inv [OF r1(1) Cons.prems(2), of a] Cons.prems(3) by (simp add: good_grants_def)
  ultimately show ?case using Cons.IH [of r1 "xs @ [y]"] Cons.prems(3) by (simp add: good_grants_def)
qed simp

lemma id_step_stocked:
  assumes "id_step my sp r x = Inr r'" and "stocked (run_alloc r) t n" and "good_grants (run_alloc r) [x]"
  shows "stocked (run_alloc r') t n" and "batch_sizes (run_alloc r') = batch_sizes (run_alloc r)"
    and "low_water_marks (run_alloc r') = low_water_marks (run_alloc r)"
proof -
  have "stocked (run_alloc r') t n \<and> batch_sizes (run_alloc r') = batch_sizes (run_alloc r) \<and>
    low_water_marks (run_alloc r') = low_water_marks (run_alloc r)"
  proof (cases x)
    case (GetID m u)
    with assms(1) obtain i a' ms where g: "get_remote_id my (run_alloc r) m u = Inr (i, a', ms)" and r': "run_alloc r' = a'"
      by (auto simp: id_step_def)
    from g show ?thesis
    proof (cases rule: get_remote_id_cases)
      case (1 l rest b asks)
      show ?thesis
      proof (cases "u = t \<and> m = n")
        case False
        then have "stocked a' t n = stocked (run_alloc r) t n"
          unfolding stocked_def low_mark_def 1(2,4,5) by (auto split: if_splits)
        with 1 r' assms(2) show ?thesis by simp
      qed (use 1 r' in simp)
    qed
  next
    case (Granted m u f l)
    with assms show ?thesis
      by (auto simp: id_step_def handle_id_message_def add_id_range_def stocked_def low_mark_def good_grants_def
          split: if_splits list.splits)
  qed
  then show "stocked (run_alloc r') t n" "batch_sizes (run_alloc r') = batch_sizes (run_alloc r)"
    "low_water_marks (run_alloc r') = low_water_marks (run_alloc r)" by simp_all
qed

lemma good_grants_same: "low_water_marks a = low_water_marks b \<Longrightarrow> good_grants a xs = good_grants b xs"
  by (simp add: good_grants_def low_mark_def)

lemma id_steps_stocked:
  assumes "id_steps my sp r ys = Inr r'" and "stocked (run_alloc r) t n" and "good_grants (run_alloc r) ys"
  shows "stocked (run_alloc r') t n \<and> batch_sizes (run_alloc r') = batch_sizes (run_alloc r)"
  using assms
proof (induction ys arbitrary: r)
  case (Cons y ys)
  then obtain r1 where r1: "id_step my sp r y = Inr r1" "id_steps my sp r1 ys = Inr r'" by auto
  have g: "good_grants (run_alloc r) [y]" "good_grants (run_alloc r) ys" using Cons.prems(3) by (simp_all add: good_grants_def)
  note st = id_step_stocked [OF r1(1) Cons.prems(2) g(1)]
  with Cons.IH [OF r1(2)] g(2) good_grants_same [OF st(3)] show ?case by simp
qed simp

lemma id_start_inv:
  assumes "id_fresh a"
  shows "id_inv [] (id_start my mx a) t n"
    and "t \<in> fst ` set (batch_sizes a) \<Longrightarrow> n \<le> mx \<Longrightarrow> n \<noteq> my \<Longrightarrow> stocked (run_alloc (id_start my mx a)) t n"
    and "batch_sizes (run_alloc (id_start my mx a)) = batch_sizes a"
    and "low_water_marks (run_alloc (id_start my mx a)) = low_water_marks a"
proof -
  obtain a' ms where e: "make_initial_requests my mx a = (a', ms)" by (metis surj_pair)
  have ok: "om_ok (batch_sizes a)" using assms by (simp add: id_fresh_def)
  have s: "id_start my mx a = \<lparr>run_alloc = a', run_sent = ms, run_ids = []\<rparr>" by (simp add: id_start_def e)
  note i = initial_requests_effect [OF e [unfolded make_initial_requests_fold] ok, of t n]
  show "id_inv [] (id_start my mx a) t n" "batch_sizes (run_alloc (id_start my mx a)) = batch_sizes a"
    "low_water_marks (run_alloc (id_start my mx a)) = low_water_marks a"
    using i assms by (auto simp: s id_inv_def id_fresh_def)
  show "stocked (run_alloc (id_start my mx a)) t n" if "t \<in> fst ` set (batch_sizes a)" "n \<le> mx" "n \<noteq> my"
    using i that by (simp add: s stocked_def)
qed

lemma stocked_get:
  assumes "stocked a t n" and "n \<notin> reqs_in_flight a t" and "t \<in> fst ` set (batch_sizes a)"
  shows "\<exists>i a' ms. get_remote_id my a n t = Inr (i, a', ms)"
proof -
  obtain b where "map_of (batch_sizes a) t = Some b" using assms(3) by (metis map_of_eq_None_iff not_None_eq)
  moreover obtain f l rest where "id_ranges a t n = (f, l) # rest"
    using assms(1,2) by (auto simp: stocked_def split: list.splits)
  ultimately show ?thesis by (simp add: get_remote_id_def Let_def)
qed

section \<open>Properties\<close>

text \<open>
  Remote identifiers are handed out in the order they were granted, each exactly once: what a
  node has handed out for a type and a target, followed by what it still has, is the sequence of all
  granted identifiers, so two calls return the same identifier only if it was granted twice.  Every
  grant answers one request and at most one more request is under way.  While none is under way the
  next call finds an identifier, so the assertion on the empty list cannot fail then.  The grants are
  proper ranges longer than the low-water mark.
\<close>

theorem remote_ids_in_order:
  assumes "id_fresh a" and "good_grants a xs" and "id_steps my sp (id_start my mx a) xs = Inr r"
    and "t \<in> fst ` set (batch_sizes a)" and "n \<le> mx" and "n \<noteq> my"
  shows "ids_for t n (run_ids r) @ concat (map ids_of (id_ranges (run_alloc r) t n)) = concat (map ids_of (granted t n xs)) \<and>
    requests_to t n (run_sent r) = length (granted t n xs) + (if n \<in> reqs_in_flight (run_alloc r) t then 1 else 0) \<and>
    (n \<notin> reqs_in_flight (run_alloc r) t \<longrightarrow> (\<exists>i a' ms. get_remote_id my (run_alloc r) n t = Inr (i, a', ms)))"
proof -
  note st = id_start_inv [OF assms(1), where my = my and mx = mx]
  have "id_inv xs r t n" using id_steps_inv [OF assms(3) st(1) assms(2)] by simp
  moreover have "stocked (run_alloc r) t n \<and> batch_sizes (run_alloc r) = batch_sizes a"
    using id_steps_stocked [OF assms(3) st(2) [OF assms(4-6)]] assms(2) good_grants_same [OF st(4)] st(3) by simp
  ultimately show ?thesis using stocked_get [of "run_alloc r" t n] assms(4) by (simp add: id_inv_def)
qed

theorem remote_ids_in_order_witness:
  "let a = set_request_size RemoteIDAllocator_construct 3 2 1;
       r = projr (id_steps 0 3 (id_start 0 2 a) [Granted 1 3 10 11, GetID 1 3, Granted 1 3 20 22, GetID 1 3])
   in ids_for 3 1 (run_ids r) = [10, 11] \<and> id_ranges (run_alloc r) 3 1 = [(20, 22)] \<and>
      ids_for 3 1 (run_ids r) @ concat (map ids_of (id_ranges (run_alloc r) 3 1)) = [10, 11, 20, 21, 22]"
proof -
  let ?a = "set_request_size RemoteIDAllocator_construct 3 2 1"
  let ?xs = "[Granted 1 3 10 11, GetID 1 3, Granted 1 3 20 22, GetID 1 3] :: id_op list"
  have a: "id_fresh ?a" "good_grants ?a ?xs" "(3::nat) \<in> fst ` set (batch_sizes ?a)"
    by (auto simp: id_fresh_def good_grants_def set_request_size_def RemoteIDAllocator_construct_def om_put_def
        om_below_def om_from_def om_del_def low_mark_def word_le_nat_alt)
  obtain r where r: "id_steps 0 3 (id_start 0 2 ?a) ?xs = Inr r" "ids_for 3 1 (run_ids r) = [10, 11]"
    "id_ranges (run_alloc r) 3 1 = [(20, 22)]"
    by (simp add: id_start_def make_initial_requests_def set_request_size_def RemoteIDAllocator_construct_def om_put_def
        om_below_def om_from_def om_del_def upt_rec id_step_def handle_id_message_def add_id_range_def get_remote_id_def
        ids_for_def)
  have "concat (map ids_of (granted 3 1 ?xs)) = [10, 11, 20, 21, 22]"
    by (simp add: ids_of_def upt_rec)
  with remote_ids_in_order [OF a(1,2) r(1) a(3), of 1] r show ?thesis by (simp only: Let_def) simp
qed

text \<open>
  As the repository stands no remote identifier is ever allocated: a request is never granted, and
  \<^verbatim>\<open>RuntimeImpl::init\<close> makes the initial requests without having configured a type, so none is
  sent and \<open>get_remote_id\<close> stops in its first assertion.
\<close>

lemma remote_ids_disabled:
  "handle_id_message sp a (RemoteIDRequestMessage me sender t cnt) = Inl Assert_Failed"
  "make_initial_requests my mx RemoteIDAllocator_construct = (RemoteIDAllocator_construct, [])"
  "get_remote_id my RemoteIDAllocator_construct n t = Inl Assert_Failed"
  by (simp_all add: handle_id_message_def make_initial_requests_def get_remote_id_def RemoteIDAllocator_construct_def)

end
