(* ===== verification/Stub_Layer.thy ===== *)
theory Stub_Layer
  imports Runtime_Interface Remote_IDs
begin

text \<open>
  The message layer of a build without GASNet (the end of \<^verbatim>\<open>src/templates/activemsg.cc\<close>): every entry point that would
  send or receive a message is a failing assertion, the others do nothing.  Such a build runs on one node;
  this theory shows that start-up and shutdown of one node reach none of the assertions.
\<close>

section \<open>Stubs\<close>

definition stub_enqueue_message :: "'m \<Rightarrow> unit outcome" where
  "stub_enqueue_message msg = Inl Assert_Failed"

definition stub_enqueue_message_strided :: "'m \<Rightarrow> unit outcome" where
  "stub_enqueue_message_strided msg = Inl Assert_Failed"

definition stub_enqueue_message_spans :: "'m \<Rightarrow> unit outcome" where
  "stub_enqueue_message_spans msg = Inl Assert_Failed"

definition stub_do_some_polling :: "unit outcome" where
  "stub_do_some_polling = Inl Assert_Failed"

definition stub_get_lmb_size :: "node_id \<Rightarrow> nat" where
  "stub_get_lmb_size target_node = 0"

definition stub_get_message_source :: "'t \<Rightarrow> node_id" where
  "stub_get_message_source token = 0"

definition stub_enqueue_incoming :: "node_id \<Rightarrow> 'm \<Rightarrow> unit outcome" where
  "stub_enqueue_incoming sender msg = Inl Assert_Failed"

definition stub_adjust_long_msgsize :: "addr \<Rightarrow> nat \<Rightarrow> bool \<times> addr \<times> nat" where
  "stub_adjust_long_msgsize ptr buffer_size = (False, ptr, buffer_size)"

definition stub_handle_long_msgptr :: "node_id \<Rightarrow> addr \<Rightarrow> unit outcome" where
  "stub_handle_long_msgptr source ptr = Inl Assert_Failed"

definition stub_add_handler_entry :: "nat list \<Rightarrow> nat \<Rightarrow> nat list" where
  "stub_add_handler_entry handlers mid = handlers"

definition stub_init_endpoints :: "string list \<Rightarrow> string list" where
  "stub_init_endpoints cmdline = cmdline"

text \<open>A list of messages, sent one after the other.\<close>

fun stub_send :: "'m list \<Rightarrow> unit outcome" where
  "stub_send [] = Inr ()"
| "stub_send (x # xs) = obind (stub_enqueue_message x) (\<lambda>_. stub_send xs)"

lemma stub_send_iff: "stub_send xs = Inr u \<longleftrightarrow> xs = []"
  by (cases xs) (auto simp: stub_enqueue_message_def)

section \<open>Property\<close>

lemma others_empty_iff:
  assumes "my \<le> mx"
  shows "filter (\<lambda>i. i \<noteq> my) [0 ..< mx + 1] = [] \<longleftrightarrow> mx = 0"
proof (cases "mx = 0")
  case False
  let ?i = "if my = 0 then 1 else 0"
  have "?i \<in> set [0 ..< mx + 1]" "?i \<noteq> my" using False by auto
  then have "filter (\<lambda>i. i \<noteq> my) [0 ..< mx + 1] \<noteq> []" unfolding filter_empty_conv by blast
  with False show ?thesis by simp
qed (use assms in simp)

lemma no_initial_requests: "snd (make_initial_requests 0 0 a) = []"
proof -
  have "snd (fold (\<lambda>(t, batch_size) st.
      fold (\<lambda>i (a, ms). if i = 0 then (a, ms)
        else (a\<lparr>reqs_in_flight := (reqs_in_flight a)(t := insert i (reqs_in_flight a t))\<rparr>, ms @ [RemoteIDRequestMessage i 0 t batch_size]))
        [0 ..< Suc 0] st) bs (b, [])) = []" for bs b
    by (induction bs) auto
  then show ?thesis by (simp only: make_initial_requests_def)
qed

lemma no_shutdown_messages:
  assumes "Runtime_shutdown 0 0 h trig code s = Inr (ms, t)"
  shows "ms = []"
  using assms
  by (auto simp: Runtime_shutdown_def request_shutdown_def rt_shutdown_def Let_def obind_Inr_iff split: if_splits prod.splits)

text \<open>
  On a machine of one node the runtime sends no message, so the assertions of the build without a
  network are not reached: not by the announcement of the node, not by the initial requests for
  identifiers, whatever batch sizes are set, and not by a shutdown, however often it is requested.
  With a second node the announcement does reach them.
\<close>

theorem one_node_sends_nothing:
  assumes "announce_node put dbs q rt = Inr msgs" and "my_node_id rt \<le> max_node_id rt"
  shows "(stub_send msgs = Inr () \<longleftrightarrow> max_node_id rt = 0) \<and>
    (max_node_id rt = 0 \<longrightarrow> stub_send (snd (make_initial_requests (my_node_id rt) (max_node_id rt) a)) = Inr () \<and>
      (\<forall>h trig code s ms t. Runtime_shutdown (my_node_id rt) (max_node_id rt) h trig code s = Inr (ms, t) \<longrightarrow> stub_send ms = Inr ()))"
proof -
  have "msgs = [] \<longleftrightarrow> max_node_id rt = 0"
    using others_empty_iff [OF assms(2)] announced_nodes [OF assms(1)] by (metis map_is_Nil_conv)
  then show ?thesis using assms(2) no_initial_requests [of a] no_shutdown_messages by (auto simp: stub_send_iff)
qed

text \<open>Example: the only node, with a memory, and a process that shuts its runtime down.\<close>

theorem one_node_sends_nothing_witness:
  "\<exists>rt msgs. create_memory SYSTEM_MEM 64 (RuntimeImpl_init 0 0 8 12) = Inr rt \<and>
     announce_node (\<lambda>f b. (True, b @ [f])) [] demo_query rt = Inr msgs \<and> stub_send msgs = Inr ()"
proof -
  obtain rt where rt: "create_memory SYSTEM_MEM 64 (RuntimeImpl_init 0 0 8 12) = Inr rt"
    by (simp add: create_memory_def next_local_memory_id_def add_memory_def RuntimeImpl_init_def)
  have n: "my_node_id rt = 0" "max_node_id rt = 0" using create_same_node(1) [OF rt] by (simp_all add: RuntimeImpl_init_def)
  obtain msgs where m: "announce_node (\<lambda>f b. (True, b @ [f])) [] demo_query rt = Inr msgs"
    using announce_node_ok [of "\<lambda>f b. (True, b @ [f])" "[]" demo_query rt] by auto
  from one_node_sends_nothing [OF m, of RemoteIDAllocator_construct] rt m n show ?thesis by auto
qed

end
