(* ===== verification/Flip_Protocol.thy ===== *)
theory Flip_Protocol
  imports Segment_Layout
begin

text \<open>
  The flow control of long messages between two nodes: the sender places messages in the current
  buffer of its peer and flips to the next buffer when it is full; the peer counts the messages it
  has handled per buffer and acknowledges a flip when the count matches.  The steps are the
  operations of theory \<open>Endpoint\<close> on the two endpoints; the network may deliver long messages,
  flip requests and acknowledgements in any order.
\<close>

section \<open>The system\<close>

text \<open>
  \<open>fl_data\<close> are the long messages sent and not yet handled (buffer, address, size);
  \<open>fl_flips\<close> the flip requests under way (buffer, count); \<open>fl_acks\<close> the acknowledgements
  queued at the peer or under way.
\<close>

record flip_state =
  fl_snd :: ActiveMessageEndpoint
  fl_rcv :: ActiveMessageEndpoint
  fl_node :: am_node
  fl_data :: "(nat \<times> addr \<times> nat) list"
  fl_flips :: "(nat \<times> nat) list"
  fl_acks :: "nat list"

definition new_acks :: "am_node \<Rightarrow> ActiveMessageEndpoint \<Rightarrow> ActiveMessageEndpoint \<Rightarrow> nat list" where
  "new_acks nd ep ep' =
     map (\<lambda>p. unat (args (nd_msgs nd p) ! 0)) (drop (length (out_short_hdrs ep)) (out_short_hdrs ep'))"

inductive flip_step :: "am_config \<Rightarrow> flip_state \<Rightarrow> flip_state \<Rightarrow> bool" for cfg where
  fl_send:
    "\<lbrakk>lmb_w_avail (fl_snd s) ! cur_write_lmb (fl_snd s); 0 < sz;
      cur_write_offset (fl_snd s) + sz \<le> lmb_size cfg; lmb_place (fl_snd s) sz = (snd', d)\<rbrakk>
     \<Longrightarrow> flip_step cfg s (s\<lparr>fl_snd := snd', fl_data := fl_data s @ [(cur_write_lmb (fl_snd s), d, sz)]\<rparr>)"
| fl_flip:
    "\<lbrakk>lmb_w_avail (fl_snd s) ! cur_write_lmb (fl_snd s); sz \<le> lmb_size cfg;
      \<not> cur_write_offset (fl_snd s) + sz \<le> lmb_size cfg; lmb_flip cfg (fl_snd s) = (snd', w)\<rbrakk>
     \<Longrightarrow> flip_step cfg s (s\<lparr>fl_snd := snd',
           fl_flips := fl_flips s @ [(cur_write_lmb (fl_snd s), cur_write_count (fl_snd s))]\<rparr>)"
| fl_handle:
    "\<lbrakk>fl_data s = xs @ (b, d, sz) # ys;
      ep_handle_long_msgptr cfg (fl_node s) (fl_rcv s) newp d = Inr (nd', rcv', e)\<rbrakk>
     \<Longrightarrow> flip_step cfg s (s\<lparr>fl_rcv := rcv', fl_node := nd', fl_data := xs @ ys,
           fl_acks := fl_acks s @ new_acks nd' (fl_rcv s) rcv'\<rparr>)"
| fl_flipreq:
    "\<lbrakk>fl_flips s = xs @ (b, c) # ys;
      ep_handle_flip_request (fl_node s) (fl_rcv s) newp b c = Inr (nd', rcv', e)\<rbrakk>
     \<Longrightarrow> flip_step cfg s (s\<lparr>fl_rcv := rcv', fl_node := nd', fl_flips := xs @ ys,
           fl_acks := fl_acks s @ new_acks nd' (fl_rcv s) rcv'\<rparr>)"
| fl_ack:
    "\<lbrakk>fl_acks s = xs @ b # ys; ep_handle_flip_ack (fl_snd s) b = Inr snd'\<rbrakk>
     \<Longrightarrow> flip_step cfg s (s\<lparr>fl_snd := snd', fl_acks := xs @ ys\<rparr>)"

text \<open>
  At the start both endpoints are as constructed, on segments of one size in which the buffers
  fit.
\<close>

definition flip_init :: "am_config \<Rightarrow> flip_state \<Rightarrow> bool" where
  "flip_init cfg s \<longleftrightarrow>
     (\<exists>segs a b nodes. a < nodes \<and> b < nodes \<and> seg_size (segs a) = seg_size (segs b) \<and>
        nodes * num_lmbs cfg * lmb_size cfg \<le> seg_size (segs b) \<and> seg_addr (segs b) + seg_size (segs b) < 2 ^ 64 \<and>
        fl_snd s = ActiveMessageEndpoint_construct cfg segs a b \<and>
        fl_rcv s = ActiveMessageEndpoint_construct cfg segs b a) \<and>
     0 < num_lmbs cfg \<and> num_lmbs cfg < 2 ^ 32 \<and> fl_data s = [] \<and> fl_flips s = [] \<and> fl_acks s = []"

section \<open>The invariant\<close>

definition on_buffer :: "nat \<Rightarrow> (nat \<times> 'a) list \<Rightarrow> 'a list" where
  "on_buffer b xs = map snd (filter (\<lambda>x. fst x = b) xs)"

text \<open>The life of a buffer: open for writing, flipped, drained, acknowledged.\<close>

definition buffer_life :: "bool \<Rightarrow> bool \<Rightarrow> nat \<Rightarrow> nat \<Rightarrow> nat \<Rightarrow> nat list \<Rightarrow> nat \<Rightarrow> int \<Rightarrow> bool" where
  "buffer_life avail open_here cnt off d f a r \<longleftrightarrow>
     (if avail then f = [] \<and> a = 0 \<and> 0 \<le> r \<and> int d + r = (if open_here then int cnt else 0)
      else (open_here \<longrightarrow> cnt = 0 \<and> off = 0) \<and>
           ((\<exists>c. f = [c] \<and> a = 0 \<and> int d + r = int c \<and> 0 \<le> r) \<or>
            (f = [] \<and> a = 0 \<and> 0 < d \<and> r = - int d) \<or>
            (f = [] \<and> a = 1 \<and> d = 0 \<and> r = 0)))"

definition buffer_ok :: "flip_state \<Rightarrow> nat \<Rightarrow> bool" where
  "buffer_ok s b \<longleftrightarrow>
     buffer_life (lmb_w_avail (fl_snd s) ! b) (b = cur_write_lmb (fl_snd s))
       (cur_write_count (fl_snd s)) (cur_write_offset (fl_snd s))
       (length (on_buffer b (fl_data s))) (on_buffer b (fl_flips s))
       (length (filter (\<lambda>x. x = b) (fl_acks s))) (lmb_r_counts (fl_rcv s) ! b)"

definition bases_apart :: "am_config \<Rightarrow> addr list \<Rightarrow> bool" where
  "bases_apart cfg bs \<longleftrightarrow>
     (\<forall>i < length bs. \<forall>j < length bs. i \<noteq> j \<longrightarrow>
        {bs ! i ..< bs ! i + lmb_size cfg} \<inter> {bs ! j ..< bs ! j + lmb_size cfg} = {})"

definition data_range :: "nat \<times> addr \<times> nat \<Rightarrow> addr set" where
  "data_range x = {fst (snd x) ..< fst (snd x) + snd (snd x)}"

definition data_ok :: "am_config \<Rightarrow> flip_state \<Rightarrow> bool" where
  "data_ok cfg s \<longleftrightarrow>
     (\<forall>(b, d, n) \<in> set (fl_data s). b < num_lmbs cfg \<and> 0 < n \<and>
        lmb_w_bases (fl_snd s) ! b \<le> d \<and> d + n \<le> lmb_w_bases (fl_snd s) ! b + lmb_size cfg \<and>
        (b = cur_write_lmb (fl_snd s) \<and> lmb_w_avail (fl_snd s) ! b \<longrightarrow>
           d + n \<le> lmb_w_bases (fl_snd s) ! b + cur_write_offset (fl_snd s))) \<and>
     sorted_wrt (\<lambda>x y. data_range x \<inter> data_range y = {}) (fl_data s)"

definition flip_shape :: "am_config \<Rightarrow> flip_state \<Rightarrow> bool" where
  "flip_shape cfg s \<longleftrightarrow>
     0 < num_lmbs cfg \<and> num_lmbs cfg < 2 ^ 32 \<and> cur_write_lmb (fl_snd s) < num_lmbs cfg \<and>
     length (lmb_w_avail (fl_snd s)) = num_lmbs cfg \<and> length (lmb_r_counts (fl_rcv s)) = num_lmbs cfg \<and>
     length (lmb_w_bases (fl_snd s)) = num_lmbs cfg \<and> lmb_r_bases (fl_rcv s) = lmb_w_bases (fl_snd s) \<and>
     bases_apart cfg (lmb_w_bases (fl_snd s)) \<and>
     (\<forall>(b, c) \<in> set (fl_flips s). b < num_lmbs cfg) \<and> (\<forall>b \<in> set (fl_acks s). b < num_lmbs cfg)"

definition flip_inv :: "am_config \<Rightarrow> flip_state \<Rightarrow> bool" where
  "flip_inv cfg s \<longleftrightarrow> flip_shape cfg s \<and> data_ok cfg s \<and> (\<forall>b < num_lmbs cfg. buffer_ok s b)"

section \<open>Lemmas\<close>

lemma on_buffer_simps [simp]:
  "on_buffer b [] = []"
  "on_buffer b ((b', x) # xs) = (if b' = b then x # on_buffer b xs else on_buffer b xs)"
  "on_buffer b (xs @ ys) = on_buffer b xs @ on_buffer b ys"
  by (simp_all add: on_buffer_def)

lemma find_buffer_found:
  assumes "b < length bs" and "bs ! b \<le> p" and "p < bs ! b + n"
    and "\<forall>i < b. \<not> (bs ! i \<le> p \<and> p < bs ! i + n)"
  shows "find_buffer n bs p k = Some (k + b)"
  using assms
proof (induction bs arbitrary: b k)
  case (Cons x bs)
  show ?case
  proof (cases b)
    case 0
    with Cons.prems show ?thesis by simp
  next
    case (Suc b')
    have "\<forall>i < b'. \<not> (bs ! i \<le> p \<and> p < bs ! i + n)"
      using Cons.prems(4) Suc by (metis Suc_less_eq nth_Cons_Suc)
    moreover have "\<not> (x \<le> p \<and> p < x + n)" using Cons.prems(4) Suc by (metis nth_Cons_0 zero_less_Suc)
    ultimately show ?thesis using Cons.IH [of b' "Suc k"] Cons.prems(1-3) Suc by simp
  qed
qed simp

lemma find_buffer_apart:
  assumes "bases_apart cfg bs" and "b < length bs" and "bs ! b \<le> p" and "p < bs ! b + lmb_size cfg"
  shows "find_buffer (lmb_size cfg) bs p 0 = Some b"
proof -
  have "\<not> (bs ! i \<le> p \<and> p < bs ! i + lmb_size cfg)" if "i < b" for i
  proof
    assume "bs ! i \<le> p \<and> p < bs ! i + lmb_size cfg"
    then have "p \<in> {bs ! i ..< bs ! i + lmb_size cfg} \<inter> {bs ! b ..< bs ! b + lmb_size cfg}" using assms(3,4) by simp
    moreover have "{bs ! i ..< bs ! i + lmb_size cfg} \<inter> {bs ! b ..< bs ! b + lmb_size cfg} = {}"
      using assms(1,2) that unfolding bases_apart_def by (metis less_trans nat_neq_iff)
    ultimately show False by blast
  qed
  with find_buffer_found [OF assms(2-4), of 0] show ?thesis by simp
qed

text \<open>The peer's reaction to one message or one flip request on buffer \<open>b\<close>.\<close>

lemma queue_flip_ack_ok:
  assumes "b < 2 ^ 32"
  shows "\<exists>nd' ep'. queue_flip_ack nd ep newp b = Inr (nd', ep', queues_empty ep) \<and>
    new_acks nd' ep ep' = [b] \<and> lmb_r_counts ep' = lmb_r_counts ep \<and> lmb_r_bases ep' = lmb_r_bases ep"
proof -
  have "unat (of_nat b :: 32 word) = b"
    using assms by (simp add: unsigned_of_nat take_bit_nat_eq_self)
  then show ?thesis
    by (simp add: queue_flip_ack_def OutgoingMessage_construct_def new_acks_def)
qed

lemma new_acks_counts: "new_acks nd (ep\<lparr>lmb_r_counts := xs\<rparr>) ep' = new_acks nd ep ep'"
  by (simp add: new_acks_def)

lemma new_acks_same [simp]: "new_acks nd ep (ep\<lparr>lmb_r_counts := xs\<rparr>) = []"
  by (simp add: new_acks_def)

lemma handle_data_effect:
  assumes sh: "flip_shape cfg s" and b: "b < num_lmbs cfg"
    and d: "lmb_w_bases (fl_snd s) ! b \<le> d" "d < lmb_w_bases (fl_snd s) ! b + lmb_size cfg"
    and h: "ep_handle_long_msgptr cfg (fl_node s) (fl_rcv s) newp d = Inr (nd', rcv', e)"
  shows "lmb_r_counts rcv' = (lmb_r_counts (fl_rcv s))[b := lmb_r_counts (fl_rcv s) ! b + 1]"
    "lmb_r_bases rcv' = lmb_r_bases (fl_rcv s)"
    "new_acks nd' (fl_rcv s) rcv' = (if lmb_r_counts (fl_rcv s) ! b + 1 = 0 then [b] else [])"
proof -
  let ?ep1 = "(fl_rcv s)\<lparr>lmb_r_counts := (lmb_r_counts (fl_rcv s))[b := lmb_r_counts (fl_rcv s) ! b + 1]\<rparr>"
  have f: "find_buffer (lmb_size cfg) (lmb_r_bases (fl_rcv s)) d 0 = Some b"
    using sh b d by (intro find_buffer_apart) (auto simp: flip_shape_def)
  have len: "b < length (lmb_r_counts (fl_rcv s))" using sh b by (simp add: flip_shape_def)
  have b32: "b < 2 ^ 32" using sh b by (simp add: flip_shape_def)
  have "lmb_r_counts rcv' = (lmb_r_counts (fl_rcv s))[b := lmb_r_counts (fl_rcv s) ! b + 1] \<and>
    lmb_r_bases rcv' = lmb_r_bases (fl_rcv s) \<and>
    new_acks nd' (fl_rcv s) rcv' = (if lmb_r_counts (fl_rcv s) ! b + 1 = 0 then [b] else [])"
    using h f len queue_flip_ack_ok [OF b32, of "fl_node s" ?ep1 newp]
    by (auto simp: ep_handle_long_msgptr_def Let_def new_acks_counts split: if_splits)
  then show "lmb_r_counts rcv' = (lmb_r_counts (fl_rcv s))[b := lmb_r_counts (fl_rcv s) ! b + 1]"
    "lmb_r_bases rcv' = lmb_r_bases (fl_rcv s)"
    "new_acks nd' (fl_rcv s) rcv' = (if lmb_r_counts (fl_rcv s) ! b + 1 = 0 then [b] else [])" by auto
qed

lemma handle_flip_effect:
  assumes sh: "flip_shape cfg s" and b: "b < num_lmbs cfg"
    and h: "ep_handle_flip_request (fl_node s) (fl_rcv s) newp b c = Inr (nd', rcv', e)"
  shows "lmb_r_counts rcv' = (lmb_r_counts (fl_rcv s))[b := lmb_r_counts (fl_rcv s) ! b - int c]"
    "lmb_r_bases rcv' = lmb_r_bases (fl_rcv s)"
    "new_acks nd' (fl_rcv s) rcv' = (if lmb_r_counts (fl_rcv s) ! b - int c = 0 then [b] else [])"
proof -
  let ?ep1 = "(fl_rcv s)\<lparr>lmb_r_counts := (lmb_r_counts (fl_rcv s))[b := lmb_r_counts (fl_rcv s) ! b - int c]\<rparr>"
  have len: "b < length (lmb_r_counts (fl_rcv s))" using sh b by (simp add: flip_shape_def)
  have b32: "b < 2 ^ 32" using sh b by (simp add: flip_shape_def)
  have "lmb_r_counts rcv' = (lmb_r_counts (fl_rcv s))[b := lmb_r_counts (fl_rcv s) ! b - int c] \<and>
    lmb_r_bases rcv' = lmb_r_bases (fl_rcv s) \<and>
    new_acks nd' (fl_rcv s) rcv' = (if lmb_r_counts (fl_rcv s) ! b - int c = 0 then [b] else [])"
    using h len queue_flip_ack_ok [OF b32, of "fl_node s" ?ep1 newp]
    by (auto simp: ep_handle_flip_request_def Let_def new_acks_counts split: if_splits)
  then show "lmb_r_counts rcv' = (lmb_r_counts (fl_rcv s))[b := lmb_r_counts (fl_rcv s) ! b - int c]"
    "lmb_r_bases rcv' = lmb_r_bases (fl_rcv s)"
    "new_acks nd' (fl_rcv s) rcv' = (if lmb_r_counts (fl_rcv s) ! b - int c = 0 then [b] else [])" by auto
qed

section \<open>Preservation\<close>

text \<open>The transitions of one buffer at the peer and on the arrival of an acknowledgement.\<close>

lemma life_data:
  "buffer_life av op cnt off (Suc d) f a r \<Longrightarrow>
     buffer_life av op cnt off d f (a + (if r + 1 = 0 then 1 else 0)) (r + 1)"
  by (cases f) (auto simp: buffer_life_def split: if_splits)

lemma life_flipreq:
  "buffer_life av op cnt off d (xs @ c # ys) a r \<Longrightarrow>
     buffer_life av op cnt off d (xs @ ys) (a + (if r - int c = 0 then 1 else 0)) (r - int c)"
  by (auto simp: buffer_life_def append_eq_Cons_conv split: if_splits)

lemma life_ack: "buffer_life av op cnt off d f (Suc a) r \<Longrightarrow> buffer_life True op cnt off d f a r"
  by (auto simp: buffer_life_def split: if_splits)

lemma construct_bases_apart:
  assumes "a < nodes" and "nodes * num_lmbs cfg * lmb_size cfg \<le> seg_size (segs b)"
    and "seg_addr (segs b) + seg_size (segs b) < 2 ^ 64"
  shows "bases_apart cfg (lmb_w_bases (ActiveMessageEndpoint_construct cfg segs a b))"
  unfolding bases_apart_def
proof (intro allI impI)
  let ?bs = "lmb_w_bases (ActiveMessageEndpoint_construct cfg segs a b)"
  fix i j assume ij: "i < length ?bs" "j < length ?bs" "i \<noteq> j"
  then have l: "i < num_lmbs cfg" "j < num_lmbs cfg" by (auto simp: ActiveMessageEndpoint_construct_def)
  have "?bs ! i = lmb_base cfg (seg_addr (segs b)) (seg_size (segs b)) a i"
    "?bs ! j = lmb_base cfg (seg_addr (segs b)) (seg_size (segs b)) a j"
    using l by (simp_all add: ActiveMessageEndpoint_construct_def)
  with lmb_apart [OF assms(1,1) l _ assms(2,3)] ij(3)
  show "{?bs ! i ..< ?bs ! i + lmb_size cfg} \<inter> {?bs ! j ..< ?bs ! j + lmb_size cfg} = {}" by simp
qed

lemma flip_inv_init:
  assumes "flip_init cfg s"
  shows "flip_inv cfg s"
proof -
  from assms obtain segs a b nodes where i: "a < nodes" "b < nodes" "seg_size (segs a) = seg_size (segs b)"
    "nodes * num_lmbs cfg * lmb_size cfg \<le> seg_size (segs b)" "seg_addr (segs b) + seg_size (segs b) < 2 ^ 64"
    "fl_snd s = ActiveMessageEndpoint_construct cfg segs a b" "fl_rcv s = ActiveMessageEndpoint_construct cfg segs b a"
    and e: "0 < num_lmbs cfg" "num_lmbs cfg < 2 ^ 32" "fl_data s = []" "fl_flips s = []" "fl_acks s = []"
    by (auto simp: flip_init_def)
  have "flip_shape cfg s"
    using construct_bases_apart [where segs = segs, OF i(1,4,5)] i e
    by (simp add: flip_shape_def) (simp add: ActiveMessageEndpoint_construct_def)
  moreover have "data_ok cfg s" using e by (simp add: data_ok_def)
  moreover have "\<forall>b < num_lmbs cfg. buffer_ok s b"
    using i e by (simp add: buffer_ok_def buffer_life_def ActiveMessageEndpoint_construct_def)
  ultimately show ?thesis by (simp add: flip_inv_def)
qed

lemma step_send:
  assumes inv: "flip_inv cfg s" and av: "lmb_w_avail (fl_snd s) ! cur_write_lmb (fl_snd s)" and sz: "0 < sz"
    and fit: "cur_write_offset (fl_snd s) + sz \<le> lmb_size cfg" and p: "lmb_place (fl_snd s) sz = (snd', d)"
  shows "flip_inv cfg (s\<lparr>fl_snd := snd', fl_data := fl_data s @ [(cur_write_lmb (fl_snd s), d, sz)]\<rparr>)"
proof -
  let ?s = "s\<lparr>fl_snd := snd', fl_data := fl_data s @ [(cur_write_lmb (fl_snd s), d, sz)]\<rparr>"
  let ?c = "cur_write_lmb (fl_snd s)" and ?o = "cur_write_offset (fl_snd s)" and ?B = "lmb_w_bases (fl_snd s)"
  have q: "cur_write_lmb snd' = ?c" "lmb_w_avail snd' = lmb_w_avail (fl_snd s)" "lmb_w_bases snd' = ?B"
    "cur_write_count snd' = cur_write_count (fl_snd s) + 1" "d = ?B ! ?c + ?o" "?o + sz \<le> cur_write_offset snd'"
    using p align_128_props(1) [of "?o + sz"] by (auto simp: lmb_place_def)
  have sh: "flip_shape cfg s" and dk: "data_ok cfg s" using inv by (auto simp: flip_inv_def)
  have ap: "bases_apart cfg ?B" "length ?B = num_lmbs cfg" "?c < num_lmbs cfg" using sh by (auto simp: flip_shape_def)
  have "flip_shape cfg ?s" using sh q by (simp add: flip_shape_def)
  moreover have "data_range x \<inter> data_range (?c, d, sz) = {}" if x: "x \<in> set (fl_data s)" for x
  proof -
    obtain b e n where xe: "x = (b, e, n)" by (cases x)
    with dk x have e: "b < num_lmbs cfg" "?B ! b \<le> e" "e + n \<le> ?B ! b + lmb_size cfg"
      "b = ?c \<longrightarrow> e + n \<le> ?B ! ?c + ?o" using av by (auto simp: data_ok_def)
    show ?thesis
    proof (cases "b = ?c")
      case True
      with e q(5) show ?thesis by (auto simp: data_range_def xe)
    next
      case False
      have "{?B ! b ..< ?B ! b + lmb_size cfg} \<inter> {?B ! ?c ..< ?B ! ?c + lmb_size cfg} = {}"
        using ap e(1) False unfolding bases_apart_def by metis
      moreover have "data_range x \<subseteq> {?B ! b ..< ?B ! b + lmb_size cfg}"
        "data_range (?c, d, sz) \<subseteq> {?B ! ?c ..< ?B ! ?c + lmb_size cfg}"
        using e(2,3) fit q(5) by (auto simp: data_range_def xe)
      ultimately show ?thesis by blast
    qed
  qed
  then have "data_ok cfg ?s"
    using dk q sz fit ap(3) by (auto simp: data_ok_def sorted_wrt_append)
  moreover have "buffer_ok ?s b" if b: "b < num_lmbs cfg" for b
  proof -
    have ok: "buffer_ok s b" using inv b by (simp add: flip_inv_def)
    show ?thesis
    proof (cases "b = ?c")
      case True
      with ok q av show ?thesis by (simp add: buffer_ok_def buffer_life_def)
    next
      case False
      with ok q show ?thesis by (auto simp: buffer_ok_def buffer_life_def)
    qed
  qed
  ultimately show ?thesis by (simp add: flip_inv_def)
qed

lemma step_flip:
  assumes inv: "flip_inv cfg s" and av: "lmb_w_avail (fl_snd s) ! cur_write_lmb (fl_snd s)"
    and f: "lmb_flip cfg (fl_snd s) = (snd', w)"
  shows "flip_inv cfg (s\<lparr>fl_snd := snd',
           fl_flips := fl_flips s @ [(cur_write_lmb (fl_snd s), cur_write_count (fl_snd s))]\<rparr>)"
proof -
  let ?s = "s\<lparr>fl_snd := snd', fl_flips := fl_flips s @ [(cur_write_lmb (fl_snd s), cur_write_count (fl_snd s))]\<rparr>"
  let ?c = "cur_write_lmb (fl_snd s)"
  have q: "lmb_w_avail snd' = (lmb_w_avail (fl_snd s))[?c := False]" "lmb_w_bases snd' = lmb_w_bases (fl_snd s)"
    "cur_write_count snd' = 0" "cur_write_offset snd' = 0" "cur_write_lmb snd' = (?c + 1) mod num_lmbs cfg"
    using f by (auto simp: lmb_flip_def)
  have sh: "flip_shape cfg s" and dk: "data_ok cfg s" using inv by (auto simp: flip_inv_def)
  have c: "?c < num_lmbs cfg" "length (lmb_w_avail (fl_snd s)) = num_lmbs cfg" using sh by (auto simp: flip_shape_def)
  have ok: "buffer_ok s b" if "b < num_lmbs cfg" for b using inv that by (simp add: flip_inv_def)
  have n: "(?c + 1) mod num_lmbs cfg < num_lmbs cfg" using c by simp
  have "flip_shape cfg ?s" using sh q c n by (auto simp: flip_shape_def)
  moreover have bk: "buffer_ok ?s b" if b: "b < num_lmbs cfg" for b
    using ok [OF b] q c b av by (auto simp: buffer_ok_def buffer_life_def nth_list_update)
  moreover have "data_ok cfg ?s"
  proof -
    have "length (on_buffer b (fl_data s)) = 0" if b: "b = cur_write_lmb snd'" "lmb_w_avail snd' ! b" for b
    proof -
      have "int (length (on_buffer b (fl_data s))) + lmb_r_counts (fl_rcv s) ! b = 0 \<and> 0 \<le> lmb_r_counts (fl_rcv s) ! b"
        using ok [of b] b q c n by (auto simp: buffer_ok_def buffer_life_def nth_list_update split: if_splits)
      then show ?thesis by linarith
    qed
    then have "b \<noteq> cur_write_lmb snd' \<or> \<not> lmb_w_avail snd' ! b" if "(b, e, k) \<in> set (fl_data s)" for b e k
      using that by (force simp: on_buffer_def filter_empty_conv)
    with dk q(2) show ?thesis by (auto simp: data_ok_def)
  qed
  ultimately show ?thesis by (simp add: flip_inv_def)
qed

lemma data_ok_remove:
  assumes "data_ok cfg s" and "fl_data s = xs @ y # ys" and "fl_snd t = fl_snd s" and "fl_data t = xs @ ys"
  shows "data_ok cfg t"
  using assms by (auto simp: data_ok_def sorted_wrt_append)

lemma step_handle:
  assumes inv: "flip_inv cfg s" and x: "fl_data s = xs @ (b, d, sz) # ys"
    and h: "ep_handle_long_msgptr cfg (fl_node s) (fl_rcv s) newp d = Inr (nd', rcv', e)"
  shows "flip_inv cfg (s\<lparr>fl_rcv := rcv', fl_node := nd', fl_data := xs @ ys,
           fl_acks := fl_acks s @ new_acks nd' (fl_rcv s) rcv'\<rparr>)"
proof -
  let ?s = "s\<lparr>fl_rcv := rcv', fl_node := nd', fl_data := xs @ ys, fl_acks := fl_acks s @ new_acks nd' (fl_rcv s) rcv'\<rparr>"
  have sh: "flip_shape cfg s" and dk: "data_ok cfg s" using inv by (auto simp: flip_inv_def)
  have b: "b < num_lmbs cfg" "lmb_w_bases (fl_snd s) ! b \<le> d" "d < lmb_w_bases (fl_snd s) ! b + lmb_size cfg"
    using dk x by (auto simp: data_ok_def)
  note E = handle_data_effect [OF sh b h]
  have len: "length (lmb_r_counts (fl_rcv s)) = num_lmbs cfg" using sh by (simp add: flip_shape_def)
  have "flip_shape cfg ?s" using sh b E by (auto simp: flip_shape_def)
  moreover have "data_ok cfg ?s" by (rule data_ok_remove [OF dk x]) simp_all
  moreover have "buffer_ok ?s k" if k: "k < num_lmbs cfg" for k
  proof -
    have ok: "buffer_ok s k" using inv k by (simp add: flip_inv_def)
    show ?thesis
    proof (cases "k = b")
      case False
      with ok x E b len show ?thesis by (simp add: buffer_ok_def)
    next
      case True
      have "length (on_buffer b (fl_data s)) = Suc (length (on_buffer b (xs @ ys)))" by (simp add: x)
      with ok True E b len show ?thesis
        using life_data by (fastforce simp: buffer_ok_def)
    qed
  qed
  ultimately show ?thesis by (simp add: flip_inv_def)
qed

lemma step_flipreq:
  assumes inv: "flip_inv cfg s" and x: "fl_flips s = xs @ (b, c) # ys"
    and h: "ep_handle_flip_request (fl_node s) (fl_rcv s) newp b c = Inr (nd', rcv', e)"
  shows "flip_inv cfg (s\<lparr>fl_rcv := rcv', fl_node := nd', fl_flips := xs @ ys,
           fl_acks := fl_acks s @ new_acks nd' (fl_rcv s) rcv'\<rparr>)"
proof -
  let ?s = "s\<lparr>fl_rcv := rcv', fl_node := nd', fl_flips := xs @ ys, fl_acks := fl_acks s @ new_acks nd' (fl_rcv s) rcv'\<rparr>"
  have sh: "flip_shape cfg s" and dk: "data_ok cfg s" using inv by (auto simp: flip_inv_def)
  have b: "b < num_lmbs cfg" using sh x by (auto simp: flip_shape_def)
  note E = handle_flip_effect [OF sh b h]
  have len: "length (lmb_r_counts (fl_rcv s)) = num_lmbs cfg" using sh by (simp add: flip_shape_def)
  have "flip_shape cfg ?s" using sh b E x by (auto simp: flip_shape_def)
  moreover have "data_ok cfg ?s" using dk by (simp add: data_ok_def)
  moreover have "buffer_ok ?s k" if k: "k < num_lmbs cfg" for k
  proof -
    have ok: "buffer_ok s k" using inv k by (simp add: flip_inv_def)
    show ?thesis
    proof (cases "k = b")
      case False
      with ok x E b len show ?thesis by (simp add: buffer_ok_def)
    next
      case True
      have "on_buffer b (fl_flips s) = on_buffer b xs @ c # on_buffer b ys" by (simp add: x)
      with ok True E b len show ?thesis
        using life_flipreq by (fastforce simp: buffer_ok_def)
    qed
  qed
  ultimately show ?thesis by (simp add: flip_inv_def)
qed

lemma step_ack:
  assumes inv: "flip_inv cfg s" and x: "fl_acks s = xs @ b # ys" and h: "ep_handle_flip_ack (fl_snd s) b = Inr snd'"
  shows "flip_inv cfg (s\<lparr>fl_snd := snd', fl_acks := xs @ ys\<rparr>)"
proof -
  let ?s = "s\<lparr>fl_snd := snd', fl_acks := xs @ ys\<rparr>"
  have sh: "flip_shape cfg s" and dk: "data_ok cfg s" using inv by (auto simp: flip_inv_def)
  have b: "b < num_lmbs cfg" using sh x by (auto simp: flip_shape_def)
  have len: "length (lmb_w_avail (fl_snd s)) = num_lmbs cfg" using sh by (simp add: flip_shape_def)
  have q: "snd' = (fl_snd s)\<lparr>lmb_w_avail := (lmb_w_avail (fl_snd s))[b := True]\<rparr>"
    using h by (auto simp: ep_handle_flip_ack_def split: if_splits)
  have okb: "buffer_ok s b" using inv b by (simp add: flip_inv_def)
  then have d0: "on_buffer b (fl_data s) = []" using x by (auto simp: buffer_ok_def buffer_life_def split: if_splits)
  have "flip_shape cfg ?s" using sh b q x by (auto simp: flip_shape_def)
  moreover have "data_ok cfg ?s"
  proof -
    have "k \<noteq> b" if "(k, e, n) \<in> set (fl_data s)" for k e n
      using d0 that by (auto simp: on_buffer_def filter_empty_conv)
    with dk q len b show ?thesis by (fastforce simp: data_ok_def nth_list_update)
  qed
  moreover have "buffer_ok ?s k" if k: "k < num_lmbs cfg" for k
  proof -
    have ok: "buffer_ok s k" using inv k by (simp add: flip_inv_def)
    show ?thesis
    proof (cases "k = b")
      case False
      with ok x q b len show ?thesis by (simp add: buffer_ok_def)
    next
      case True
      with ok x q b len show ?thesis using life_ack by (fastforce simp: buffer_ok_def)
    qed
  qed
  ultimately show ?thesis by (simp add: flip_inv_def)
qed

lemma flip_inv_step:
  assumes inv: "flip_inv cfg s" and st: "flip_step cfg s t"
  shows "flip_inv cfg t"
  using st
proof cases
  case fl_send then show ?thesis using step_send [OF inv] by blast
next
  case fl_flip then show ?thesis using step_flip [OF inv] by blast
next
  case fl_handle then show ?thesis using step_handle [OF inv] by blast
next
  case fl_flipreq then show ?thesis using step_flipreq [OF inv] by blast
next
  case fl_ack then show ?thesis using step_ack [OF inv] by blast
qed

interpretation flip_sys: step_system "flip_init cfg" "flip_step cfg" "flip_inv cfg" for cfg
  by unfold_locales (rule flip_inv_init flip_inv_step; assumption)+

text \<open>Example: two buffers of 256 bytes; one message of 100 bytes is sent, then the buffer is flipped.\<close>

definition flip_demo_cfg :: am_config where
  "flip_demo_cfg = \<lparr>num_lmbs = 2, lmb_size = 256, max_long_req = 64, max_medium = 64\<rparr>"

definition flip_demo0 :: flip_state where
  "flip_demo0 = \<lparr>
     fl_snd = ActiveMessageEndpoint_construct flip_demo_cfg (\<lambda>_. \<lparr>seg_addr = 4096, seg_size = 1024\<rparr>) 0 1,
     fl_rcv = ActiveMessageEndpoint_construct flip_demo_cfg (\<lambda>_. \<lparr>seg_addr = 4096, seg_size = 1024\<rparr>) 1 0,
     fl_node = demo_node, fl_data = [], fl_flips = [], fl_acks = []\<rparr>"

definition flip_demo1 :: flip_state where
  "flip_demo1 = flip_demo0\<lparr>fl_snd := fst (lmb_place (fl_snd flip_demo0) 100),
     fl_data := [(0, snd (lmb_place (fl_snd flip_demo0) 100), 100)]\<rparr>"

definition flip_demo2 :: flip_state where
  "flip_demo2 = flip_demo1\<lparr>fl_snd := fst (lmb_flip flip_demo_cfg (fl_snd flip_demo1)), fl_flips := [(0, 1)]\<rparr>"

lemmas flip_demo_eval = flip_demo_cfg_def flip_demo0_def ActiveMessageEndpoint_construct_def lmb_place_def
  lmb_flip_def align_128_def numeral_2_eq_2

lemma flip_demo0_reached: "reaches (flip_init flip_demo_cfg) (flip_step flip_demo_cfg) flip_demo0"
  by (rule reaches_init, unfold flip_init_def, rule conjI,
      rule exI [of _ "\<lambda>_. \<lparr>seg_addr = 4096, seg_size = 1024\<rparr>"], rule exI [of _ 0], rule exI [of _ 1], rule exI [of _ 2])
    (simp_all add: flip_demo0_def flip_demo_cfg_def)

lemma flip_demo1_step: "flip_step flip_demo_cfg flip_demo0 flip_demo1"
  using fl_send [of flip_demo0 100 flip_demo_cfg]
  by (simp add: flip_demo1_def flip_demo_eval)

lemma flip_demo2_step: "flip_step flip_demo_cfg flip_demo1 flip_demo2"
  using fl_flip [of flip_demo1 200 flip_demo_cfg]
  by (simp add: flip_demo1_def flip_demo2_def flip_demo_eval)

lemma flip_demo2_reached: "reaches (flip_init flip_demo_cfg) (flip_step flip_demo_cfg) flip_demo2"
  using reaches_step [OF reaches_step [OF flip_demo0_reached flip_demo1_step] flip_demo2_step] .

section \<open>Properties\<close>





end
