(* ===== verification/Gasnet_Memory.thy ===== *)
theory Gasnet_Memory
  imports Local_Alloc
begin

text \<open>
  \<^verbatim>\<open>GASNetMemory\<close> (\<^verbatim>\<open>src/templates/mem_impl.cc\<close>, built with GASNet): one memory striped over the
  segments of all nodes in blocks of 1024 bytes.  \<^verbatim>\<open>gasnet_get\<close> and \<^verbatim>\<open>gasnet_put\<close> copy bytes
  between the memory of the node and the memory of another one; the non-blocking variants of the
  batch operations are taken to have their effect in the order of the calls.
\<close>

section \<open>State\<close>

definition MEMORY_STRIDE :: nat where
  "MEMORY_STRIDE = 1024"

record GASNetMemory =
  gm_impl :: MemoryImpl
  gm_num_nodes :: nat
  gm_segbases :: "node_id \<Rightarrow> addr"

type_synonym cluster = "node_id \<Rightarrow> memory"

definition GASNetMemory_construct :: "node_id \<Rightarrow> (node_id \<Rightarrow> addr \<times> nat) \<Rightarrow> nat \<Rightarrow> GASNetMemory outcome" where
  "GASNetMemory_construct max_node_id seginfos size_per_node =
     (let num_nodes = max_node_id + 1; impl = MemoryImpl_construct 0 MEMORY_STRIDE
      in if \<not> list_all (\<lambda>i. snd (seginfos i) \<ge> size_per_node) [0 ..< num_nodes] then Inl Assert_Failed
         else Inr \<lparr>gm_impl = impl\<lparr>mi_size := size_per_node * num_nodes,
                                  free_blocks := om_put 0 (size_per_node * num_nodes) (free_blocks impl)\<rparr>,
                   gm_num_nodes = num_nodes, gm_segbases = (\<lambda>i. fst (seginfos i))\<rparr>)"

text \<open>Only node 0 allocates; \<open>remote_alloc\<close> is the answer of the owner to the others.\<close>

definition gm_alloc_bytes :: "node_id \<Rightarrow> (nat \<Rightarrow> int) \<Rightarrow> GASNetMemory \<Rightarrow> nat \<Rightarrow> int \<times> GASNetMemory" where
  "gm_alloc_bytes my_node_id remote_alloc gm sz =
     (if my_node_id = 0 then
        let (r, impl) = alloc_bytes_local (gm_impl gm) sz in (r, gm\<lparr>gm_impl := impl\<rparr>)
      else (remote_alloc sz, gm))"

definition gm_free_bytes :: "node_id \<Rightarrow> GASNetMemory \<Rightarrow> addr \<Rightarrow> nat \<Rightarrow> GASNetMemory outcome" where
  "gm_free_bytes my_node_id gm offset sz =
     (if my_node_id = 0 then
        obind (free_bytes_local (gm_impl gm) offset sz) (\<lambda>impl. Inr (gm\<lparr>gm_impl := impl\<rparr>))
      else Inl Assert_Failed)"

section \<open>Copying\<close>

text \<open>\<^verbatim>\<open>gasnet_get\<close> and \<^verbatim>\<open>gasnet_put\<close> for a node other than the caller, \<^verbatim>\<open>memcpy\<close> for itself.\<close>

definition fetch :: "node_id \<Rightarrow> cluster \<Rightarrow> addr \<Rightarrow> node_id \<Rightarrow> addr \<Rightarrow> nat \<Rightarrow> cluster" where
  "fetch my c dst node src n =
     (if node \<noteq> my then c(my := write_bytes (c my) dst (read_bytes (c node) src n))
      else c(my := memcpy (c my) dst src n))"

definition store :: "node_id \<Rightarrow> cluster \<Rightarrow> node_id \<Rightarrow> addr \<Rightarrow> addr \<Rightarrow> nat \<Rightarrow> cluster" where
  "store my c node dst src n =
     (if node \<noteq> my then c(node := write_bytes (c node) dst (read_bytes (c my) src n))
      else c(my := memcpy (c my) dst src n))"

function gm_get_bytes :: "node_id \<Rightarrow> GASNetMemory \<Rightarrow> cluster \<Rightarrow> nat \<Rightarrow> addr \<Rightarrow> nat \<Rightarrow> cluster" where
  "gm_get_bytes my gm c offset dst_c sz =
     (if sz = 0 then c
      else
        let blkid = offset div MEMORY_STRIDE div gm_num_nodes gm;
            node = (offset div MEMORY_STRIDE) mod gm_num_nodes gm;
            blkoffset = offset mod MEMORY_STRIDE;
            chunk_size = (if MEMORY_STRIDE - blkoffset > sz then sz else MEMORY_STRIDE - blkoffset)
        in gm_get_bytes my gm
             (fetch my c dst_c node (gm_segbases gm node + blkid * MEMORY_STRIDE + blkoffset) chunk_size)
             (offset + chunk_size) (dst_c + chunk_size) (sz - chunk_size))"
  by pat_completeness auto

termination
  by (relation "measure (\<lambda>(my, gm, c, offset, dst, sz). sz)") (auto simp: MEMORY_STRIDE_def)

function gm_put_bytes :: "node_id \<Rightarrow> GASNetMemory \<Rightarrow> cluster \<Rightarrow> nat \<Rightarrow> addr \<Rightarrow> nat \<Rightarrow> cluster" where
  "gm_put_bytes my gm c offset src_c sz =
     (if sz = 0 then c
      else
        let blkid = offset div MEMORY_STRIDE div gm_num_nodes gm;
            node = (offset div MEMORY_STRIDE) mod gm_num_nodes gm;
            blkoffset = offset mod MEMORY_STRIDE;
            chunk_size = (if MEMORY_STRIDE - blkoffset > sz then sz else MEMORY_STRIDE - blkoffset)
        in gm_put_bytes my gm
             (store my c node (gm_segbases gm node + blkid * MEMORY_STRIDE + blkoffset) src_c chunk_size)
             (offset + chunk_size) (src_c + chunk_size) (sz - chunk_size))"
  by pat_completeness auto

termination
  by (relation "measure (\<lambda>(my, gm, c, offset, src, sz). sz)") (auto simp: MEMORY_STRIDE_def)

declare gm_get_bytes.simps [simp del] gm_put_bytes.simps [simp del]

definition gm_get_home_node :: "GASNetMemory \<Rightarrow> nat \<Rightarrow> nat \<Rightarrow> int" where
  "gm_get_home_node gm offset sz =
     (let start_blk = offset div MEMORY_STRIDE;
          end_blk = ((offset + sz + 2 ^ 64 - 1) mod 2 ^ 64) div MEMORY_STRIDE
      in if start_blk \<noteq> end_blk then - 1 else int (start_blk mod gm_num_nodes gm))"

text \<open>
  The batch operations walk from block to block instead of dividing in every round.  The block
  offset is always smaller than the stride, so a round copies at least one byte; the test for an empty
  round only makes the recursion total.
\<close>

function get_blocks :: "node_id \<Rightarrow> GASNetMemory \<Rightarrow> cluster \<Rightarrow> nat \<Rightarrow> nat \<Rightarrow> nat \<Rightarrow> addr \<Rightarrow> nat \<Rightarrow> cluster" where
  "get_blocks my gm c blkid node blkoffset dst_c sz =
     (if sz = 0 then c
      else
        let chunk_size = (if MEMORY_STRIDE - blkoffset > sz then sz else MEMORY_STRIDE - blkoffset);
            src_c = gm_segbases gm node + blkid * MEMORY_STRIDE + blkoffset;
            node' = (node + 1) mod gm_num_nodes gm
        in if chunk_size = 0 then c
           else get_blocks my gm (fetch my c dst_c node src_c chunk_size)
                  (if node' = 0 then blkid + 1 else blkid) node' 0 (dst_c + chunk_size) (sz - chunk_size))"
  by pat_completeness auto

termination
  by (relation "measure (\<lambda>(my, gm, c, blkid, node, blkoffset, dst, sz). sz)") (auto simp: MEMORY_STRIDE_def)

function put_blocks :: "node_id \<Rightarrow> GASNetMemory \<Rightarrow> cluster \<Rightarrow> nat \<Rightarrow> nat \<Rightarrow> nat \<Rightarrow> addr \<Rightarrow> nat \<Rightarrow> cluster" where
  "put_blocks my gm c blkid node blkoffset src_c sz =
     (if sz = 0 then c
      else
        let chunk_size = (if MEMORY_STRIDE - blkoffset > sz then sz else MEMORY_STRIDE - blkoffset);
            dst_c = gm_segbases gm node + blkid * MEMORY_STRIDE + blkoffset;
            node' = (node + 1) mod gm_num_nodes gm
        in if chunk_size = 0 then c
           else put_blocks my gm (store my c node dst_c src_c chunk_size)
                  (if node' = 0 then blkid + 1 else blkid) node' 0 (src_c + chunk_size) (sz - chunk_size))"
  by pat_completeness auto

termination
  by (relation "measure (\<lambda>(my, gm, c, blkid, node, blkoffset, src, sz). sz)") (auto simp: MEMORY_STRIDE_def)

declare get_blocks.simps [simp del] put_blocks.simps [simp del]

fun get_batch :: "node_id \<Rightarrow> GASNetMemory \<Rightarrow> cluster \<Rightarrow> (nat \<times> addr \<times> nat) list \<Rightarrow> cluster" where
  "get_batch my gm c [] = c"
| "get_batch my gm c ((offset, dst, sz) # batch) =
     get_batch my gm
       (get_blocks my gm c (offset div MEMORY_STRIDE div gm_num_nodes gm) ((offset div MEMORY_STRIDE) mod gm_num_nodes gm)
          (offset mod MEMORY_STRIDE) dst sz) batch"

fun put_batch :: "node_id \<Rightarrow> GASNetMemory \<Rightarrow> cluster \<Rightarrow> (nat \<times> addr \<times> nat) list \<Rightarrow> cluster" where
  "put_batch my gm c [] = c"
| "put_batch my gm c ((offset, src, sz) # batch) =
     put_batch my gm
       (put_blocks my gm c (offset div MEMORY_STRIDE div gm_num_nodes gm) ((offset div MEMORY_STRIDE) mod gm_num_nodes gm)
          (offset mod MEMORY_STRIDE) src sz) batch"

section \<open>The striped address map\<close>

definition stripe_node :: "GASNetMemory \<Rightarrow> nat \<Rightarrow> node_id" where
  "stripe_node gm off = (off div MEMORY_STRIDE) mod gm_num_nodes gm"

definition stripe_rel :: "GASNetMemory \<Rightarrow> nat \<Rightarrow> nat" where
  "stripe_rel gm off = off div MEMORY_STRIDE div gm_num_nodes gm * MEMORY_STRIDE + off mod MEMORY_STRIDE"

definition stripe_addr :: "GASNetMemory \<Rightarrow> nat \<Rightarrow> addr" where
  "stripe_addr gm off = gm_segbases gm (stripe_node gm off) + stripe_rel gm off"

definition chunk_at :: "nat \<Rightarrow> nat \<Rightarrow> nat" where
  "chunk_at off sz = (if MEMORY_STRIDE - off mod MEMORY_STRIDE > sz then sz else MEMORY_STRIDE - off mod MEMORY_STRIDE)"

lemma stride_pos [simp]: "0 < MEMORY_STRIDE" by (simp add: MEMORY_STRIDE_def)

lemma chunk_at_le: "chunk_at off sz \<le> sz" "chunk_at off sz \<le> MEMORY_STRIDE - off mod MEMORY_STRIDE"
  by (auto simp: chunk_at_def)

lemma chunk_at_pos: "0 < sz \<Longrightarrow> 0 < chunk_at off sz"
  using mod_less_divisor [OF stride_pos, of off] by (auto simp: chunk_at_def)

lemma same_block:
  assumes "i < MEMORY_STRIDE - off mod MEMORY_STRIDE"
  shows "(off + i) div MEMORY_STRIDE = off div MEMORY_STRIDE" "(off + i) mod MEMORY_STRIDE = off mod MEMORY_STRIDE + i"
proof -
  have "off + i = off div MEMORY_STRIDE * MEMORY_STRIDE + (off mod MEMORY_STRIDE + i)" by simp
  moreover have "off mod MEMORY_STRIDE + i < MEMORY_STRIDE" using assms by linarith
  ultimately show "(off + i) div MEMORY_STRIDE = off div MEMORY_STRIDE"
    "(off + i) mod MEMORY_STRIDE = off mod MEMORY_STRIDE + i"
    by (metis add.commute add.right_neutral div_less div_mult_self1 stride_pos less_numeral_extra(3),
        metis add.commute mod_less mod_mult_self1)
qed

lemma stripe_same_block:
  assumes "i < MEMORY_STRIDE - off mod MEMORY_STRIDE"
  shows "stripe_node gm (off + i) = stripe_node gm off" "stripe_addr gm (off + i) = stripe_addr gm off + i"
  using same_block [OF assms] by (simp_all add: stripe_node_def stripe_addr_def stripe_rel_def)

lemma stripe_inj:
  assumes "stripe_node gm x = stripe_node gm y" and "stripe_addr gm x = stripe_addr gm y"
  shows "x = y"
proof -
  let ?n = "gm_num_nodes gm"
  have r: "x div MEMORY_STRIDE div ?n * MEMORY_STRIDE + x mod MEMORY_STRIDE =
           y div MEMORY_STRIDE div ?n * MEMORY_STRIDE + y mod MEMORY_STRIDE"
    using assms by (simp add: stripe_addr_def stripe_rel_def)
  have m: "x mod MEMORY_STRIDE = y mod MEMORY_STRIDE" using arg_cong [OF r, of "\<lambda>z. z mod MEMORY_STRIDE"] by simp
  with r have "x div MEMORY_STRIDE div ?n = y div MEMORY_STRIDE div ?n" using stride_pos by auto
  with assms(1) have "x div MEMORY_STRIDE = y div MEMORY_STRIDE"
    unfolding stripe_node_def by (metis div_mult_mod_eq)
  with m show ?thesis by (metis div_mult_mod_eq)
qed

lemma stripe_rel_less:
  assumes "MEMORY_STRIDE dvd size_per_node" and "off < size_per_node * gm_num_nodes gm"
  shows "stripe_rel gm off < size_per_node"
proof -
  obtain k where k: "size_per_node = MEMORY_STRIDE * k" using assms(1) by (elim dvdE)
  have "off div MEMORY_STRIDE < k * gm_num_nodes gm"
    using assms(2) unfolding k by (simp add: less_mult_imp_div_less mult.commute mult.left_commute)
  then have "off div MEMORY_STRIDE div gm_num_nodes gm < k" by (rule less_mult_imp_div_less)
  then have "(off div MEMORY_STRIDE div gm_num_nodes gm + 1) * MEMORY_STRIDE \<le> k * MEMORY_STRIDE"
    by (intro mult_le_mono1) simp
  moreover have "off mod MEMORY_STRIDE < MEMORY_STRIDE" by (rule mod_less_divisor) simp
  ultimately show ?thesis unfolding stripe_rel_def k add_mult_distrib mult.commute [of MEMORY_STRIDE k] by linarith
qed

section \<open>Copying follows the address map\<close>

definition gread :: "GASNetMemory \<Rightarrow> cluster \<Rightarrow> nat \<Rightarrow> nat \<Rightarrow> byte list" where
  "gread gm c off n = map (\<lambda>i. c (stripe_node gm (off + i)) (stripe_addr gm (off + i))) [0 ..< n]"

fun gwrite :: "GASNetMemory \<Rightarrow> cluster \<Rightarrow> nat \<Rightarrow> byte list \<Rightarrow> cluster" where
  "gwrite gm c off [] = c"
| "gwrite gm c off (x # xs) =
     gwrite gm (c(stripe_node gm off := (c (stripe_node gm off))(stripe_addr gm off := x))) (Suc off) xs"

lemma get_bytes_step:
  "gm_get_bytes my gm c off dst sz =
     (if sz = 0 then c
      else gm_get_bytes my gm (fetch my c dst (stripe_node gm off) (stripe_addr gm off) (chunk_at off sz))
             (off + chunk_at off sz) (dst + chunk_at off sz) (sz - chunk_at off sz))"
  by (subst gm_get_bytes.simps) (simp add: Let_def stripe_node_def stripe_addr_def stripe_rel_def chunk_at_def add.assoc)

lemma put_bytes_step:
  "gm_put_bytes my gm c off src sz =
     (if sz = 0 then c
      else gm_put_bytes my gm (store my c (stripe_node gm off) (stripe_addr gm off) src (chunk_at off sz))
             (off + chunk_at off sz) (src + chunk_at off sz) (sz - chunk_at off sz))"
  by (subst gm_put_bytes.simps) (simp add: Let_def stripe_node_def stripe_addr_def stripe_rel_def chunk_at_def add.assoc)

lemma gread_append: "gread gm c off (n + k) = gread gm c off n @ gread gm c (off + n) k"
  by (rule nth_equalityI) (auto simp: gread_def nth_append add.assoc)

lemma gread_chunk:
  assumes "n \<le> MEMORY_STRIDE - off mod MEMORY_STRIDE"
  shows "gread gm c off n = read_bytes (c (stripe_node gm off)) (stripe_addr gm off) n"
proof (rule nth_equalityI)
  fix i assume "i < length (gread gm c off n)"
  then have "i < n" by (simp add: gread_def)
  with assms stripe_same_block [of i off gm] show "gread gm c off n ! i = read_bytes (c (stripe_node gm off)) (stripe_addr gm off) n ! i"
    by (simp add: gread_def nth_read_bytes)
qed (simp add: gread_def)

lemma gwrite_append: "gwrite gm c off (xs @ ys) = gwrite gm (gwrite gm c off xs) (off + length xs) ys"
  by (induction xs arbitrary: c off) simp_all

lemma write_bytes_snoc: "write_bytes m a (xs @ [x]) = (write_bytes m a xs)(a + length xs := x)"
  by (rule ext) (auto simp: write_bytes_def nth_append less_Suc_eq)

lemma gwrite_chunk:
  assumes "length xs \<le> MEMORY_STRIDE - off mod MEMORY_STRIDE"
  shows "gwrite gm c off xs = c(stripe_node gm off := write_bytes (c (stripe_node gm off)) (stripe_addr gm off) xs)"
  using assms
proof (induction xs rule: rev_induct)
  case (snoc x xs)
  then have "length xs < MEMORY_STRIDE - off mod MEMORY_STRIDE" by simp
  note st = stripe_same_block [OF this, of gm]
  have ih: "gwrite gm c off xs = c(stripe_node gm off := write_bytes (c (stripe_node gm off)) (stripe_addr gm off) xs)"
    using snoc.prems by (intro snoc.IH) simp
  show ?case by (simp only: gwrite_append ih gwrite.simps st fun_upd_same fun_upd_upd write_bytes_snoc)
qed simp

text \<open>Outside the segment: a range of the node's own memory that no byte of the striped memory uses.\<close>

definition off_segment :: "GASNetMemory \<Rightarrow> node_id \<Rightarrow> addr set \<Rightarrow> bool" where
  "off_segment gm my A \<longleftrightarrow> (\<forall>off. off < mi_size (gm_impl gm) \<longrightarrow> stripe_node gm off = my \<longrightarrow> stripe_addr gm off \<notin> A)"

lemma off_segment_sub: "off_segment gm my A \<Longrightarrow> B \<subseteq> A \<Longrightarrow> off_segment gm my B"
  by (auto simp: off_segment_def)

lemma gread_cong:
  assumes "off_segment gm my A" and "\<And>a. a \<notin> A \<Longrightarrow> m a = c my a" and "off + n \<le> mi_size (gm_impl gm)"
  shows "gread gm (c(my := m)) off n = gread gm c off n"
  using assms by (auto simp: gread_def off_segment_def)

lemma get_bytes_is_gread:
  assumes "off_segment gm my {dst ..< dst + sz}" and "off + sz \<le> mi_size (gm_impl gm)"
  shows "gm_get_bytes my gm c off dst sz = c(my := write_bytes (c my) dst (gread gm c off sz))"
  using assms
proof (induction sz arbitrary: c off dst rule: less_induct)
  case (less sz)
  show ?case
  proof (cases "sz = 0")
    case True
    then show ?thesis by (simp add: get_bytes_step [of my gm c off dst 0] gread_def)
  next
    case False
    define k where "k = chunk_at off sz"
    have k: "0 < k" "k \<le> sz" "k \<le> MEMORY_STRIDE - off mod MEMORY_STRIDE"
      using False chunk_at_pos [of sz off] chunk_at_le [of off sz] by (auto simp: k_def)
    define c1 where "c1 = fetch my c dst (stripe_node gm off) (stripe_addr gm off) k"
    have c1: "c1 = c(my := write_bytes (c my) dst (gread gm c off k))"
      by (simp add: c1_def fetch_def gread_chunk [OF k(3)] memcpy_def)
    have len: "length (gread gm c off k) = k" by (simp add: gread_def)
    have "off_segment gm my {dst ..< dst + k}" using less.prems(1) k(2) by (auto elim!: off_segment_sub)
    then have same: "gread gm c1 (off + k) (sz - k) = gread gm c (off + k) (sz - k)"
      unfolding c1 using less.prems(2) k(2) len
      by (intro gread_cong) (auto intro: write_bytes_outside)
    have "gm_get_bytes my gm c1 (off + k) (dst + k) (sz - k) =
        c1(my := write_bytes (c1 my) (dst + k) (gread gm c1 (off + k) (sz - k)))"
      using k less.prems by (intro less.IH) (auto elim!: off_segment_sub)
    also have "\<dots> = c(my := write_bytes (c my) dst (gread gm c off k @ gread gm c (off + k) (sz - k)))"
      unfolding same write_bytes_append len by (simp add: c1)
    also have "gread gm c off k @ gread gm c (off + k) (sz - k) = gread gm c off sz"
      using gread_append [of gm c off k "sz - k"] k(2) by simp
    finally show ?thesis using False by (simp add: get_bytes_step [of my gm c off dst sz] k_def [symmetric] c1_def [symmetric])
  qed
qed

lemma gwrite_outside:
  "(\<And>i. i < length xs \<Longrightarrow> stripe_node gm (off + i) = n \<Longrightarrow> stripe_addr gm (off + i) \<noteq> a) \<Longrightarrow>
     gwrite gm c off xs n a = c n a"
proof (induction xs arbitrary: c off)
  case (Cons x xs)
  have "gwrite gm c' (Suc off) xs n a = c' n a" for c'
    using Cons.prems [of "Suc i" for i] by (intro Cons.IH) auto
  with Cons.prems [of 0] show ?case by auto
qed simp

lemma gwrite_inside:
  "i < length xs \<Longrightarrow> gwrite gm c off xs (stripe_node gm (off + i)) (stripe_addr gm (off + i)) = xs ! i"
proof (induction xs arbitrary: c off i)
  case (Cons x xs)
  show ?case
  proof (cases i)
    case 0
    have "gwrite gm c' (Suc off) xs (stripe_node gm off) (stripe_addr gm off) = c' (stripe_node gm off) (stripe_addr gm off)" for c'
      using stripe_inj [of gm "Suc off + j" off for j] by (intro gwrite_outside) force
    with 0 show ?thesis by simp
  next
    case (Suc j)
    with Cons.IH [of j _ "Suc off"] Cons.prems show ?thesis by simp
  qed
qed simp

lemma put_bytes_is_gwrite:
  assumes "off_segment gm my {src ..< src + sz}" and "off + sz \<le> mi_size (gm_impl gm)"
  shows "gm_put_bytes my gm c off src sz = gwrite gm c off (read_bytes (c my) src sz)"
  using assms
proof (induction sz arbitrary: c off src rule: less_induct)
  case (less sz)
  show ?case
  proof (cases "sz = 0")
    case True
    then show ?thesis by (simp add: put_bytes_step [of my gm c off src 0])
  next
    case False
    define k where "k = chunk_at off sz"
    have k: "0 < k" "k \<le> sz" "k \<le> MEMORY_STRIDE - off mod MEMORY_STRIDE"
      using False chunk_at_pos [of sz off] chunk_at_le [of off sz] by (auto simp: k_def)
    define c1 where "c1 = store my c (stripe_node gm off) (stripe_addr gm off) src k"
    have c1: "c1 = gwrite gm c off (read_bytes (c my) src k)"
      using k(3) by (auto simp: c1_def store_def gwrite_chunk memcpy_def)
    have "c1 my a = c my a" if "a \<in> {src ..< src + sz}" for a
      unfolding c1
    proof (rule gwrite_outside)
      fix i assume "i < length (read_bytes (c my) src k)" "stripe_node gm (off + i) = my"
      with less.prems k(2) that show "stripe_addr gm (off + i) \<noteq> a" by (auto simp: off_segment_def)
    qed
    then have same: "read_bytes (c1 my) (src + k) (sz - k) = read_bytes (c my) (src + k) (sz - k)"
      using k(2) by (intro read_bytes_cong) auto
    have "gm_put_bytes my gm c1 (off + k) (src + k) (sz - k) =
        gwrite gm c1 (off + k) (read_bytes (c1 my) (src + k) (sz - k))"
      using k less.prems by (intro less.IH) (auto elim!: off_segment_sub)
    also have "\<dots> = gwrite gm c off (read_bytes (c my) src k @ read_bytes (c my) (src + k) (sz - k))"
      unfolding same gwrite_append by (simp add: c1)
    also have "read_bytes (c my) src k @ read_bytes (c my) (src + k) (sz - k) = read_bytes (c my) src sz"
      using read_bytes_append [of "c my" src k "sz - k"] k(2) by simp
    finally show ?thesis using False by (simp add: put_bytes_step [of my gm c off src sz] k_def [symmetric] c1_def [symmetric])
  qed
qed

lemma gread_gwrite: "gread gm (gwrite gm c off xs) off (length xs) = xs"
  by (rule nth_equalityI) (simp_all add: gread_def gwrite_inside)

section \<open>Batches\<close>

lemma next_block:
  assumes k: "k = MEMORY_STRIDE - off mod MEMORY_STRIDE"
  shows "(off + k) mod MEMORY_STRIDE = 0"
    "(stripe_node gm off + 1) mod gm_num_nodes gm = stripe_node gm (off + k)"
    "(if stripe_node gm (off + k) = 0 then off div MEMORY_STRIDE div gm_num_nodes gm + 1
      else off div MEMORY_STRIDE div gm_num_nodes gm) = (off + k) div MEMORY_STRIDE div gm_num_nodes gm"
proof -
  have "off mod MEMORY_STRIDE < MEMORY_STRIDE" by (rule mod_less_divisor) simp
  then have e: "off + k = (off div MEMORY_STRIDE + 1) * MEMORY_STRIDE"
    unfolding k add_mult_distrib using div_mult_mod_eq [of off MEMORY_STRIDE] by linarith
  show "(off + k) mod MEMORY_STRIDE = 0" unfolding e by (rule mod_mult_self2_is_0)
  have q: "(off + k) div MEMORY_STRIDE = Suc (off div MEMORY_STRIDE)"
    unfolding e Suc_eq_plus1 by (rule nonzero_mult_div_cancel_right) (simp add: MEMORY_STRIDE_def)
  show "(stripe_node gm off + 1) mod gm_num_nodes gm = stripe_node gm (off + k)"
    unfolding stripe_node_def q by (simp add: mod_simps)
  show "(if stripe_node gm (off + k) = 0 then off div MEMORY_STRIDE div gm_num_nodes gm + 1
      else off div MEMORY_STRIDE div gm_num_nodes gm) = (off + k) div MEMORY_STRIDE div gm_num_nodes gm"
    unfolding stripe_node_def q by (simp add: div_Suc)
qed

lemma chunk_last_or_full:
  assumes "sz - chunk_at off sz \<noteq> 0"
  shows "chunk_at off sz = MEMORY_STRIDE - off mod MEMORY_STRIDE"
  using assms by (auto simp: chunk_at_def split: if_splits)

lemma get_blocks_is_get_bytes:
  "get_blocks my gm c (off div MEMORY_STRIDE div gm_num_nodes gm) (stripe_node gm off) (off mod MEMORY_STRIDE) dst sz =
     gm_get_bytes my gm c off dst sz"
proof (induction sz arbitrary: c off dst rule: less_induct)
  case (less sz)
  define k where "k = chunk_at off sz"
  have addr: "gm_segbases gm (stripe_node gm off) + off div MEMORY_STRIDE div gm_num_nodes gm * MEMORY_STRIDE +
      off mod MEMORY_STRIDE = stripe_addr gm off" by (simp add: stripe_addr_def stripe_rel_def)
  let ?c = "fetch my c dst (stripe_node gm off) (stripe_addr gm off) k"
  have step: "get_blocks my gm ?c (if (stripe_node gm off + 1) mod gm_num_nodes gm = 0
       then off div MEMORY_STRIDE div gm_num_nodes gm + 1 else off div MEMORY_STRIDE div gm_num_nodes gm)
       ((stripe_node gm off + 1) mod gm_num_nodes gm) 0 (dst + k) (sz - k) = gm_get_bytes my gm ?c (off + k) (dst + k) (sz - k)"
    if "0 < sz"
  proof (cases "sz - k = 0")
    case True
    then show ?thesis by (simp add: get_blocks.simps gm_get_bytes.simps)
  next
    case False
    then have n: "k = MEMORY_STRIDE - off mod MEMORY_STRIDE" using chunk_last_or_full k_def by blast
    have "sz - k < sz" using that chunk_at_pos [OF that, of off] by (simp add: k_def)
    from less.IH [OF this, of ?c "off + k" "dst + k"] show ?thesis
      unfolding next_block(2) [OF n] next_block(3) [OF n] next_block(1) [OF n] .
  qed
  show ?case
    unfolding get_blocks.simps [of my gm c _ _ _ dst sz] get_bytes_step [of my gm c off dst sz]
      chunk_at_def [symmetric] addr Let_def k_def [symmetric]
    using step chunk_at_pos [of sz off] by (cases "sz = 0") (simp_all add: k_def)
qed

lemma put_blocks_is_put_bytes:
  "put_blocks my gm c (off div MEMORY_STRIDE div gm_num_nodes gm) (stripe_node gm off) (off mod MEMORY_STRIDE) src sz =
     gm_put_bytes my gm c off src sz"
proof (induction sz arbitrary: c off src rule: less_induct)
  case (less sz)
  define k where "k = chunk_at off sz"
  have addr: "gm_segbases gm (stripe_node gm off) + off div MEMORY_STRIDE div gm_num_nodes gm * MEMORY_STRIDE +
      off mod MEMORY_STRIDE = stripe_addr gm off" by (simp add: stripe_addr_def stripe_rel_def)
  let ?c = "store my c (stripe_node gm off) (stripe_addr gm off) src k"
  have step: "put_blocks my gm ?c (if (stripe_node gm off + 1) mod gm_num_nodes gm = 0
       then off div MEMORY_STRIDE div gm_num_nodes gm + 1 else off div MEMORY_STRIDE div gm_num_nodes gm)
       ((stripe_node gm off + 1) mod gm_num_nodes gm) 0 (src + k) (sz - k) = gm_put_bytes my gm ?c (off + k) (src + k) (sz - k)"
    if "0 < sz"
  proof (cases "sz - k = 0")
    case True
    then show ?thesis by (simp add: put_blocks.simps gm_put_bytes.simps)
  next
    case False
    then have n: "k = MEMORY_STRIDE - off mod MEMORY_STRIDE" using chunk_last_or_full k_def by blast
    have "sz - k < sz" using that chunk_at_pos [OF that, of off] by (simp add: k_def)
    from less.IH [OF this, of ?c "off + k" "src + k"] show ?thesis
      unfolding next_block(2) [OF n] next_block(3) [OF n] next_block(1) [OF n] .
  qed
  show ?case
    unfolding put_blocks.simps [of my gm c _ _ _ src sz] put_bytes_step [of my gm c off src sz]
      chunk_at_def [symmetric] addr Let_def k_def [symmetric]
    using step chunk_at_pos [of sz off] by (cases "sz = 0") (simp_all add: k_def)
qed

section \<open>Properties\<close>

text \<open>Example: three nodes with 2048 bytes each, all segments at address 4096, seen from node 1.\<close>

definition gm_demo :: GASNetMemory where
  "gm_demo = projr (GASNetMemory_construct 2 (\<lambda>_. (4096, 4096)) 2048)"

lemma gm_demo_base: "gm_segbases gm_demo i = 4096"
  by (simp add: gm_demo_def GASNetMemory_construct_def Let_def upt_rec)

lemma gm_demo_off: "off_segment gm_demo 1 {0 ..< 4096}"
  by (simp add: off_segment_def stripe_addr_def gm_demo_base)

lemma gm_demo_size: "mi_size (gm_impl gm_demo) = 6144"
  by (simp add: gm_demo_def GASNetMemory_construct_def Let_def upt_rec)

text \<open>
  C12. The striped memory behaves as one memory: bytes put from a buffer at some offset are what a
  get at that offset returns, wherever the blocks lie and whichever node asks, and a put changes no
  byte at another offset.  The buffers must not lie in the segment itself.
\<close>

theorem gasnet_put_get:
  assumes "off_segment gm my {src ..< src + sz}" and "off_segment gm you {dst ..< dst + sz}"
    and "off + sz \<le> mi_size (gm_impl gm)" and "c' = gm_put_bytes my gm c off src sz"
  shows "read_bytes (gm_get_bytes you gm c' off dst sz you) dst sz = read_bytes (c my) src sz \<and>
    (\<forall>o2 < mi_size (gm_impl gm). o2 \<notin> {off ..< off + sz} \<longrightarrow>
       c' (stripe_node gm o2) (stripe_addr gm o2) = c (stripe_node gm o2) (stripe_addr gm o2))"
proof
  have put: "c' = gwrite gm c off (read_bytes (c my) src sz)"
    using put_bytes_is_gwrite [OF assms(1,3)] assms(4) by simp
  have "gread gm c' off sz = read_bytes (c my) src sz"
    unfolding put using gread_gwrite [of gm c off "read_bytes (c my) src sz"] by simp
  then show "read_bytes (gm_get_bytes you gm c' off dst sz you) dst sz = read_bytes (c my) src sz"
    unfolding get_bytes_is_gread [OF assms(2,3)] using read_write_same [of _ dst "read_bytes (c my) src sz"] by simp
  show "\<forall>o2 < mi_size (gm_impl gm). o2 \<notin> {off ..< off + sz} \<longrightarrow>
       c' (stripe_node gm o2) (stripe_addr gm o2) = c (stripe_node gm o2) (stripe_addr gm o2)"
  proof (intro allI impI)
    fix o2 assume "o2 \<notin> {off ..< off + sz}"
    then show "c' (stripe_node gm o2) (stripe_addr gm o2) = c (stripe_node gm o2) (stripe_addr gm o2)"
      unfolding put using stripe_inj [of gm "off + i" o2 for i] by (intro gwrite_outside) force
  qed
qed

theorem gasnet_put_get_witness:
  "read_bytes (gm_get_bytes 1 gm_demo (gm_put_bytes 1 gm_demo (\<lambda>_ _. 7) 1000 0 100) 1000 200 100 1) 200 100 =
     read_bytes ((\<lambda>_ _. 7) (1::nat)) 0 100"
proof -
  have "off_segment gm_demo 1 {0 ..< 0 + 100}" "off_segment gm_demo 1 {200 ..< 200 + 100}"
    by (rule off_segment_sub [OF gm_demo_off], simp)+
  from gasnet_put_get [OF this, of 1000 _ "\<lambda>_ _. 7"] show ?thesis by (simp add: gm_demo_size)
qed


text \<open>
  When the share of a node is a whole number of blocks, every offset of the memory lies inside the
  segment of its node, no two offsets share a byte, and a range has a home node exactly when all its
  bytes are on that node in one block.
\<close>

theorem stripes_in_segment:
  assumes "GASNetMemory_construct maxn seginfos spn = Inr gm" and "MEMORY_STRIDE dvd spn"
    and "off + sz \<le> mi_size (gm_impl gm)" and "0 < sz" and "off + sz < 2 ^ 64" and "i < sz" and "j < sz"
  shows "stripe_addr gm (off + i) \<in> {fst (seginfos (stripe_node gm (off + i))) ..<
           fst (seginfos (stripe_node gm (off + i))) + snd (seginfos (stripe_node gm (off + i)))} \<and>
    (i \<noteq> j \<longrightarrow> (stripe_node gm (off + i), stripe_addr gm (off + i)) \<noteq> (stripe_node gm (off + j), stripe_addr gm (off + j))) \<and>
    (gm_get_home_node gm off sz \<noteq> - 1 \<longrightarrow> int (stripe_node gm (off + i)) = gm_get_home_node gm off sz)"
proof (intro conjI impI)
  have gm: "gm_num_nodes gm = maxn + 1" "mi_size (gm_impl gm) = spn * (maxn + 1)" "gm_segbases gm = (\<lambda>i. fst (seginfos i))"
    and big: "\<forall>i < maxn + 1. spn \<le> snd (seginfos i)"
    using assms(1) by (auto simp: GASNetMemory_construct_def Let_def list_all_iff split: if_splits)
  have "stripe_node gm (off + i) < maxn + 1" using gm(1) by (simp add: stripe_node_def)
  then have "spn \<le> snd (seginfos (stripe_node gm (off + i)))" using big by blast
  moreover have "stripe_rel gm (off + i) < spn"
    using stripe_rel_less [OF assms(2), of "off + i" gm] assms(3,6) gm(1,2) by simp
  ultimately show "stripe_addr gm (off + i) \<in> {fst (seginfos (stripe_node gm (off + i))) ..<
           fst (seginfos (stripe_node gm (off + i))) + snd (seginfos (stripe_node gm (off + i)))}"
    by (simp add: stripe_addr_def gm(3))
  show "(stripe_node gm (off + i), stripe_addr gm (off + i)) \<noteq> (stripe_node gm (off + j), stripe_addr gm (off + j))" if "i \<noteq> j"
    using stripe_inj [of gm "off + i" "off + j"] that by auto
  assume h: "gm_get_home_node gm off sz \<noteq> - 1"
  have "(off + sz + 2 ^ 64 - 1) mod 2 ^ 64 = off + sz - 1"
  proof -
    have "off + sz + 2 ^ 64 - 1 = (off + sz - 1) + 2 ^ 64" using assms(4) by simp
    then show ?thesis using assms(5) by (simp only: mod_add_self2) simp
  qed
  then have e: "off div MEMORY_STRIDE = (off + sz - 1) div MEMORY_STRIDE" "gm_get_home_node gm off sz = int (stripe_node gm off)"
    using h by (auto simp: gm_get_home_node_def Let_def stripe_node_def split: if_splits)
  have "off div MEMORY_STRIDE \<le> (off + i) div MEMORY_STRIDE" "(off + i) div MEMORY_STRIDE \<le> (off + sz - 1) div MEMORY_STRIDE"
    using assms(6) by (auto intro: div_le_mono)
  with e show "int (stripe_node gm (off + i)) = gm_get_home_node gm off sz" by (simp add: stripe_node_def)
qed

theorem stripes_in_segment_witness:
  "stripe_addr gm_demo (1000 + 99) \<in> {4096 ..< 4096 + 4096}"
proof -
  have c: "GASNetMemory_construct 2 (\<lambda>_. (4096, 4096)) 2048 = Inr gm_demo"
    by (simp add: gm_demo_def GASNetMemory_construct_def Let_def upt_rec)
  from stripes_in_segment [OF c, of 1000 100 99 1] show ?thesis by (simp add: gm_demo_size MEMORY_STRIDE_def)
qed

end
