(* ===== verification/Remote_Fence.thy ===== *)
theory Remote_Fence
  imports Legion_Prelude
begin

text \<open>
  Completion of remote writes (\<^verbatim>\<open>src/templates/mem_impl.cc\<close>): the receiver counts the writes of a
  transfer, identified by sender and sequence number, and answers the fence of the transfer when all of
  them have been handled, in whatever order writes and fence arrive.
\<close>

section \<open>The table of partial writes\<close>

datatype PartialWriteKey = PartialWriteKey (sender: nat) (sequence_id: nat)

text \<open>The order of the keys, \<^verbatim>\<open>PartialWriteKey::operator<\<close>, makes them keys of an ordered map.\<close>

definition key_before :: "PartialWriteKey \<Rightarrow> PartialWriteKey \<Rightarrow> bool" where
  "key_before lhs rhs \<longleftrightarrow>
     (if sender lhs < sender rhs then True
      else if sender lhs > sender rhs then False
      else sequence_id lhs < sequence_id rhs)"

instantiation PartialWriteKey :: linorder
begin

definition less_PartialWriteKey :: "PartialWriteKey \<Rightarrow> PartialWriteKey \<Rightarrow> bool" where
  "less_PartialWriteKey = key_before"

definition less_eq_PartialWriteKey :: "PartialWriteKey \<Rightarrow> PartialWriteKey \<Rightarrow> bool" where
  "less_eq_PartialWriteKey lhs rhs \<longleftrightarrow> lhs < rhs \<or> lhs = rhs"

instance
proof
  fix x y z :: PartialWriteKey
  show "(x < y) = (x \<le> y \<and> \<not> y \<le> x)"
    by (auto simp: less_PartialWriteKey_def key_before_def less_eq_PartialWriteKey_def split: if_splits)
  show "x \<le> x" by (simp add: less_eq_PartialWriteKey_def)
  show "x \<le> y \<Longrightarrow> y \<le> z \<Longrightarrow> x \<le> z"
    by (auto simp: less_PartialWriteKey_def key_before_def less_eq_PartialWriteKey_def split: if_splits)
  show "x \<le> y \<Longrightarrow> y \<le> x \<Longrightarrow> x = y"
    by (auto simp: less_PartialWriteKey_def key_before_def less_eq_PartialWriteKey_def split: if_splits)
  show "x \<le> y \<or> y \<le> x"
    by (cases x; cases y) (auto simp: less_PartialWriteKey_def key_before_def less_eq_PartialWriteKey_def)
qed

end

text \<open>A fence is the address of its object on the sender; 0 is the null pointer.\<close>

record PartialWriteEntry =
  fence :: nat
  remaining_count :: "32 word"

type_synonym PartialWriteMap = "(PartialWriteKey, PartialWriteEntry) omap"

text \<open>
  The end of the handlers of remote writes, serialised writes and reductions: count the message.  The
  result is the table and the acknowledgements sent, each with the key of its transfer (it goes to the
  sender of that key).
\<close>

definition count_write ::
  "PartialWriteMap \<Rightarrow> nat \<Rightarrow> nat \<Rightarrow> PartialWriteMap \<times> (PartialWriteKey \<times> nat) list" where
  "count_write pw snd' seq =
     (if seq > 0 then
        let key = PartialWriteKey snd' seq
        in case map_of pw key of
             None \<Rightarrow> (om_put key \<lparr>fence = 0, remaining_count = - 1\<rparr> pw, [])
           | Some entry \<Rightarrow>
               let c = remaining_count entry - 1
               in if c = 0 then (om_del key pw, [(key, fence entry)])
                  else (om_put key (entry\<lparr>remaining_count := c\<rparr>) pw, [])
      else (pw, []))"

text \<open>\<^verbatim>\<open>RemoteWriteFenceMessage::handle_request\<close>.\<close>

definition handle_fence ::
  "PartialWriteMap \<Rightarrow> nat \<Rightarrow> nat \<Rightarrow> 32 word \<Rightarrow> nat \<Rightarrow> (PartialWriteMap \<times> (PartialWriteKey \<times> nat) list) outcome" where
  "handle_fence pw snd' seq num_writes fnc =
     obind (cassert (seq \<noteq> 0)) (\<lambda>_.
       if seq > 0 then
         let key = PartialWriteKey snd' seq
         in case map_of pw key of
              None \<Rightarrow> Inr (om_put key \<lparr>fence = fnc, remaining_count = num_writes\<rparr> pw, [])
            | Some entry \<Rightarrow>
                if \<not> fence entry = 0 then Inl Assert_Failed
                else
                  let c = remaining_count entry + num_writes
                  in if \<not> sint c \<ge> 0 then Inl Assert_Failed
                     else if c = 0 then Inr (om_del key pw, [(key, fnc)])
                     else Inr (om_put key (entry\<lparr>fence := fnc, remaining_count := c\<rparr>) pw, [])
       else Inr (pw, []))"

text \<open>\<^verbatim>\<open>do_remote_fence\<close> and \<^verbatim>\<open>RemoteWriteFenceMessage::send_request\<close>: the fields of the message.\<close>

definition do_remote_fence :: "node_id \<Rightarrow> nat \<Rightarrow> 32 word \<Rightarrow> nat \<Rightarrow> (nat \<times> nat \<times> 32 word \<times> nat) outcome" where
  "do_remote_fence my_node_id seq num_writes fnc =
     obind (cassert (num_writes > 0)) (\<lambda>_. Inr (my_node_id, seq, num_writes, fnc))"

section \<open>Runs of the receiver\<close>

datatype rw_event =
    Write_Handled PartialWriteKey
  | Fence_Handled PartialWriteKey "32 word" nat

fun event_key :: "rw_event \<Rightarrow> PartialWriteKey" where
  "event_key (Write_Handled k) = k"
| "event_key (Fence_Handled k n f) = k"

fun rw_step :: "PartialWriteMap \<Rightarrow> rw_event \<Rightarrow> (PartialWriteMap \<times> (PartialWriteKey \<times> nat) list) outcome" where
  "rw_step pw (Write_Handled k) = Inr (count_write pw (sender k) (sequence_id k))"
| "rw_step pw (Fence_Handled k n f) = handle_fence pw (sender k) (sequence_id k) n f"

fun rw_run ::
  "PartialWriteMap \<times> (PartialWriteKey \<times> nat) list \<Rightarrow> rw_event list \<Rightarrow>
     (PartialWriteMap \<times> (PartialWriteKey \<times> nat) list) outcome" where
  "rw_run (pw, acks) [] = Inr (pw, acks)"
| "rw_run (pw, acks) (e # es) = obind (rw_step pw e) (\<lambda>(pw', a). rw_run (pw', acks @ a) es)"

lemma rw_run_snoc:
  "rw_run x (es @ [e]) = obind (rw_run x es) (\<lambda>(pw, acks). obind (rw_step pw e) (\<lambda>(pw', a). Inr (pw', acks @ a)))"
proof (induction es arbitrary: x)
  case (Cons e' es)
  obtain pw acks where "x = (pw, acks)" by (cases x)
  with Cons show ?case by (cases "rw_step pw e'") auto
qed (cases x; auto)

text \<open>
  What a sender does: every transfer has a non-zero sequence number, one fence that is not null, and as
  many writes as the fence announces, at least one and fewer than \<open>2^31\<close>.
\<close>

definition writes_of :: "PartialWriteKey \<Rightarrow> rw_event list \<Rightarrow> nat" where
  "writes_of k es = length (filter (\<lambda>e. e = Write_Handled k) es)"

definition fences_of :: "PartialWriteKey \<Rightarrow> rw_event list \<Rightarrow> (32 word \<times> nat) list" where
  "fences_of k es = concat (map (\<lambda>e. case e of Fence_Handled k' n f \<Rightarrow> if k' = k then [(n, f)] else [] | _ \<Rightarrow> []) es)"

definition transfers_ok :: "rw_event list \<Rightarrow> bool" where
  "transfers_ok es \<longleftrightarrow> (\<forall>k \<in> event_key ` set es. sequence_id k \<noteq> 0 \<and>
     (\<exists>n f. fences_of k es = [(n, f)] \<and> f \<noteq> 0 \<and> 0 < unat n \<and> unat n < 2 ^ 31 \<and> writes_of k es = unat n))"

text \<open>The entry of a transfer after \<open>w\<close> writes and the fences \<open>fs\<close>, when \<open>n\<close> writes are due.\<close>

definition entry_after :: "nat \<Rightarrow> nat \<Rightarrow> (32 word \<times> nat) list \<Rightarrow> PartialWriteEntry option" where
  "entry_after n w fs =
     (case fs of
        [] \<Rightarrow> if w = 0 then None else Some \<lparr>fence = 0, remaining_count = - of_nat w\<rparr>
      | (m, f) # _ \<Rightarrow> if w = n then None else Some \<lparr>fence = f, remaining_count = of_nat (n - w)\<rparr>)"

lemma writes_of_append [simp]: "writes_of k (xs @ ys) = writes_of k xs + writes_of k ys"
  by (simp add: writes_of_def)

lemma fences_of_append [simp]: "fences_of k (xs @ ys) = fences_of k xs @ fences_of k ys"
  by (simp add: fences_of_def)

lemma writes_of_single [simp]:
  "writes_of k [Write_Handled k'] = (if k' = k then 1 else 0)" "writes_of k [Fence_Handled k' n f] = 0"
  by (auto simp: writes_of_def)

lemma fences_of_single [simp]:
  "fences_of k [Write_Handled k'] = []" "fences_of k [Fence_Handled k' n f] = (if k' = k then [(n, f)] else [])"
  by (auto simp: fences_of_def)

lemma of_nat_32_eq_0: "n < 2 ^ 31 \<Longrightarrow> (of_nat n :: 32 word) = 0 \<longleftrightarrow> n = 0"
  by (auto simp: word_of_nat_eq_0_iff dest: dvd_imp_le)

lemma no_events_iff: "writes_of k es = 0 \<and> fences_of k es = [] \<longleftrightarrow> k \<notin> event_key ` set es"
proof (induction es)
  case (Cons e es)
  have "writes_of k (e # es) = writes_of k [e] + writes_of k es" "fences_of k (e # es) = fences_of k [e] @ fences_of k es"
    using writes_of_append [of k "[e]" es] fences_of_append [of k "[e]" es] by simp_all
  with Cons show ?case by (cases e) auto
qed (simp add: writes_of_def fences_of_def)

lemmas no_events = no_events_iff [THEN iffD2]

section \<open>One message\<close>

lemma write_step:
  assumes ok: "om_ok pw" and e: "map_of pw k = entry_after N w fs" and w: "w < N" "N < 2 ^ 31" and q: "sequence_id k \<noteq> 0"
  shows "\<exists>pw' a. rw_step pw (Write_Handled k) = Inr (pw', a) \<and> om_ok pw' \<and>
    map_of pw' = (map_of pw)(k := entry_after N (Suc w) fs) \<and>
    a = (if fs \<noteq> [] \<and> Suc w = N then [(k, snd (hd fs))] else [])"
proof (cases fs)
  case Nil
  show ?thesis
  proof (cases "w = 0")
    case True
    with e Nil have "map_of pw k = None" by (simp add: entry_after_def)
    with Nil True q ok show ?thesis by (simp add: count_write_def entry_after_def om_find_put)
  next
    case False
    with e Nil have "map_of pw k = Some \<lparr>fence = 0, remaining_count = - of_nat w\<rparr>" by (simp add: entry_after_def)
    moreover have "- of_nat w - 1 = - (of_nat (Suc w) :: 32 word)" by simp
    moreover have "- (of_nat (Suc w) :: 32 word) \<noteq> 0"
      using of_nat_32_eq_0 [of "Suc w"] w by (simp del: of_nat_Suc)
    ultimately show ?thesis using Nil q ok by (simp add: count_write_def entry_after_def om_find_put Let_def del: of_nat_Suc)
  qed
next
  case (Cons x xs)
  obtain m f where x: "x = (m, f)" by (cases x)
  obtain d where N: "N = Suc (w + d)" using w(1) less_imp_Suc_add by blast
  have c: "of_nat (Suc d) - 1 = (of_nat d :: 32 word)" by simp
  have z: "(of_nat d :: 32 word) = 0 \<longleftrightarrow> d = 0" using of_nat_32_eq_0 [of d] w(2) N by auto
  have "map_of pw k = Some \<lparr>fence = f, remaining_count = of_nat (Suc d)\<rparr>"
    using e Cons x by (simp add: entry_after_def N del: of_nat_Suc)
  with Cons x q ok show ?thesis
    unfolding rw_step.simps count_write_def Let_def
    by (cases "d = 0") (auto simp: entry_after_def N c z om_find_put om_find_del)
qed

lemma fence_step:
  assumes ok: "om_ok pw" and e: "map_of pw k = entry_after N w []" and w: "w \<le> N" "N < 2 ^ 31" "0 < N"
    and n: "unat n = N" and q: "sequence_id k \<noteq> 0"
  shows "\<exists>pw' a. rw_step pw (Fence_Handled k n f) = Inr (pw', a) \<and> om_ok pw' \<and>
    map_of pw' = (map_of pw)(k := entry_after N w [(n, f)]) \<and> a = (if w = N then [(k, f)] else [])"
proof (cases "w = 0")
  case True
  then have "map_of pw k = None" using e by (simp add: entry_after_def)
  moreover have "n = of_nat N" by (simp flip: n)
  ultimately show ?thesis using True w q ok by (simp add: handle_fence_def entry_after_def om_find_put Let_def)
next
  case False
  then have m: "map_of pw k = Some \<lparr>fence = 0, remaining_count = - of_nat w\<rparr>" using e by (simp add: entry_after_def)
  obtain d where N: "N = w + d" using w(1) le_iff_add by blast
  have "n = of_nat N" by (simp flip: n)
  then have c: "- of_nat w + n = of_nat d" by (simp add: N)
  have "sint (of_nat d :: 32 word) \<ge> 0" "(of_nat d :: 32 word) = 0 \<longleftrightarrow> d = 0"
    using sint_of_nat_32 [of d] of_nat_32_eq_0 [of d] w(2) N by auto
  with m c q ok show ?thesis
    by (cases "d = 0") (simp_all add: handle_fence_def entry_after_def N om_find_put om_find_del Let_def)
qed

section \<open>Any order of arrival\<close>

definition rw_inv :: "(PartialWriteKey \<Rightarrow> nat) \<Rightarrow> rw_event list \<Rightarrow> PartialWriteMap \<times> (PartialWriteKey \<times> nat) list \<Rightarrow> bool" where
  "rw_inv N es x \<longleftrightarrow> om_ok (fst x) \<and>
     (\<forall>k. map_of (fst x) k = entry_after (N k) (writes_of k es) (fences_of k es)) \<and>
     (\<forall>k. filter (\<lambda>a. fst a = k) (snd x) =
        (if fences_of k es \<noteq> [] \<and> writes_of k es = N k then [(k, snd (hd (fences_of k es)))] else []))"

lemma rw_inv_snoc:
  assumes inv: "rw_inv N es (pw, acks)"
    and step: "rw_step pw e = Inr (pw', a)" "om_ok pw'"
    and at: "map_of pw' = (map_of pw)(k := entry_after (N k) (writes_of k (es @ [e])) (fences_of k (es @ [e])))"
    and k: "event_key e = k"
    and a: "a = (if fences_of k (es @ [e]) \<noteq> [] \<and> writes_of k (es @ [e]) = N k then [(k, snd (hd (fences_of k (es @ [e]))))] else [])"
    and pre: "\<not> (fences_of k es \<noteq> [] \<and> writes_of k es = N k)"
  shows "rw_inv N (es @ [e]) (pw', acks @ a)"
proof -
  have other: "writes_of j (es @ [e]) = writes_of j es" "fences_of j (es @ [e]) = fences_of j es" if "j \<noteq> k" for j
    using that k by (cases e; simp)+
  show ?thesis
    unfolding rw_inv_def fst_conv snd_conv
  proof (intro conjI allI)
    show "om_ok pw'" by (fact step(2))
    show "map_of pw' j = entry_after (N j) (writes_of j (es @ [e])) (fences_of j (es @ [e]))" for j
      using inv other [of j] by (cases "j = k") (simp_all add: at rw_inv_def)
    show "filter (\<lambda>x. fst x = j) (acks @ a) = (if fences_of j (es @ [e]) \<noteq> [] \<and> writes_of j (es @ [e]) = N j
        then [(j, snd (hd (fences_of j (es @ [e]))))] else [])" for j
    proof (cases "j = k")
      case True
      have "filter (\<lambda>x. fst x = k) acks = []" using inv pre by (auto simp: rw_inv_def)
      moreover have "filter (\<lambda>x. fst x = k) a = a" by (simp add: a)
      ultimately show ?thesis using True by (simp add: a)
    next
      case False
      then have "filter (\<lambda>x. fst x = j) a = []" by (simp add: a)
      with False inv other [OF False] show ?thesis by (simp add: rw_inv_def)
    qed
  qed
qed

lemma rw_run_inv:
  assumes t: "transfers_ok (p @ r)"
  shows "\<exists>x. rw_run ([], []) p = Inr x \<and> rw_inv (\<lambda>k. writes_of k (p @ r)) p x"
  using t
proof (induction p arbitrary: r rule: rev_induct)
  case Nil
  have "entry_after n 0 [] = None" for n by (simp add: entry_after_def)
  then show ?case by (simp add: rw_inv_def writes_of_def fences_of_def)
next
  case (snoc e es)
  let ?N = "\<lambda>k. writes_of k (es @ e # r)"
  from snoc.IH [of "e # r"] snoc.prems obtain pw acks where
    run: "rw_run ([], []) es = Inr (pw, acks)" and inv: "rw_inv ?N es (pw, acks)" by auto
  define k where "k = event_key e"
  have "k \<in> event_key ` set ((es @ [e]) @ r)" by (simp add: k_def)
  with snoc.prems obtain n f where
    q: "sequence_id k \<noteq> 0" and F: "fences_of k ((es @ [e]) @ r) = [(n, f)]" "f \<noteq> 0" "0 < unat n" "unat n < 2 ^ 31"
      "writes_of k ((es @ [e]) @ r) = unat n" unfolding transfers_ok_def by blast
  have N: "?N k = unat n" using F(5) by simp
  have ok: "om_ok pw" and at: "map_of pw k = entry_after (?N k) (writes_of k es) (fences_of k es)"
    using inv unfolding rw_inv_def by (simp_all only: fst_conv)
  have fin: "\<exists>x. rw_run ([], []) (es @ [e]) = Inr x \<and> rw_inv (\<lambda>k. writes_of k ((es @ [e]) @ r)) (es @ [e]) x"
    if s: "rw_step pw e = Inr (pw', a)" "om_ok pw'"
      and m: "map_of pw' = (map_of pw)(k := entry_after (?N k) (writes_of k (es @ [e])) (fences_of k (es @ [e])))"
      and a: "a = (if fences_of k (es @ [e]) \<noteq> [] \<and> writes_of k (es @ [e]) = ?N k then [(k, snd (hd (fences_of k (es @ [e]))))] else [])"
      and pre: "\<not> (fences_of k es \<noteq> [] \<and> writes_of k es = ?N k)" for pw' a
    using rw_inv_snoc [OF inv s m k_def [symmetric] a pre] run s(1) by (simp add: rw_run_snoc)
  show ?case
  proof (cases e)
    case (Write_Handled k')
    then have e: "e = Write_Handled k" by (simp add: k_def)
    have w: "writes_of k es < ?N k" by (simp add: e writes_of_def)
    from write_step [OF ok at w _ q] F(4) N obtain pw' a where
      "rw_step pw e = Inr (pw', a)" "om_ok pw'" "map_of pw' = (map_of pw)(k := entry_after (?N k) (Suc (writes_of k es)) (fences_of k es))"
      "a = (if fences_of k es \<noteq> [] \<and> Suc (writes_of k es) = ?N k then [(k, snd (hd (fences_of k es)))] else [])"
      unfolding e by auto
    then show ?thesis using w e by (intro fin) simp_all
  next
    case (Fence_Handled k' n' f')
    then have e: "e = Fence_Handled k n' f'" by (simp add: k_def)
    have fs: "fences_of k es = []" "n' = n" "f' = f" 
    proof -
      have "fences_of k es @ (n', f') # fences_of k r = [(n, f)]"
        using F(1) unfolding e fences_of_append fences_of_single by simp
      then show "fences_of k es = []" "n' = n" "f' = f" by (auto simp: append_eq_Cons_conv)
    qed
    have w: "writes_of k es \<le> ?N k" by simp
    have "?N k < 2 ^ 31" "0 < ?N k" "unat n = ?N k" using F(3,4) N by simp_all
    from fence_step [OF ok at [unfolded fs(1)] w this q, of f] obtain pw' a where
      "rw_step pw e = Inr (pw', a)" "om_ok pw'" "map_of pw' = (map_of pw)(k := entry_after (?N k) (writes_of k es) [(n, f)])"
      "a = (if writes_of k es = ?N k then [(k, f)] else [])"
      unfolding e fs(2,3) by blast
    then show ?thesis using fs e by (intro fin) simp_all
  qed
qed

lemma fence_acks:
  assumes "transfers_ok (p @ r)"
  shows "\<exists>pw acks. rw_run ([], []) p = Inr (pw, acks) \<and>
    (\<forall>k n f. (n, f) \<in> set (fences_of k (p @ r)) \<longrightarrow>
       filter (\<lambda>a. fst a = k) acks = (if k \<in> event_key ` set p \<and> k \<notin> event_key ` set r then [(k, f)] else [])) \<and>
    (r = [] \<longrightarrow> pw = [])"
proof -
  obtain pw acks where run: "rw_run ([], []) p = Inr (pw, acks)" and inv: "rw_inv (\<lambda>k. writes_of k (p @ r)) p (pw, acks)"
    using rw_run_inv [OF assms] by auto
  have "filter (\<lambda>a. fst a = k) acks = (if k \<in> event_key ` set p \<and> k \<notin> event_key ` set r then [(k, f)] else [])"
    if f: "(n, f) \<in> set (fences_of k (p @ r))" for k n f
  proof -
    have "k \<in> event_key ` set (p @ r)" using f no_events [of k "p @ r"] by fastforce
    with assms obtain m g where F: "fences_of k (p @ r) = [(m, g)]" "writes_of k (p @ r) = unat m" "0 < unat m"
      unfolding transfers_ok_def by blast
    with f have "(m, g) = (n, f)" by (metis empty_iff empty_set set_ConsD)
    with F(1) have g: "fences_of k p @ fences_of k r = [(n, f)]" by simp
    have iff: "fences_of k p \<noteq> [] \<and> writes_of k p = writes_of k (p @ r) \<longleftrightarrow>
        k \<in> event_key ` set p \<and> k \<notin> event_key ` set r"
    proof
      assume l: "fences_of k p \<noteq> [] \<and> writes_of k p = writes_of k (p @ r)"
      then have "fences_of k r = []" using g by (cases "fences_of k p") simp_all
      moreover have "writes_of k r = 0" using l by simp
      ultimately have "k \<notin> event_key ` set r" by (simp flip: no_events_iff)
      moreover have "k \<in> event_key ` set p" using l no_events [of k p] by blast
      ultimately show "k \<in> event_key ` set p \<and> k \<notin> event_key ` set r" by blast
    next
      assume "k \<in> event_key ` set p \<and> k \<notin> event_key ` set r"
      then show "fences_of k p \<noteq> [] \<and> writes_of k p = writes_of k (p @ r)" using no_events [of k r] g by auto
    qed
    have "fences_of k p \<noteq> [] \<Longrightarrow> snd (hd (fences_of k p)) = f" using g by (cases "fences_of k p") auto
    then show ?thesis using inv iff unfolding rw_inv_def snd_conv by auto
  qed
  moreover have "pw = []" if "r = []"
  proof -
    have "map_of pw k = None" for k
    proof (cases "k \<in> event_key ` set p")
      case True
      with assms that obtain m g where "fences_of k p = [(m, g)]" unfolding transfers_ok_def by auto
      with inv that show ?thesis by (simp add: rw_inv_def entry_after_def)
    next
      case False
      with inv that no_events [of k p] show ?thesis by (simp add: rw_inv_def entry_after_def)
    qed
    then show ?thesis by (metis map_of_eq_None_iff list.set_intros(1) neq_Nil_conv image_eqI)
  qed
  ultimately show ?thesis using run by blast
qed

text \<open>One transfer alone: the table is empty again and its fence has been acknowledged.\<close>

lemma one_transfer:
  assumes q: "sequence_id k \<noteq> 0" and keys: "event_key ` set es \<subseteq> {k}" and n: "writes_of k es = n" "0 < n" "n < 2 ^ 31"
    and f: "fences_of k es = [(of_nat n, f)]" "f \<noteq> 0"
  shows "rw_run ([], []) es = Inr ([], [(k, f)])"
proof -
  have un: "unat (of_nat n :: 32 word) = n" using n(3) by (simp add: unat_of_nat)
  have "\<exists>n' f'. fences_of k es = [(n', f')] \<and> f' \<noteq> 0 \<and> 0 < unat n' \<and> unat n' < 2 ^ 31 \<and> writes_of k es = unat n'"
    using f un n by (intro exI [of _ "of_nat n"] exI [of _ f]) simp
  then have t: "transfers_ok (es @ [])" using keys q unfolding transfers_ok_def append_Nil2 by blast
  from fence_acks [OF t] f(1) obtain acks where
    run: "rw_run ([], []) es = Inr ([], acks)"
      "filter (\<lambda>a. fst a = k) acks = (if k \<in> event_key ` set es \<and> k \<notin> event_key ` set [] then [(k, f)] else [])"
    by fastforce
  have "k \<in> event_key ` set es" using f(1) no_events [of k es] by fastforce
  with run(2) have own: "filter (\<lambda>a. fst a = k) acks = [(k, f)]" by simp
  have "filter (\<lambda>a. fst a = j) acks = []" if "j \<noteq> k" for j
  proof -
    have "j \<notin> event_key ` set es" using keys that by blast
    with rw_run_inv [OF t] run(1) no_events [of j es] show ?thesis by (auto simp: rw_inv_def)
  qed
  then have "\<forall>a \<in> set acks. fst a = k" by (metis (mono_tags, lifting) filter_empty_conv)
  then have "filter (\<lambda>a. fst a = k) acks = acks" by (simp add: filter_id_conv)
  with own run(1) show ?thesis by simp
qed

section \<open>Properties\<close>

text \<open>
  C5. However writes and fences of many transfers interleave, no assertion fails, and the fence of a
  transfer is acknowledged exactly once and exactly when its fence and all its writes have been
  handled: after any part \<open>p\<close> of the messages, with \<open>r\<close> still to come, the acknowledgements of
  transfer \<open>k\<close> are one for its fence if \<open>k\<close> occurs in \<open>p\<close> and not in \<open>r\<close>, and none otherwise; in the end the
  table is empty.
\<close>

theorem fence_acknowledged_once:
  assumes "transfers_ok (p @ r)"
  shows "\<exists>pw acks. rw_run ([], []) p = Inr (pw, acks) \<and>
    (\<forall>k n f. (n, f) \<in> set (fences_of k (p @ r)) \<longrightarrow>
       filter (\<lambda>a. fst a = k) acks = (if k \<in> event_key ` set p \<and> k \<notin> event_key ` set r then [(k, f)] else [])) \<and>
    (r = [] \<longrightarrow> pw = [])"
  using assms by (rule fence_acks)

theorem fence_acknowledged_once_witness:
  "\<exists>pw acks. rw_run ([], []) [Write_Handled (PartialWriteKey 3 7), Fence_Handled (PartialWriteKey 3 7) 2 64,
       Write_Handled (PartialWriteKey 3 7)] = Inr (pw, acks) \<and> pw = [] \<and>
     filter (\<lambda>a. fst a = PartialWriteKey 3 7) acks = [(PartialWriteKey 3 7, 64)]"
proof -
  let ?es = "[Write_Handled (PartialWriteKey 3 7), Fence_Handled (PartialWriteKey 3 7) 2 64, Write_Handled (PartialWriteKey 3 7)]"
  have f: "fences_of (PartialWriteKey 3 7) ?es = [(2, 64)]" by (simp add: fences_of_def)
  have "transfers_ok (?es @ [])" by (simp add: transfers_ok_def f, simp add: writes_of_def)
  from fence_acknowledged_once [OF this] f show ?thesis by fastforce
qed

end
