(* ===== verification/Remote_Write.thy ===== *)
theory Remote_Write
  imports Remote_Fence Payload Local_Alloc
begin

text \<open>
  Sending remote writes (\<^verbatim>\<open>do_remote_write\<close> of \<^verbatim>\<open>src/templates/mem_impl.cc\<close> in its three forms) and
  handling them: a write that does not fit into a long message buffer is cut into pieces, each of which
  is a message of its own, and the number of messages is what the fence announces.
\<close>

section \<open>Cutting a write into messages\<close>

text \<open>
  A message: the offset in the target memory, the payload and its size, and the address of the data in
  the target (0 when the message goes through a long message buffer).
\<close>

record rw_msg =
  rm_offset :: nat
  rm_src :: PayloadSource
  rm_size :: nat
  rm_dstptr :: addr

text \<open>
  The loop over pieces of at most \<open>max_xfer_size\<close> bytes.  Without any room it would send empty messages
  for ever: the value \<open>None\<close>.
\<close>

partial_function (option) split_write :: "nat \<Rightarrow> nat \<Rightarrow> addr \<Rightarrow> nat \<Rightarrow> payload_mode \<Rightarrow> rw_msg list option" where
  "split_write max_xfer_size offset pos datalen mode =
     (if datalen > max_xfer_size then
        Option.bind (split_write max_xfer_size (offset + max_xfer_size) (pos + max_xfer_size) (datalen - max_xfer_size) mode)
          (\<lambda>ms. Some (\<lparr>rm_offset = offset, rm_src = ContiguousPayload pos max_xfer_size mode,
                        rm_size = max_xfer_size, rm_dstptr = 0\<rparr> # ms))
      else Some [\<lparr>rm_offset = offset, rm_src = ContiguousPayload pos datalen mode, rm_size = datalen, rm_dstptr = 0\<rparr>])"

text \<open>The loop over pieces of whole lines; the source moves by the signed stride.\<close>

partial_function (option) split_lines ::
  "nat \<Rightarrow> nat \<Rightarrow> int \<Rightarrow> nat \<Rightarrow> int \<Rightarrow> nat \<Rightarrow> payload_mode \<Rightarrow> rw_msg list outcome option" where
  "split_lines max_lines offset pos datalen stride lines mode =
     (if pos < 0 then Some (Inl Undefined_Behaviour)
      else if lines > max_lines then
        Option.bind (split_lines max_lines (offset + datalen * max_lines) (pos + stride * int max_lines) datalen stride
                       (lines - max_lines) mode)
          (\<lambda>r. Some (obind r (\<lambda>ms.
             Inr (\<lparr>rm_offset = offset, rm_src = TwoDPayload (nat pos) datalen max_lines stride mode,
                    rm_size = datalen * max_lines, rm_dstptr = 0\<rparr> # ms))))
      else Some (Inr [\<lparr>rm_offset = offset, rm_src = TwoDPayload (nat pos) datalen lines stride mode,
                       rm_size = datalen * lines, rm_dstptr = 0\<rparr>]))"

text \<open>Collecting whole spans that fit into one message.\<close>

fun take_spans :: "nat \<Rightarrow> nat \<Rightarrow> (addr \<times> nat) list \<Rightarrow> (addr \<times> nat) list \<times> nat \<times> (addr \<times> nat) list" where
  "take_spans max_xfer_size xfer_size [] = ([], xfer_size, [])"
| "take_spans max_xfer_size xfer_size ((p, n) # it) =
     (if xfer_size + n > max_xfer_size then ([], xfer_size, (p, n) # it)
      else let (subspans, sz, rest) = take_spans max_xfer_size (xfer_size + n) it in ((p, n) # subspans, sz, rest))"

lemma take_spans_append:
  "take_spans mx x xs = (ys, z, zs) \<Longrightarrow> xs = ys @ zs \<and> z = x + spans_length ys \<and> (x \<le> mx \<longrightarrow> z \<le> mx)"
  by (induction mx x xs arbitrary: ys rule: take_spans.induct) (auto split: if_splits prod.splits)

text \<open>Unsigned subtraction of 64-bit sizes.\<close>

definition minus64 :: "nat \<Rightarrow> nat \<Rightarrow> nat" where
  "minus64 a b = (a + 2 ^ 64 - b) mod 2 ^ 64"

function split_spans ::
  "nat \<Rightarrow> nat \<Rightarrow> nat \<Rightarrow> (addr \<times> nat) list \<Rightarrow> payload_mode \<Rightarrow> rw_msg list outcome option" where
  "split_spans max_xfer_size offset datalen [] mode = Some (if datalen = 0 then Inr [] else Inl Assert_Failed)"
| "split_spans max_xfer_size offset datalen ((p, n) # it) mode =
     (if datalen = 0 then Some (Inr [])
      else if n > max_xfer_size then
        Option.bind (split_write max_xfer_size offset p n mode) (\<lambda>ms.
        Option.bind (split_spans max_xfer_size (offset + n) (minus64 datalen n) it mode) (\<lambda>r.
          Some (obind r (\<lambda>rest. Inr (ms @ rest)))))
      else
        let (subspans, xfer_size, rest) = take_spans max_xfer_size 0 ((p, n) # it)
        in if subspans = [] then Some (Inl Assert_Failed)
           else Option.bind (split_spans max_xfer_size (offset + xfer_size) (minus64 datalen xfer_size) rest mode) (\<lambda>r.
                  Some (obind r (\<lambda>ms.
                    Inr (\<lparr>rm_offset = offset, rm_src = SpanPayload subspans xfer_size mode,
                           rm_size = xfer_size, rm_dstptr = 0\<rparr> # ms)))))"
  by pat_completeness auto

termination
proof (relation "measure (\<lambda>(mx, off, len, spans, mode). length spans)", goal_cases)
  case (3 mx off len p n it mode x subspans y xfer rest)
  then have "(p, n) # it = subspans @ rest" using take_spans_append [of mx 0 "(p, n) # it" subspans xfer rest] by simp
  then have "length ((p, n) # it) = length subspans + length rest" by (metis length_append)
  with 3 show ?case by (cases subspans) auto
qed auto

text \<open>
  The three overloads, by the kind of payload.  \<open>rdma\<close> is the address at which the target memory is
  registered (0 when it is not): then the data can go there directly and no limit applies.
\<close>

fun do_remote_write :: "nat \<Rightarrow> addr \<Rightarrow> nat \<Rightarrow> PayloadSource \<Rightarrow> rw_msg list outcome option" where
  "do_remote_write lmb rdma offset (ContiguousPayload data datalen mode) =
     (let dstptr = (if rdma \<noteq> 0 then rdma + offset else 0)
      in if \<not> datalen > 0 then Some (Inl Assert_Failed)
         else if dstptr = 0 \<and> datalen > lmb then map_option Inr (split_write lmb offset data datalen mode)
         else Some (Inr [\<lparr>rm_offset = offset, rm_src = ContiguousPayload data datalen mode,
                          rm_size = datalen, rm_dstptr = dstptr\<rparr>]))"
| "do_remote_write lmb rdma offset (TwoDPayload data datalen lines stride mode) =
     (let dstptr = (if rdma \<noteq> 0 then rdma + offset else 0);
          whole = [\<lparr>rm_offset = offset, rm_src = TwoDPayload data datalen lines stride mode,
                     rm_size = datalen * lines, rm_dstptr = dstptr\<rparr>]
      in if dstptr = 0 then
           if datalen = 0 then Some (Inl Undefined_Behaviour)
           else
             let max_lines_per_xfer = lmb div datalen
             in if \<not> max_lines_per_xfer > 0 then Some (Inl Assert_Failed)
                else if lines > max_lines_per_xfer
                then split_lines max_lines_per_xfer offset (int data) datalen stride lines mode
                else Some (Inr whole)
         else Some (Inr whole))"
| "do_remote_write lmb rdma offset (SpanPayload spans datalen mode) =
     (let dstptr = (if rdma \<noteq> 0 then rdma + offset else 0)
      in if dstptr = 0 \<and> datalen > lmb then split_spans lmb offset datalen spans mode
         else Some (Inr [\<lparr>rm_offset = offset, rm_src = SpanPayload spans datalen mode,
                          rm_size = datalen, rm_dstptr = dstptr\<rparr>]))"

section \<open>Pieces laid end to end\<close>

text \<open>What the messages write: offset and bytes.\<close>

definition pieces :: "memory \<Rightarrow> rw_msg list \<Rightarrow> (nat \<times> byte list) list" where
  "pieces m ms = map (\<lambda>x. (rm_offset x, payload_data m (rm_src x))) ms"

fun laid_out :: "nat \<Rightarrow> (nat \<times> byte list) list \<Rightarrow> bool" where
  "laid_out off [] = True"
| "laid_out off ((p, d) # ps) = (p = off \<and> laid_out (off + length d) ps)"

definition put_piece :: "addr \<Rightarrow> nat \<times> byte list \<Rightarrow> memory \<Rightarrow> memory" where
  "put_piece base p t = write_bytes t (base + fst p) (snd p)"

lemma laid_out_agree:
  assumes "laid_out off ps" and "(p, d) \<in> set ps"
  shows "off \<le> p \<and> p + length d \<le> off + length (concat (map snd ps)) \<and>
    (\<forall>j < length d. d ! j = concat (map snd ps) ! (p - off + j))"
  using assms
proof (induction off ps rule: laid_out.induct)
  case (2 off q e ps)
  show ?case
  proof (cases "(p, d) = (q, e)")
    case True
    with 2 show ?thesis by (simp add: nth_append)
  next
    case False
    with 2 have ih: "off + length e \<le> p" "p + length d \<le> off + length e + length (concat (map snd ps))"
      "\<forall>j < length d. d ! j = concat (map snd ps) ! (p - (off + length e) + j)" by auto
    have "d ! j = concat (map snd ((q, e) # ps)) ! (p - off + j)" if "j < length d" for j
    proof -
      have "p - off + j = length e + (p - (off + length e) + j)" using ih(1) by simp
      then show ?thesis using ih(3) that by (simp add: nth_append)
    qed
    with ih show ?thesis by simp
  qed
qed simp

lemma laid_out_covers:
  assumes "laid_out off ps" and "off \<le> x" and "x < off + length (concat (map snd ps))"
  shows "\<exists>p d. (p, d) \<in> set ps \<and> p \<le> x \<and> x < p + length d"
  using assms
proof (induction off ps rule: laid_out.induct)
  case (2 off q e ps)
  show ?case
  proof (cases "x < off + length e")
    case True
    with "2.prems" show ?thesis by (intro exI [of _ q] exI [of _ e]) simp
  next
    case False
    with 2 have "\<exists>p d. (p, d) \<in> set ps \<and> p \<le> x \<and> x < p + length d" by (intro "2.IH") auto
    then show ?thesis by auto
  qed
qed simp

lemma fold_put_value:
  assumes "\<And>p d. (p, d) \<in> set ps \<Longrightarrow> base + p \<le> x \<Longrightarrow> x < base + p + length d \<Longrightarrow> d ! (x - (base + p)) = b"
    and "(\<exists>p d. (p, d) \<in> set ps \<and> base + p \<le> x \<and> x < base + p + length d) \<or> t x = b"
  shows "fold (put_piece base) ps t x = b"
  using assms
proof (induction ps arbitrary: t)
  case (Cons q ps)
  obtain p d where q: "q = (p, d)" by (cases q)
  show ?case
    unfolding fold_Cons o_apply
  proof (rule Cons.IH)
    show "e ! (x - (base + p')) = b" if "(p', e) \<in> set ps" "base + p' \<le> x" "x < base + p' + length e" for p' e
      using Cons.prems(1) [of p' e] that by simp
    show "(\<exists>p d. (p, d) \<in> set ps \<and> base + p \<le> x \<and> x < base + p + length d) \<or> put_piece base q t x = b"
      using Cons.prems(1) [of p d] Cons.prems(2) by (auto simp: q put_piece_def write_bytes_def)
  qed
qed simp

lemma fold_put_laid_out:
  assumes l: "laid_out off ps" and s: "set qs = set ps"
  shows "fold (put_piece base) qs t = write_bytes t (base + off) (concat (map snd ps))"
proof
  fix x
  let ?w = "concat (map snd ps)"
  show "fold (put_piece base) qs t x = write_bytes t (base + off) ?w x"
  proof (rule fold_put_value)
    fix p d assume pd: "(p, d) \<in> set qs" "base + p \<le> x" "x < base + p + length d"
    then have a: "off \<le> p" "p + length d \<le> off + length ?w" "\<forall>j < length d. d ! j = ?w ! (p - off + j)"
      using laid_out_agree [OF l, of p d] s by auto
    have "d ! (x - (base + p)) = ?w ! (p - off + (x - (base + p)))" using a(3) pd by auto
    moreover have "p - off + (x - (base + p)) = x - (base + off)" using a(1) pd(2) by simp
    ultimately show "d ! (x - (base + p)) = write_bytes t (base + off) ?w x"
      using a pd by (simp add: write_bytes_def)
  next
    show "(\<exists>p d. (p, d) \<in> set qs \<and> base + p \<le> x \<and> x < base + p + length d) \<or> t x = write_bytes t (base + off) ?w x"
    proof (cases "x \<in> {base + off ..< base + off + length ?w}")
      case True
      then have "off \<le> x - base" "x - base < off + length ?w" by auto
      from laid_out_covers [OF l this] obtain p d where "(p, d) \<in> set ps" "p \<le> x - base" "x - base < p + length d" by blast
      with True s show ?thesis by (intro disjI1 exI [of _ p] exI [of _ d]) auto
    next
      case False
      then show ?thesis by (simp add: write_bytes_outside)
    qed
  qed
qed

text \<open>
  A list of messages is a good cut of a payload at an offset: laid end to end the messages carry its
  bytes, each has the size it states, and each fits into a buffer unless the target memory is registered,
  in which case it names its destination there.
\<close>

definition good_cut :: "nat \<Rightarrow> addr \<Rightarrow> memory \<Rightarrow> nat \<Rightarrow> byte list \<Rightarrow> rw_msg list \<Rightarrow> bool" where
  "good_cut lmb rdma m off bytes ms \<longleftrightarrow> ms \<noteq> [] \<and> laid_out off (pieces m ms) \<and> concat (map snd (pieces m ms)) = bytes \<and>
     (\<forall>x \<in> set ms. rm_size x = length (payload_data m (rm_src x)) \<and> (rm_size x \<le> lmb \<or> rdma \<noteq> 0) \<and>
        rm_dstptr x = (if rdma \<noteq> 0 then rdma + rm_offset x else 0))"

lemma laid_out_append [simp]:
  "laid_out off (ps @ qs) \<longleftrightarrow> laid_out off ps \<and> laid_out (off + length (concat (map snd ps))) qs"
  by (induction off ps rule: laid_out.induct) (auto simp: add.assoc)

lemma payload_data_contiguous [simp]: "payload_data m (ContiguousPayload p n mode) = read_bytes m p n"
  by (simp add: payload_data_def)

lemma payload_data_lines [simp]:
  "payload_data m (TwoDPayload p n k st mode) = spans_data m (line_spans (int p) n k st)"
  by (simp add: payload_data_def)

lemma payload_data_spans [simp]: "payload_data m (SpanPayload xs n mode) = spans_data m xs"
  by (simp add: payload_data_def)

lemma good_cut_single:
  assumes "n = length (payload_data m src)" and "n \<le> lmb \<or> rdma \<noteq> 0" and "d = (if rdma \<noteq> 0 then rdma + off else 0)"
  shows "good_cut lmb rdma m off (payload_data m src) [\<lparr>rm_offset = off, rm_src = src, rm_size = n, rm_dstptr = d\<rparr>]"
  using assms by (auto simp: good_cut_def pieces_def)

lemma good_cut_append:
  assumes "good_cut lmb rdma m off xs ms" and "good_cut lmb rdma m (off + length xs) ys ns"
  shows "good_cut lmb rdma m off (xs @ ys) (ms @ ns)"
  using assms by (auto simp: good_cut_def pieces_def)

lemma split_write_good:
  assumes "0 < lmb"
  shows "\<exists>ms. split_write lmb off pos len mode = Some ms \<and> good_cut lmb 0 m off (read_bytes m pos len) ms"
proof (induction len arbitrary: off pos rule: less_induct)
  case (less len)
  show ?case
  proof (cases "len > lmb")
    case True
    then have "len - lmb < len" using assms by simp
    from less.IH [OF this] obtain ms where
      ms: "split_write lmb (off + lmb) (pos + lmb) (len - lmb) mode = Some ms"
        "good_cut lmb 0 m (off + lmb) (read_bytes m (pos + lmb) (len - lmb)) ms" by blast
    have "good_cut lmb 0 m off (read_bytes m pos lmb)
        [\<lparr>rm_offset = off, rm_src = ContiguousPayload pos lmb mode, rm_size = lmb, rm_dstptr = 0\<rparr>]"
      using good_cut_single [of lmb m "ContiguousPayload pos lmb mode" lmb 0 0 off] by simp
    from good_cut_append [OF this, of "read_bytes m (pos + lmb) (len - lmb)" ms] ms True
    show ?thesis using read_bytes_append [of m pos lmb "len - lmb"] by (subst split_write.simps) simp
  next
    case False
    then show ?thesis using good_cut_single [of len m "ContiguousPayload pos len mode" lmb 0 0 off]
      by (subst split_write.simps) simp
  qed
qed

lemma line_spans_split:
  "line_spans src n (k + j) st = line_spans src n k st @ line_spans (src + st * int k) n j st"
  by (induction k arbitrary: src) (auto simp: algebra_simps)

lemma spans_data_append [simp]: "spans_data m (xs @ ys) = spans_data m xs @ spans_data m ys"
  by (simp add: spans_data_def)

lemma split_lines_good:
  assumes "0 < k" and "k * n \<le> lmb" and "\<forall>i < lines. 0 \<le> pos + int i * st" and "0 < lines"
  shows "\<exists>ms. split_lines k off pos n st lines mode = Some (Inr ms) \<and>
    good_cut lmb 0 m off (spans_data m (line_spans pos n lines st)) ms"
  using assms(3,4)
proof (induction lines arbitrary: off pos rule: less_induct)
  case (less lines)
  have pos: "0 \<le> pos" using less.prems(1) [rule_format, OF less.prems(2)] by simp
  show ?case
  proof (cases "lines > k")
    case True
    have "\<forall>i < lines - k. 0 \<le> pos + st * int k + int i * st"
    proof (intro allI impI)
      fix i assume "i < lines - k"
      then have "k + i < lines" by linarith
      from less.prems(1) [rule_format, OF this] have "0 \<le> pos + int (k + i) * st" .
      then show "0 \<le> pos + st * int k + int i * st" by (simp add: algebra_simps)
    qed
    moreover have "lines - k < lines" "0 < lines - k" using True assms(1) by auto
    ultimately obtain ms where
      ms: "split_lines k (off + n * k) (pos + st * int k) n st (lines - k) mode = Some (Inr ms)"
        "good_cut lmb 0 m (off + n * k) (spans_data m (line_spans (pos + st * int k) n (lines - k) st)) ms"
      using less.IH by blast
    have "good_cut lmb 0 m off (spans_data m (line_spans pos n k st))
        [\<lparr>rm_offset = off, rm_src = TwoDPayload (nat pos) n k st mode, rm_size = n * k, rm_dstptr = 0\<rparr>]"
      using good_cut_single [of "n * k" m "TwoDPayload (nat pos) n k st mode" lmb 0 0 off] assms(2) pos by (simp add: mult.commute)
    from good_cut_append [OF this, of "spans_data m (line_spans (pos + st * int k) n (lines - k) st)" ms] ms True pos
    show ?thesis using line_spans_split [of pos n k "lines - k" st] by (subst split_lines.simps) (simp add: mult.commute)
  next
    case False
    then have "lines * n \<le> k * n" by (intro mult_le_mono1) simp
    then have "lines * n \<le> lmb" using assms(2) by (rule order_trans)
    then have "good_cut lmb 0 m off (spans_data m (line_spans pos n lines st))
        [\<lparr>rm_offset = off, rm_src = TwoDPayload (nat pos) n lines st mode, rm_size = n * lines, rm_dstptr = 0\<rparr>]"
      using good_cut_single [of "n * lines" m "TwoDPayload (nat pos) n lines st mode" lmb 0 0 off] pos by (simp add: mult.commute)
    with False pos show ?thesis by (subst split_lines.simps) simp
  qed
qed

lemma minus64_id: "b \<le> a \<Longrightarrow> a < 2 ^ 64 \<Longrightarrow> minus64 a b = a - b"
proof -
  assume "b \<le> a" "a < 2 ^ 64"
  then have "a + 2 ^ 64 - b = (a - b) + 2 ^ 64" "a - b < 2 ^ 64" by auto
  then show ?thesis unfolding minus64_def by (simp only: mod_add_self2 mod_less)
qed

lemma spans_length_append [simp]: "spans_length (xs @ ys) = spans_length xs + spans_length ys"
  by (simp add: spans_length_def)

text \<open>An empty rest of the data needs no message, so the statement is for a possibly empty cut.\<close>

lemma split_spans_good:
  assumes "0 < lmb" and "spans_length spans = len" and "len < 2 ^ 64"
  shows "\<exists>ms. split_spans lmb off len spans mode = Some (Inr ms) \<and>
    (if len = 0 then ms = [] else good_cut lmb 0 m off (spans_data m spans) ms)"
  using assms(2,3)
proof (induction "length spans" arbitrary: off len spans rule: less_induct)
  case less
  have data0: "spans_data m xs = []" if "spans_length xs = 0" for xs
    using that by (simp flip: length_0_conv)
  show ?case
  proof (cases "spans = [] \<or> len = 0")
    case True
    with less.prems show ?thesis by (cases spans) auto
  next
    case False
    then obtain p n it where sp: "spans = (p, n) # it" by (cases spans) auto
    show ?thesis
    proof (cases "n > lmb")
      case True
      obtain ms where ms: "split_write lmb off p n mode = Some ms" "good_cut lmb 0 m off (read_bytes m p n) ms"
        using split_write_good [OF assms(1)] by blast
      have len: "len = n + spans_length it" using less.prems sp by simp
      have mn: "minus64 len n = spans_length it" using minus64_id [of n len] less.prems len by simp
      from less.hyps [of it "spans_length it" "off + n"] sp len less.prems obtain ns where
        ns: "split_spans lmb (off + n) (spans_length it) it mode = Some (Inr ns)"
          "if spans_length it = 0 then ns = [] else good_cut lmb 0 m (off + n) (spans_data m it) ns" by auto
      have "good_cut lmb 0 m off (spans_data m spans) (ms @ ns)"
        using ns(2) ms(2) good_cut_append [OF ms(2), of "spans_data m it" ns] data0 [of it]
        by (cases "spans_length it = 0") (simp_all add: sp)
      with ms ns False True mn sp show ?thesis by simp
    next
      case small: False
      obtain ys z zs where t: "take_spans lmb 0 spans = (ys, z, zs)" by (metis prod_cases3)
      note T = take_spans_append [OF t]
      have ne: "ys \<noteq> []" using t small by (auto simp: sp split: prod.splits)
      have len: "len = z + spans_length zs" using less.prems T by auto
      have mz: "minus64 len z = spans_length zs" using minus64_id [of z len] less.prems len by simp
      have sh: "length zs < length spans" using T ne by (cases ys) auto
      from less.hyps [OF sh, of "spans_length zs" "off + z"] len less.prems obtain ns where
        ns: "split_spans lmb (off + z) (spans_length zs) zs mode = Some (Inr ns)"
          "if spans_length zs = 0 then ns = [] else good_cut lmb 0 m (off + z) (spans_data m zs) ns" by auto
      let ?x = "\<lparr>rm_offset = off, rm_src = SpanPayload ys z mode, rm_size = z, rm_dstptr = 0\<rparr>"
      have g: "good_cut lmb 0 m off (spans_data m ys) [?x]"
        using good_cut_single [of z m "SpanPayload ys z mode" lmb 0 0 off] T by simp
      have "good_cut lmb 0 m off (spans_data m spans) (?x # ns)"
        using g ns(2) good_cut_append [OF g, of "spans_data m zs" ns] data0 [of zs] T
        by (cases "spans_length zs = 0") simp_all
      with ns False small ne mz t sp show ?thesis by simp
    qed
  qed
qed

text \<open>Payloads for which the call is meant: not empty, well formed, and lines that fit into a buffer.\<close>

fun sendable :: "nat \<Rightarrow> addr \<Rightarrow> PayloadSource \<Rightarrow> bool" where
  "sendable lmb rdma (ContiguousPayload p n mode) = (0 < n)"
| "sendable lmb rdma (TwoDPayload p n k st mode) =
     (payload_ok (TwoDPayload p n k st mode) \<and> 0 < n \<and> 0 < k \<and> (n \<le> lmb \<or> rdma \<noteq> 0))"
| "sendable lmb rdma (SpanPayload xs n mode) = (payload_ok (SpanPayload xs n mode) \<and> n < 2 ^ 64)"

lemma do_remote_write_good:
  assumes "0 < lmb" and "sendable lmb rdma src"
  shows "\<exists>ms. do_remote_write lmb rdma off src = Some (Inr ms) \<and> good_cut lmb rdma m off (payload_data m src) ms"
proof (cases src)
  case (ContiguousPayload p n mode)
  show ?thesis
  proof (cases "rdma = 0 \<and> n > lmb")
    case True
    with split_write_good [OF assms(1), of off p n mode m] assms(2) ContiguousPayload show ?thesis by auto
  next
    case False
    then have "good_cut lmb rdma m off (payload_data m src) [\<lparr>rm_offset = off, rm_src = src, rm_size = n,
        rm_dstptr = (if rdma \<noteq> 0 then rdma + off else 0)\<rparr>]"
      using ContiguousPayload by (intro good_cut_single) auto
    with False assms(2) ContiguousPayload show ?thesis by (auto simp: Let_def)
  qed
next
  case (TwoDPayload p n k st mode)
  then have ok: "\<forall>i < k. 0 \<le> int p + int i * st" "0 < n" "0 < k" "n \<le> lmb \<or> rdma \<noteq> 0" using assms(2) by auto
  show ?thesis
  proof (cases "rdma = 0 \<and> k > lmb div n")
    case True
    then have l: "0 < lmb div n" "lmb div n * n \<le> lmb" using ok by (auto simp: div_greater_zero_iff)
    from split_lines_good [OF l ok(1,3), of off mode m] True ok(2) l(1) TwoDPayload show ?thesis by (auto simp: Let_def)
  next
    case False
    have "n * k \<le> lmb" if "rdma = 0"
    proof -
      have "k \<le> lmb div n" using False that by simp
      then have "k * n \<le> lmb div n * n" by (rule mult_le_mono1)
      also have "\<dots> \<le> lmb" by simp
      finally show ?thesis by (simp add: mult.commute)
    qed
    then have "good_cut lmb rdma m off (payload_data m src) [\<lparr>rm_offset = off, rm_src = src, rm_size = n * k,
        rm_dstptr = (if rdma \<noteq> 0 then rdma + off else 0)\<rparr>]"
      using TwoDPayload by (intro good_cut_single) auto
    with False ok TwoDPayload show ?thesis by (auto simp: Let_def div_greater_zero_iff)
  qed
next
  case (SpanPayload xs n mode)
  then have ok: "spans_length xs = n" "n < 2 ^ 64" using assms(2) by auto
  show ?thesis
  proof (cases "rdma = 0 \<and> n > lmb")
    case True
    with split_spans_good [OF assms(1) ok, of off mode m] SpanPayload show ?thesis by (auto split: if_splits)
  next
    case False
    then have "good_cut lmb rdma m off (payload_data m src) [\<lparr>rm_offset = off, rm_src = src, rm_size = n,
        rm_dstptr = (if rdma \<noteq> 0 then rdma + off else 0)\<rparr>]"
      using SpanPayload ok by (intro good_cut_single) auto
    with False SpanPayload show ?thesis by (auto simp: Let_def)
  qed
qed

section \<open>Handling a write\<close>

datatype MemoryKind =
    MKIND_SYSMEM | MKIND_GLOBAL | MKIND_RDMA | MKIND_REMOTE | MKIND_GPUFB | MKIND_ZEROCOPY | MKIND_DISK | MKIND_FILE | MKIND_HDF

text \<open>
  The memory a message is for: a CPU memory, or a memory of another kind with its \<^verbatim>\<open>put_bytes\<close>
  (a virtual method).
\<close>

datatype mem_object =
    CPU_Object LocalCPUMemory
  | Other_Object MemoryKind "memory \<Rightarrow> nat \<Rightarrow> addr \<Rightarrow> nat \<Rightarrow> memory"

definition handle_remote_write ::
  "mem_object \<Rightarrow> memory \<Rightarrow> PartialWriteMap \<Rightarrow> nat \<Rightarrow> nat \<Rightarrow> nat \<Rightarrow> addr \<Rightarrow> nat \<Rightarrow>
     memory \<times> PartialWriteMap \<times> (PartialWriteKey \<times> nat) list" where
  "handle_remote_write impl mem pw offset snd' seq data datalen =
     (let was_written_directly =
            (case impl of CPU_Object c \<Rightarrow> cpu_registered c \<and> data = cpu_base c + offset | Other_Object k put \<Rightarrow> False);
          mem' = (if was_written_directly then mem
                  else case impl of CPU_Object c \<Rightarrow> cpu_put_bytes c mem offset data datalen
                                  | Other_Object k put \<Rightarrow> put mem offset data datalen)
      in (mem', count_write pw snd' seq))"

text \<open>
  A transfer arriving at a CPU memory: the network puts the bytes of a message at the destination it
  names or into a buffer, then the handler runs; the fence of the transfer comes at some point.
\<close>

datatype rw_arrival =
    Data rw_msg addr
  | Fence "32 word" nat

fun arrive ::
  "LocalCPUMemory \<Rightarrow> memory \<Rightarrow> PartialWriteKey \<Rightarrow> memory \<times> PartialWriteMap \<times> (PartialWriteKey \<times> nat) list \<Rightarrow> rw_arrival \<Rightarrow>
     (memory \<times> PartialWriteMap \<times> (PartialWriteKey \<times> nat) list) outcome" where
  "arrive c src k (mem, pw, acks) (Data x ptr) =
     (let (mem', pw', a) = handle_remote_write (CPU_Object c) (write_bytes mem ptr (payload_data src (rm_src x))) pw
                             (rm_offset x) (sender k) (sequence_id k) ptr (rm_size x)
      in Inr (mem', pw', acks @ a))"
| "arrive c src k (mem, pw, acks) (Fence n f) =
     obind (handle_fence pw (sender k) (sequence_id k) n f) (\<lambda>(pw', a). Inr (mem, pw', acks @ a))"

fun arrive_all ::
  "LocalCPUMemory \<Rightarrow> memory \<Rightarrow> PartialWriteKey \<Rightarrow> memory \<times> PartialWriteMap \<times> (PartialWriteKey \<times> nat) list \<Rightarrow> rw_arrival list \<Rightarrow>
     (memory \<times> PartialWriteMap \<times> (PartialWriteKey \<times> nat) list) outcome" where
  "arrive_all c src k s [] = Inr s"
| "arrive_all c src k s (e # es) = obind (arrive c src k s e) (\<lambda>s'. arrive_all c src k s' es)"

fun arrival_event :: "PartialWriteKey \<Rightarrow> rw_arrival \<Rightarrow> rw_event" where
  "arrival_event k (Data x ptr) = Write_Handled k"
| "arrival_event k (Fence n f) = Fence_Handled k n f"

fun arrival_msgs :: "rw_arrival list \<Rightarrow> (rw_msg \<times> addr) list" where
  "arrival_msgs [] = []"
| "arrival_msgs (Data x ptr # es) = (x, ptr) # arrival_msgs es"
| "arrival_msgs (Fence n f # es) = arrival_msgs es"

definition cpu_region :: "LocalCPUMemory \<Rightarrow> addr set" where
  "cpu_region c = {cpu_base c ..< cpu_base c + mi_size (cpu_impl c)}"

text \<open>Where the network may put a message: its destination, or a buffer outside the memory.\<close>

definition placed :: "LocalCPUMemory \<Rightarrow> rw_msg \<Rightarrow> addr \<Rightarrow> bool" where
  "placed c x ptr \<longleftrightarrow> (if rm_dstptr x \<noteq> 0 then ptr = rm_dstptr x else {ptr ..< ptr + rm_size x} \<inter> cpu_region c = {})"

lemma handle_write_region:
  assumes sz: "rm_size x = length (payload_data src (rm_src x))"
    and d: "rm_dstptr x = (if local_reg_base c \<noteq> 0 then local_reg_base c + rm_offset x else 0)"
    and ptr: "placed c x ptr" and y: "y \<in> cpu_region c"
    and fit: "rm_offset x + rm_size x \<le> mi_size (cpu_impl c)"
    and h: "handle_remote_write (CPU_Object c) (write_bytes mem ptr (payload_data src (rm_src x))) pw
              (rm_offset x) s q ptr (rm_size x) = (mem', r)"
  shows "mem' y = put_piece (cpu_base c) (rm_offset x, payload_data src (rm_src x)) mem y"
proof -
  let ?b = "payload_data src (rm_src x)" and ?a = "cpu_base c + rm_offset x"
  show ?thesis
  proof (cases "ptr = ?a")
    case True
    have "read_bytes (write_bytes mem ?a ?b) ?a (length ?b) = ?b" by simp
    then have "memcpy (write_bytes mem ?a ?b) ?a ?a (rm_size x) = write_bytes (write_bytes mem ?a ?b) ?a ?b"
      by (simp add: memcpy_def sz)
    moreover have "write_bytes (write_bytes mem ?a ?b) ?a ?b = write_bytes mem ?a ?b"
      by (auto simp: write_bytes_def)
    ultimately have "mem' = write_bytes mem ?a ?b"
      using h True by (auto simp: handle_remote_write_def Let_def cpu_put_bytes_def split: if_splits)
    then show ?thesis by (simp add: put_piece_def)
  next
    case False
    then have buf: "rm_dstptr x = 0 \<or> rm_size x = 0"
      using ptr d by (auto simp: placed_def local_reg_base_def split: if_splits)
    have "mem' = memcpy (write_bytes mem ptr ?b) ?a ptr (rm_size x)"
      using h False by (simp add: handle_remote_write_def Let_def cpu_put_bytes_def)
    then have m: "mem' = write_bytes (write_bytes mem ptr ?b) ?a ?b" by (simp add: memcpy_def sz)
    have "y \<notin> {ptr ..< ptr + length ?b}"
    proof
      assume "y \<in> {ptr ..< ptr + length ?b}"
      moreover have "rm_dstptr x = 0" using buf sz \<open>y \<in> {ptr ..< ptr + length ?b}\<close> by auto
      ultimately have "y \<in> {ptr ..< ptr + rm_size x} \<inter> cpu_region c" using y sz by simp
      with ptr \<open>rm_dstptr x = 0\<close> show False by (simp add: placed_def)
    qed
    then show ?thesis unfolding m put_piece_def by (auto simp: write_bytes_def)
  qed
qed

lemma put_piece_cong: "t y = t' y \<Longrightarrow> put_piece b p t y = put_piece b p t' y"
  by (simp add: put_piece_def write_bytes_def)

lemma fold_put_cong:
  "(\<And>y. y \<in> R \<Longrightarrow> t y = t' y) \<Longrightarrow> y \<in> R \<Longrightarrow> fold (put_piece b) ps t y = fold (put_piece b) ps t' y"
proof (induction ps arbitrary: t t')
  case (Cons p ps)
  have "put_piece b p t y = put_piece b p t' y" if "y \<in> R" for y
    using Cons.prems(1) [OF that] by (rule put_piece_cong)
  from Cons.IH [OF this Cons.prems(2)] show ?case by simp
qed simp

lemma arrive_all_splits:
  assumes "\<forall>(x, ptr) \<in> set (arrival_msgs es). rm_size x = length (payload_data src (rm_src x)) \<and> placed c x ptr \<and>
      rm_dstptr x = (if local_reg_base c \<noteq> 0 then local_reg_base c + rm_offset x else 0) \<and>
      rm_offset x + rm_size x \<le> mi_size (cpu_impl c)"
    and "rw_run (pw, acks) (map (arrival_event k) es) = Inr (pw', acks')"
  shows "\<exists>mem'. arrive_all c src k (mem, pw, acks) es = Inr (mem', pw', acks') \<and>
    (\<forall>y \<in> cpu_region c. mem' y = fold (put_piece (cpu_base c)) (pieces src (map fst (arrival_msgs es))) mem y)"
  using assms
proof (induction es arbitrary: mem pw acks)
  case Nil
  then show ?case by (simp add: pieces_def)
next
  case (Cons e es)
  show ?case
  proof (cases e)
    case (Data x ptr)
    obtain mem1 pw1 a where h: "handle_remote_write (CPU_Object c) (write_bytes mem ptr (payload_data src (rm_src x))) pw
              (rm_offset x) (sender k) (sequence_id k) ptr (rm_size x) = (mem1, pw1, a)" by (metis prod_cases3)
    then have cw: "count_write pw (sender k) (sequence_id k) = (pw1, a)" by (simp add: handle_remote_write_def Let_def)
    have run: "rw_run (pw1, acks @ a) (map (arrival_event k) es) = Inr (pw', acks')"
      using Cons.prems(2) cw by (simp add: Data)
    have m1: "mem1 y = put_piece (cpu_base c) (rm_offset x, payload_data src (rm_src x)) mem y" if "y \<in> cpu_region c" for y
      using handle_write_region [OF _ _ _ that _ h] Cons.prems(1) by (simp add: Data)
    have "\<forall>(x, ptr) \<in> set (arrival_msgs es). rm_size x = length (payload_data src (rm_src x)) \<and> placed c x ptr \<and>
      rm_dstptr x = (if local_reg_base c \<noteq> 0 then local_reg_base c + rm_offset x else 0) \<and>
      rm_offset x + rm_size x \<le> mi_size (cpu_impl c)" using Cons.prems(1) by (simp add: Data)
    from Cons.IH [OF this run] obtain mem' where m': "arrive_all c src k (mem1, pw1, acks @ a) es = Inr (mem', pw', acks')"
      "\<forall>y \<in> cpu_region c. mem' y = fold (put_piece (cpu_base c)) (pieces src (map fst (arrival_msgs es))) mem1 y" by blast
    have "mem' y = fold (put_piece (cpu_base c)) (pieces src (map fst (arrival_msgs (e # es)))) mem y" if "y \<in> cpu_region c" for y
      using m'(2) that fold_put_cong [OF m1 that] by (simp add: Data pieces_def)
    with m'(1) h show ?thesis by (simp add: Data)
  next
    case (Fence n f)
    with Cons.prems(2) obtain pw1 a where
      hf: "handle_fence pw (sender k) (sequence_id k) n f = Inr (pw1, a)"
        "rw_run (pw1, acks @ a) (map (arrival_event k) es) = Inr (pw', acks')" by auto
    from Cons.IH [OF _ hf(2)] Cons.prems(1) hf(1) show ?thesis by (simp add: Fence)
  qed
qed

section \<open>Whole transfers\<close>

lemma arrival_writes: "writes_of k (map (arrival_event k) es) = length (arrival_msgs es)"
  by (induction es rule: arrival_msgs.induct) (auto simp: writes_of_def)

lemma arrival_fences:
  "fences_of k (map (arrival_event k) es) = concat (map (\<lambda>e. case e of Fence n f \<Rightarrow> [(n, f)] | Data x p \<Rightarrow> []) es)"
proof (induction es)
  case (Cons e es)
  then show ?case using fences_of_append [of k "[arrival_event k e]" "map (arrival_event k) es"] by (cases e) auto
qed (simp add: fences_of_def)

lemma arrival_keys: "event_key (arrival_event k e) = k"
  by (cases e) auto

lemma good_cut_bounds:
  assumes "good_cut lmb rdma m off bytes ms" and "x \<in> set ms"
  shows "rm_offset x + rm_size x \<le> off + length bytes"
proof -
  have "(rm_offset x, payload_data m (rm_src x)) \<in> set (pieces m ms)" using assms(2) by (auto simp: pieces_def)
  from laid_out_agree [OF _ this, of off] assms show ?thesis by (auto simp: good_cut_def)
qed

lemma transfer_events:
  assumes q: "sequence_id k \<noteq> 0" and ms: "length (arrival_msgs es) = n" "0 < n" "n < 2 ^ 31"
    and f: "concat (map (\<lambda>e. case e of Fence n f \<Rightarrow> [(n, f)] | Data x p \<Rightarrow> []) es) = [(of_nat n, f)]" "f \<noteq> 0"
  shows "rw_run ([], []) (map (arrival_event k) es) = Inr ([], [(k, f)])"
proof (rule one_transfer [OF q _ _ ms(2,3) _ f(2)])
  show "event_key ` set (map (arrival_event k) es) \<subseteq> {k}" by (auto simp: arrival_keys)
  show "writes_of k (map (arrival_event k) es) = n" using ms(1) by (simp add: arrival_writes)
  show "fences_of k (map (arrival_event k) es) = [(of_nat n, f)]" using f(1) by (simp add: arrival_fences)
qed

section \<open>Properties\<close>

text \<open>
  A remote write reaches its target whole: the call returns, every message states its size and fits
  into a long message buffer unless the target is registered memory, and writing the messages at their
  offsets, in any order, is writing the bytes of the payload at the offset of the call and nothing else.
\<close>

theorem remote_write_covers:
  assumes "0 < lmb" and "sendable lmb rdma src"
  shows "\<exists>ms. do_remote_write lmb rdma off src = Some (Inr ms) \<and> ms \<noteq> [] \<and>
    (\<forall>x \<in> set ms. rm_size x = length (payload_data m (rm_src x)) \<and> (rm_size x \<le> lmb \<or> rm_dstptr x \<noteq> 0)) \<and>
    (\<forall>ms' base t. set ms' = set ms \<longrightarrow>
       fold (put_piece base) (pieces m ms') t = write_bytes t (base + off) (payload_data m src))"
proof -
  obtain ms where ms: "do_remote_write lmb rdma off src = Some (Inr ms)" "good_cut lmb rdma m off (payload_data m src) ms"
    using do_remote_write_good [OF assms] by blast
  then have l: "laid_out off (pieces m ms)" "concat (map snd (pieces m ms)) = payload_data m src" by (auto simp: good_cut_def)
  have "fold (put_piece base) (pieces m ms') t = write_bytes t (base + off) (payload_data m src)"
    if "set ms' = set ms" for ms' base t
    using fold_put_laid_out [OF l(1), of "pieces m ms'" base t] that l(2) by (simp add: pieces_def)
  with ms show ?thesis by (auto simp: good_cut_def)
qed

theorem remote_write_covers_witness:
  "\<exists>ms. do_remote_write 64 0 512 (SpanPayload [(1000, 100), (2000, 30), (3000, 20)] 150 PAYLOAD_KEEP) = Some (Inr ms) \<and>
     fold (put_piece 8000) (pieces (\<lambda>x. of_nat x) (rev ms)) (\<lambda>_. 0) =
       write_bytes (\<lambda>_. 0) (8000 + 512) (payload_data (\<lambda>x. of_nat x) (SpanPayload [(1000, 100), (2000, 30), (3000, 20)] 150 PAYLOAD_KEEP))"
proof -
  have "sendable 64 0 (SpanPayload [(1000, 100), (2000, 30), (3000, 20)] 150 PAYLOAD_KEEP)" by simp
  from remote_write_covers [OF _ this, of 512 "\<lambda>x. of_nat x"] obtain ms where
    "do_remote_write 64 0 512 (SpanPayload [(1000, 100), (2000, 30), (3000, 20)] 150 PAYLOAD_KEEP) = Some (Inr ms)"
    "\<forall>ms' base t. set ms' = set ms \<longrightarrow> fold (put_piece base) (pieces (\<lambda>x. of_nat x) ms') t =
       write_bytes t (base + 512) (payload_data (\<lambda>x. of_nat x) (SpanPayload [(1000, 100), (2000, 30), (3000, 20)] 150 PAYLOAD_KEEP))"
    by auto
  then show ?thesis by simp
qed

text \<open>
  C34. The loop that cuts a contiguous write returns for every request when a long message buffer has
  any room, and for no request that carries data when it has none.
\<close>

theorem split_write_terminates:
  "split_write lmb off pos len mode = None \<longleftrightarrow> lmb = 0 \<and> 0 < len"
proof
  assume n: "split_write lmb off pos len mode = None"
  then have "lmb = 0" using split_write_good [of lmb off pos len mode] by (cases "lmb = 0") auto
  moreover have "0 < len"
  proof (rule ccontr)
    assume "\<not> 0 < len"
    then have "split_write lmb off pos len mode \<noteq> None" by (subst split_write.simps) simp
    with n show False by simp
  qed
  ultimately show "lmb = 0 \<and> 0 < len" ..
next
  assume z: "lmb = 0 \<and> 0 < len"
  have "\<not> (lmb = 0 \<and> 0 < len)" if "split_write lmb off pos len mode = Some r" for r
    by (rule split_write.raw_induct [OF _ that, where P = "\<lambda>lmb off pos len mode r. \<not> (lmb = 0 \<and> 0 < len)"])
      (fastforce split: if_splits Option.bind_splits)
  with z show "split_write lmb off pos len mode = None" by (cases "split_write lmb off pos len mode") auto
qed

end
