(* ===== verification/Remote_Ops.thy ===== *)
theory Remote_Ops
  imports Remote_Write
begin

text \<open>
  Remote reductions and remote writes of serialised fields (\<^verbatim>\<open>src/templates/mem_impl.cc\<close>).  Reduction
  operators and serialisers are given by the application: an operator is known by its number and the
  size of its right-hand side, a serialiser is the arguments \<open>ser\<close> and \<open>deser\<close>.
\<close>

section \<open>Reductions\<close>

record red_msg =
  rd_offset :: int
  rd_stride :: int
  rd_redop :: int
  rd_src :: PayloadSource

partial_function (option) split_reduce ::
  "nat \<Rightarrow> nat \<Rightarrow> int \<Rightarrow> int \<Rightarrow> int \<Rightarrow> int \<Rightarrow> int \<Rightarrow> nat \<Rightarrow> payload_mode \<Rightarrow> red_msg list outcome option" where
  "split_reduce max_elmts rhs_size offset dst_stride redop pos src_stride n mode =
     (if pos < 0 then Some (Inl Undefined_Behaviour)
      else if n > max_elmts then
        Option.bind (split_reduce max_elmts rhs_size (offset + dst_stride * int max_elmts) dst_stride redop
                       (pos + src_stride * int max_elmts) src_stride (n - max_elmts) mode)
          (\<lambda>r. Some (obind r (\<lambda>ms.
             Inr (\<lparr>rd_offset = offset, rd_stride = dst_stride, rd_redop = redop,
                    rd_src = TwoDPayload (nat pos) rhs_size max_elmts src_stride mode\<rparr> # ms))))
      else Some (Inr [\<lparr>rd_offset = offset, rd_stride = dst_stride, rd_redop = redop,
                       rd_src = TwoDPayload (nat pos) rhs_size n src_stride mode\<rparr>]))"

text \<open>The stride travels in a field of 32 bits; a fold is marked by the sign of the operator number.\<close>

definition do_remote_reduce ::
  "nat \<Rightarrow> nat \<Rightarrow> int \<Rightarrow> int \<Rightarrow> bool \<Rightarrow> addr \<Rightarrow> nat \<Rightarrow> int \<Rightarrow> int \<Rightarrow> payload_mode \<Rightarrow> red_msg list outcome option" where
  "do_remote_reduce lmb rhs_size offset redop_id red_fold data n src_stride dst_stride mode =
     (if rhs_size = 0 then Some (Inl Undefined_Behaviour)
      else
        let max_elmts_per_xfer = lmb div rhs_size;
            redop = (if red_fold then - redop_id else redop_id);
            stride = sint (word_of_int dst_stride :: 32 word)
        in if \<not> max_elmts_per_xfer > 0 then Some (Inl Assert_Failed)
           else if stride \<noteq> dst_stride then Some (Inl Assert_Failed)
           else if n > max_elmts_per_xfer
           then split_reduce max_elmts_per_xfer rhs_size offset dst_stride redop (int data) src_stride n mode
           else Some (Inr [\<lparr>rd_offset = offset, rd_stride = stride, rd_redop = redop,
                            rd_src = TwoDPayload data rhs_size n src_stride mode\<rparr>]))"

text \<open>
  The handler calls the operator on elements at a stride in the memory; the call is described by the list
  of its elements: operator, whether it folds, address of the left-hand side, bytes of the right-hand side.
  \<open>base\<close> is the start of the memory (0: no direct access).
\<close>

type_synonym red_elem = "int \<times> bool \<times> int \<times> byte list"

definition strided_elems :: "int \<Rightarrow> bool \<Rightarrow> int \<Rightarrow> byte list \<Rightarrow> int \<Rightarrow> nat \<Rightarrow> nat \<Rightarrow> red_elem list" where
  "strided_elems redop_id red_fold lhs data stride rhs_size n =
     map (\<lambda>i. (redop_id, red_fold, lhs + int i * stride, take rhs_size (drop (i * rhs_size) data))) [0 ..< n]"

definition handle_remote_reduce :: "addr \<Rightarrow> nat \<Rightarrow> int \<Rightarrow> int \<Rightarrow> int \<Rightarrow> byte list \<Rightarrow> red_elem list outcome" where
  "handle_remote_reduce base rhs_size redop offset stride data =
     obind (cassert (redop \<noteq> 0)) (\<lambda>_.
       let redop_id = (if redop > 0 then redop else - redop); red_fold = (\<not> redop > 0);
           n = length data div rhs_size; lhs = int base + offset
       in obind (cassert (base \<noteq> 0)) (\<lambda>_. Inr (strided_elems redop_id red_fold lhs data stride rhs_size n)))"

fun handle_reductions :: "addr \<Rightarrow> nat \<Rightarrow> memory \<Rightarrow> red_msg list \<Rightarrow> red_elem list outcome" where
  "handle_reductions base rhs_size m [] = Inr []"
| "handle_reductions base rhs_size m (x # xs) =
     obind (handle_remote_reduce base rhs_size (rd_redop x) (rd_offset x) (rd_stride x) (payload_data m (rd_src x))) (\<lambda>es.
     obind (handle_reductions base rhs_size m xs) (\<lambda>es'. Inr (es @ es')))"

section \<open>Reduction lists\<close>

text \<open>
  The handler of reduction lists, with \<^verbatim>\<open>apply_reduction_list\<close> of \<^verbatim>\<open>MemoryImpl\<close> and of \<^verbatim>\<open>GASNetMemory\<close>,
  both of which only assert.
\<close>

definition apply_reduction_list :: "MemoryKind \<Rightarrow> unit outcome" where
  "apply_reduction_list kind = Inl Assert_Failed"

definition handle_reduce_list :: "MemoryKind \<Rightarrow> nat \<Rightarrow> nat \<Rightarrow> unit outcome" where
  "handle_reduce_list kind sizeof_list_entry datalen =
     (if kind = MKIND_GLOBAL then
        if sizeof_list_entry = 0 then Inl Undefined_Behaviour
        else obind (cassert (datalen mod sizeof_list_entry = 0)) (\<lambda>_. apply_reduction_list kind)
      else Inl Assert_Failed)"

section \<open>Serialised fields\<close>

record serdez_msg =
  sz_offset :: nat
  sz_count :: nat
  sz_data :: "byte list"

text \<open>Filling one buffer with elements.\<close>

fun fill_buffer :: "('e \<Rightarrow> byte list) \<Rightarrow> nat \<Rightarrow> nat \<Rightarrow> 'e list \<Rightarrow> 'e list \<times> 'e list" where
  "fill_buffer ser max_xfer_size cur_size [] = ([], [])"
| "fill_buffer ser max_xfer_size cur_size (e # es) =
     (if length (ser e) + cur_size > max_xfer_size then ([], e # es)
      else let (xs, rest) = fill_buffer ser max_xfer_size (cur_size + length (ser e)) es in (e # xs, rest))"

lemma fill_buffer_append:
  "fill_buffer ser mx c es = (xs, ys) \<Longrightarrow> es = xs @ ys \<and> (c \<le> mx \<longrightarrow> c + length (concat (map ser xs)) \<le> mx) \<and>
     (\<forall>x \<in> set xs. length (ser x) \<le> mx)"
  by (induction ser mx c es arbitrary: xs rule: fill_buffer.induct) (auto split: if_splits prod.splits)

function do_remote_serdez ::
  "('e \<Rightarrow> byte list) \<Rightarrow> nat \<Rightarrow> nat \<Rightarrow> nat \<Rightarrow> 'e list \<Rightarrow> serdez_msg list outcome" where
  "do_remote_serdez ser field_size max_xfer_size offset es =
     (if es = [] then Inr []
      else
        let (xs, rest) = fill_buffer ser max_xfer_size 0 es; buffer = concat (map ser xs)
        in if length buffer = 0 then Inl Assert_Failed
           else obind (do_remote_serdez ser field_size max_xfer_size (offset + field_size * length xs) rest) (\<lambda>ms.
                  Inr (\<lparr>sz_offset = offset, sz_count = length xs, sz_data = buffer\<rparr> # ms)))"
  by pat_completeness auto

termination
proof (relation "measure (\<lambda>(ser, fs, mx, off, es). length es)", goal_cases)
  case (2 ser fs mx off es x xs rest buffer)
  then have "es = xs @ rest" using fill_buffer_append [of ser mx 0 es xs rest] by simp
  moreover have "xs \<noteq> []" using 2 by auto
  ultimately show ?case by simp
qed simp

declare do_remote_serdez.simps [simp del]

text \<open>
  The handler takes the elements off the buffer one by one; the result is what it stores, position and
  element.  \<open>deser\<close> gives the element at the front of a buffer and the bytes it used.
\<close>

fun deserialize_all :: "(byte list \<Rightarrow> 'e \<times> nat) \<Rightarrow> nat \<Rightarrow> nat \<Rightarrow> nat \<Rightarrow> byte list \<Rightarrow> int \<Rightarrow> (nat \<times> 'e) list \<times> int" where
  "deserialize_all deser field_size 0 pos buffer datalen = ([], datalen)"
| "deserialize_all deser field_size (Suc n) pos buffer datalen =
     (let (e, element_size) = deser buffer;
          (r, left) = deserialize_all deser field_size n (pos + field_size) (drop element_size buffer) (datalen - int element_size)
      in ((pos, e) # r, left))"

definition handle_remote_serdez ::
  "(byte list \<Rightarrow> 'e \<times> nat) \<Rightarrow> nat \<Rightarrow> addr \<Rightarrow> serdez_msg \<Rightarrow> (nat \<times> 'e) list outcome" where
  "handle_remote_serdez deser field_size base x =
     (let (r, left) = deserialize_all deser field_size (sz_count x) (base + sz_offset x) (sz_data x) (int (length (sz_data x)))
      in obind (cassert (left = 0)) (\<lambda>_. Inr r))"

fun handle_serdezs :: "(byte list \<Rightarrow> 'e \<times> nat) \<Rightarrow> nat \<Rightarrow> addr \<Rightarrow> serdez_msg list \<Rightarrow> (nat \<times> 'e) list outcome" where
  "handle_serdezs deser field_size base [] = Inr []"
| "handle_serdezs deser field_size base (x # xs) =
     obind (handle_remote_serdez deser field_size base x) (\<lambda>r.
     obind (handle_serdezs deser field_size base xs) (\<lambda>rs. Inr (r @ rs)))"

section \<open>Reductions arrive element by element\<close>

lemma take_drop_lines:
  "i < k \<Longrightarrow> take n (drop (i * n) (spans_data m (line_spans pos n k st))) = read_bytes m (nat (pos + int i * st)) n"
proof (induction k arbitrary: i pos)
  case (Suc k)
  show ?case
  proof (cases i)
    case (Suc j)
    with Suc.prems Suc.IH [of j "pos + st"] show ?thesis by (simp add: algebra_simps)
  qed simp
qed simp

definition red_elems :: "addr \<Rightarrow> nat \<Rightarrow> int \<Rightarrow> bool \<Rightarrow> int \<Rightarrow> int \<Rightarrow> memory \<Rightarrow> int \<Rightarrow> int \<Rightarrow> nat \<Rightarrow> red_elem list" where
  "red_elems base rhs_size redop_id red_fold offset dst_stride m pos src_stride n =
     map (\<lambda>i. (redop_id, red_fold, int base + offset + int i * dst_stride, read_bytes m (nat (pos + int i * src_stride)) rhs_size)) [0 ..< n]"

lemma red_elems_split:
  "red_elems b r d f off ds m pos ss (k + j) =
     red_elems b r d f off ds m pos ss k @ red_elems b r d f (off + ds * int k) ds m (pos + ss * int k) ss j"
  by (rule nth_equalityI) (auto simp: red_elems_def nth_append algebra_simps)

lemma handle_one_reduction:
  assumes "0 < redop_id" and "base \<noteq> 0" and "0 < r" and "0 \<le> pos"
  shows "handle_remote_reduce base r (if f then - redop_id else redop_id) off ds
      (payload_data m (TwoDPayload (nat pos) r k ss mode)) = Inr (red_elems base r redop_id f off ds m pos ss k)"
  using assms
  by (auto simp: handle_remote_reduce_def strided_elems_def red_elems_def Let_def take_drop_lines)

lemma split_reduce_elems:
  assumes "0 < k" and "0 < redop_id" and "base \<noteq> 0" and "0 < r"
    and "\<forall>i < n. 0 \<le> pos + int i * ss" and "0 < n" and "redop = (if f then - redop_id else redop_id)"
  shows "\<exists>ms. split_reduce k r off ds redop pos ss n mode = Some (Inr ms) \<and>
    handle_reductions base r m ms = Inr (red_elems base r redop_id f off ds m pos ss n) \<and>
    (\<forall>x \<in> set ms. length (payload_data m (rd_src x)) \<le> k * r)"
  using assms(5,6)
proof (induction n arbitrary: off pos rule: less_induct)
  case (less n)
  have pos: "0 \<le> pos" using less.prems(1) [rule_format, OF less.prems(2)] by simp
  note one = handle_one_reduction [OF assms(2,3,4) pos, of f, folded assms(7)]
  show ?case
  proof (cases "n > k")
    case True
    have "\<forall>i < n - k. 0 \<le> pos + ss * int k + int i * ss"
    proof (intro allI impI)
      fix i assume "i < n - k"
      then have "k + i < n" by linarith
      from less.prems(1) [rule_format, OF this] show "0 \<le> pos + ss * int k + int i * ss" by (simp add: algebra_simps)
    qed
    moreover have "n - k < n" "0 < n - k" using True assms(1) by auto
    ultimately obtain ms where
      ms: "split_reduce k r (off + ds * int k) ds redop (pos + ss * int k) ss (n - k) mode = Some (Inr ms)"
        "handle_reductions base r m ms = Inr (red_elems base r redop_id f (off + ds * int k) ds m (pos + ss * int k) ss (n - k))"
        "\<forall>x \<in> set ms. length (payload_data m (rd_src x)) \<le> k * r"
      using less.IH by blast
    have "red_elems base r redop_id f off ds m pos ss n =
        red_elems base r redop_id f off ds m pos ss k @ red_elems base r redop_id f (off + ds * int k) ds m (pos + ss * int k) ss (n - k)"
      using red_elems_split [of base r redop_id f off ds m pos ss k "n - k"] True by simp
    with ms True pos one [where k = k] show ?thesis by (subst split_reduce.simps) simp
  next
    case False
    then have "n * r \<le> k * r" by (intro mult_le_mono1) simp
    with False pos one [where k = n] show ?thesis by (subst split_reduce.simps) simp
  qed
qed

section \<open>Serialised fields arrive whole\<close>

fun at_fields :: "nat \<Rightarrow> nat \<Rightarrow> 'e list \<Rightarrow> (nat \<times> 'e) list" where
  "at_fields pos field_size [] = []"
| "at_fields pos field_size (e # es) = (pos, e) # at_fields (pos + field_size) field_size es"

lemma at_fields_append: "at_fields pos fs (xs @ ys) = at_fields pos fs xs @ at_fields (pos + fs * length xs) fs ys"
  by (induction xs arbitrary: pos) (auto simp: algebra_simps)

lemma deserialize_all_ser:
  assumes "\<And>e rest. deser (ser e @ rest) = (e, length (ser e))"
  shows "deserialize_all deser fs (length xs) pos (concat (map ser xs)) (int (length (concat (map ser xs)))) = (at_fields pos fs xs, 0)"
  by (induction xs arbitrary: pos) (simp_all add: assms)

lemma fill_buffer_pos:
  assumes "fill_buffer ser mx 0 es = (xs, ys)" and "es \<noteq> []" and "\<forall>e \<in> set es. 0 < length (ser e) \<and> length (ser e) \<le> mx"
  shows "0 < length (concat (map ser xs))"
  using assms by (cases es) (auto split: prod.splits if_splits)

lemma serdez_sent:
  assumes law: "\<And>e rest. deser (ser e @ rest) = (e, length (ser e))"
    and fit: "\<forall>e \<in> set es. 0 < length (ser e) \<and> length (ser e) \<le> mx"
  shows "\<exists>ms. do_remote_serdez ser fs mx off es = Inr ms \<and>
    (\<forall>x \<in> set ms. 0 < length (sz_data x) \<and> length (sz_data x) \<le> mx) \<and>
    handle_serdezs deser fs base ms = Inr (at_fields (base + off) fs es)"
  using fit
proof (induction "length es" arbitrary: off es rule: less_induct)
  case less
  show ?case
  proof (cases "es = []")
    case True
    then show ?thesis by (simp add: do_remote_serdez.simps)
  next
    case False
    obtain xs ys where f: "fill_buffer ser mx 0 es = (xs, ys)" by (cases "fill_buffer ser mx 0 es")
    note A = fill_buffer_append [OF f]
    have pos: "0 < length (concat (map ser xs))" using fill_buffer_pos [OF f False less.prems] .
    then have xs: "xs \<noteq> []" by auto
    have sh: "length ys < length es" using A xs by auto
    have "\<forall>e \<in> set ys. 0 < length (ser e) \<and> length (ser e) \<le> mx" using less.prems A by auto
    from less.hyps [OF sh this, of "off + fs * length xs"] obtain ms where
      ms: "do_remote_serdez ser fs mx (off + fs * length xs) ys = Inr ms"
        "\<forall>x \<in> set ms. 0 < length (sz_data x) \<and> length (sz_data x) \<le> mx"
        "handle_serdezs deser fs base ms = Inr (at_fields (base + (off + fs * length xs)) fs ys)" by blast
    let ?x = "\<lparr>sz_offset = off, sz_count = length xs, sz_data = concat (map ser xs)\<rparr>"
    have h: "handle_remote_serdez deser fs base ?x = Inr (at_fields (base + off) fs xs)"
      using deserialize_all_ser [of deser ser fs xs "base + off", OF law] by (simp add: handle_remote_serdez_def)
    have "do_remote_serdez ser fs mx off es = Inr (?x # ms)"
      using False f ms(1) pos by (subst do_remote_serdez.simps) (simp add: Let_def)
    moreover have "at_fields (base + off) fs es = at_fields (base + off) fs xs @ at_fields (base + (off + fs * length xs)) fs ys"
      using A at_fields_append [of "base + off" fs xs ys] by (simp add: add.assoc)
    ultimately show ?thesis using ms(2,3) h pos A by auto
  qed
qed

section \<open>Properties\<close>

text \<open>
  A remote reduction reduces every element exactly once, in order: the call returns, each message
  fits into a long message buffer, and the receiver applies (or folds, as asked) the operator to the
  elements at the destination stride with the bytes of the source elements, however many messages
  were needed.
\<close>

theorem reduce_every_element_once:
  assumes "0 < rhs_size" and "rhs_size \<le> lmb" and "0 < redop_id" and "base \<noteq> 0" and "0 < n"
    and "- (2 ^ 31) \<le> dst_stride" and "dst_stride < 2 ^ 31"
    and "\<forall>i < n. 0 \<le> int data + int i * src_stride"
  shows "\<exists>ms. do_remote_reduce lmb rhs_size off redop_id red_fold data n src_stride dst_stride mode = Some (Inr ms) \<and>
    (\<forall>x \<in> set ms. length (payload_data m (rd_src x)) \<le> lmb) \<and>
    handle_reductions base rhs_size m ms =
      Inr (map (\<lambda>i. (redop_id, red_fold, int base + off + int i * dst_stride,
                      read_bytes m (nat (int data + int i * src_stride)) rhs_size)) [0 ..< n])"
proof -
  let ?k = "lmb div rhs_size" and ?redop = "if red_fold then - redop_id else redop_id"
  have k: "0 < ?k" using assms(1,2) by (simp add: div_greater_zero_iff)
  have le: "?k * rhs_size \<le> lmb" by simp
  have st: "sint (word_of_int dst_stride :: 32 word) = dst_stride"
    using assms(6,7) by (simp add: signed_of_int signed_take_bit_int_eq_self)
  note E = red_elems_def [of base rhs_size redop_id red_fold off dst_stride m "int data" src_stride n, symmetric]
  show ?thesis
  proof (cases "n > ?k")
    case True
    from split_reduce_elems [OF k assms(3,4,1,8,5) refl [of ?redop], of off dst_stride mode m] obtain ms where
      ms: "split_reduce ?k rhs_size off dst_stride ?redop (int data) src_stride n mode = Some (Inr ms)"
        "handle_reductions base rhs_size m ms = Inr (red_elems base rhs_size redop_id red_fold off dst_stride m (int data) src_stride n)"
        "\<forall>x \<in> set ms. length (payload_data m (rd_src x)) \<le> ?k * rhs_size" by blast
    have "do_remote_reduce lmb rhs_size off redop_id red_fold data n src_stride dst_stride mode = Some (Inr ms)"
      using True k st ms(1) assms(1) by (simp add: do_remote_reduce_def Let_def)
    moreover have "\<forall>x \<in> set ms. length (payload_data m (rd_src x)) \<le> lmb" using ms(3) le by (meson order_trans)
    ultimately show ?thesis using ms(2) unfolding E by blast
  next
    case False
    then have "n * rhs_size \<le> ?k * rhs_size" by (intro mult_le_mono1) simp
    then have "n * rhs_size \<le> lmb" using le by (rule order_trans)
    moreover have "do_remote_reduce lmb rhs_size off redop_id red_fold data n src_stride dst_stride mode =
        Some (Inr [\<lparr>rd_offset = off, rd_stride = dst_stride, rd_redop = ?redop,
                    rd_src = TwoDPayload data rhs_size n src_stride mode\<rparr>])"
      using False k st assms(1) by (simp add: do_remote_reduce_def Let_def)
    ultimately show ?thesis
      using handle_one_reduction [OF assms(3,4,1), of "int data" red_fold off dst_stride m n src_stride mode] unfolding E by simp
  qed
qed

theorem reduce_every_element_once_witness:
  "\<exists>ms. do_remote_reduce 16 8 40 5 True 1000 3 8 16 PAYLOAD_KEEP = Some (Inr ms) \<and>
     handle_reductions 4096 8 (\<lambda>x. of_nat x) ms =
       Inr (map (\<lambda>i. (5, True, 4096 + 40 + int i * 16, read_bytes (\<lambda>x. of_nat x) (nat (1000 + int i * 8)) 8)) [0 ..< 3])"
  using reduce_every_element_once [of 8 16 5 4096 3 16 1000 8 40 True PAYLOAD_KEEP "\<lambda>x. of_nat x"] by auto

text \<open>
  Serialised fields arrive whole: when the serialiser can read back what it wrote and every
  element takes some bytes but no more than a long message buffer holds, the call succeeds, every
  message fits into a buffer, and the receiver stores exactly the elements, each at its field.
\<close>

theorem serdez_roundtrip:
  assumes "\<And>e rest. deser (ser e @ rest) = (e, length (ser e))"
    and "\<forall>e \<in> set es. 0 < length (ser e) \<and> length (ser e) \<le> lmb"
  shows "\<exists>ms. do_remote_serdez ser field_size lmb off es = Inr ms \<and>
    (\<forall>x \<in> set ms. 0 < length (sz_data x) \<and> length (sz_data x) \<le> lmb) \<and>
    handle_serdezs deser field_size base ms = Inr (at_fields (base + off) field_size es)"
  using serdez_sent [OF assms] .

theorem serdez_roundtrip_witness:
  "\<exists>ms. do_remote_serdez (\<lambda>b. [b, b + 1]) 8 5 40 [1, 2, 3 :: byte] = Inr ms \<and>
     handle_serdezs (\<lambda>bs. (hd bs, 2)) 8 4096 ms = Inr (at_fields (4096 + 40) 8 [1, 2, 3])"
  using serdez_roundtrip [of "\<lambda>bs. (hd bs, 2)" "\<lambda>b. [b, b + 1]" "[1, 2, 3]" 5 8 40 4096] by auto

text \<open>
  An element whose serialised form is larger than a long message buffer stops the call in the
  assertion, wherever it stands among the elements.
\<close>

theorem serdez_too_large:
  assumes "\<exists>e \<in> set es. lmb < length (ser e)"
  shows "do_remote_serdez ser field_size lmb off es = Inl Assert_Failed"
  using assms
proof (induction "length es" arbitrary: off es rule: less_induct)
  case less
  obtain xs ys where f: "fill_buffer ser lmb 0 es = (xs, ys)" by (cases "fill_buffer ser lmb 0 es")
  note A = fill_buffer_append [OF f]
  have ne: "es \<noteq> []" using less.prems by auto
  show ?case
  proof (cases "length (concat (map ser xs)) = 0")
    case True
    with ne f show ?thesis by (subst do_remote_serdez.simps) (simp add: Let_def)
  next
    case False
    then have "xs \<noteq> []" by auto
    then have "length ys < length es" using A by auto
    moreover have "\<exists>e \<in> set ys. lmb < length (ser e)" using less.prems A by (auto simp: not_less [symmetric])
    ultimately have "do_remote_serdez ser field_size lmb (off + field_size * length xs) ys = Inl Assert_Failed"
      using less.hyps by blast
    with ne f False show ?thesis by (subst do_remote_serdez.simps) (simp add: Let_def)
  qed
qed

theorem serdez_too_large_witness:
  "do_remote_serdez (\<lambda>n. replicate n (0 :: byte)) 8 5 40 [1, 2, 9] = Inl Assert_Failed"
  by (rule serdez_too_large) simp

text \<open>
  A reduction list sent to another node never takes effect: for every kind of memory the receiver
  stops in an assertion.
\<close>

theorem reduce_list_always_asserts:
  assumes "0 < sizeof_list_entry"
  shows "handle_reduce_list kind sizeof_list_entry datalen = Inl Assert_Failed"
  using assms by (cases "datalen mod sizeof_list_entry = 0")
    (simp_all add: handle_reduce_list_def apply_reduction_list_def)

theorem reduce_list_always_asserts_witness: "handle_reduce_list MKIND_GLOBAL 8 64 = Inl Assert_Failed"
  by (rule reduce_list_always_asserts) simp

end
