(* ===== verification/Transfer_Completion.thy ===== *)
theory Transfer_Completion
  imports Remote_Ops "HOL-Library.Multiset"
begin

text \<open>
  Remote reductions and serialised writes with their fences (\<^verbatim>\<open>src/templates/mem_impl.cc\<close>): the whole
  handlers of \<^verbatim>\<open>RemoteReduceMessage\<close> and \<^verbatim>\<open>RemoteSerdezMessage\<close>, which work on the data of a message and
  then count it.  What they share is the locale \<open>counted_request\<close>: a data part and the count.
\<close>

section \<open>Handlers\<close>

text \<open>\<open>m\<close> is the memory of the sender, where the network took the data of the message from.\<close>

definition handle_reduce_request ::
  "addr \<Rightarrow> nat \<Rightarrow> memory \<Rightarrow> PartialWriteMap \<Rightarrow> nat \<Rightarrow> nat \<Rightarrow> red_msg \<Rightarrow>
     (red_elem list \<times> PartialWriteMap \<times> (PartialWriteKey \<times> nat) list) outcome" where
  "handle_reduce_request base rhs_size m pw snd' seq x =
     obind (handle_remote_reduce base rhs_size (rd_redop x) (rd_offset x) (rd_stride x) (payload_data m (rd_src x)))
       (\<lambda>es. Inr (es, count_write pw snd' seq))"

definition handle_serdez_request ::
  "(byte list \<Rightarrow> 'e \<times> nat) \<Rightarrow> nat \<Rightarrow> addr \<Rightarrow> PartialWriteMap \<Rightarrow> nat \<Rightarrow> nat \<Rightarrow> serdez_msg \<Rightarrow>
     ((nat \<times> 'e) list \<times> PartialWriteMap \<times> (PartialWriteKey \<times> nat) list) outcome" where
  "handle_serdez_request deser field_size base pw snd' seq x =
     obind (handle_remote_serdez deser field_size base x) (\<lambda>es. Inr (es, count_write pw snd' seq))"

text \<open>
  The arrivals of one transfer at the receiver: its messages and its fence, in some order.  The state is
  what has been done so far, the table of partial writes and the acknowledgements.
\<close>

datatype 'm arrival =
    Arrives 'm
  | Fence_Arrives "32 word" nat

fun receive_transfer ::
  "(PartialWriteMap \<Rightarrow> nat \<Rightarrow> nat \<Rightarrow> 'm \<Rightarrow> ('e list \<times> PartialWriteMap \<times> (PartialWriteKey \<times> nat) list) outcome) \<Rightarrow>
     PartialWriteKey \<Rightarrow> 'e list \<times> PartialWriteMap \<times> (PartialWriteKey \<times> nat) list \<Rightarrow> 'm arrival list \<Rightarrow>
     ('e list \<times> PartialWriteMap \<times> (PartialWriteKey \<times> nat) list) outcome" where
  "receive_transfer request k s [] = Inr s"
| "receive_transfer request k (ds, pw, acks) (Arrives x # es) =
     obind (request pw (sender k) (sequence_id k) x) (\<lambda>(d, pw', a). receive_transfer request k (ds @ d, pw', acks @ a) es)"
| "receive_transfer request k (ds, pw, acks) (Fence_Arrives n f # es) =
     obind (handle_fence pw (sender k) (sequence_id k) n f) (\<lambda>(pw', a). receive_transfer request k (ds, pw', acks @ a) es)"

definition arrived :: "'m arrival list \<Rightarrow> 'm list" where
  "arrived es = concat (map (\<lambda>e. case e of Arrives x \<Rightarrow> [x] | Fence_Arrives n f \<Rightarrow> []) es)"

definition arrived_fences :: "'m arrival list \<Rightarrow> (32 word \<times> nat) list" where
  "arrived_fences es = concat (map (\<lambda>e. case e of Arrives x \<Rightarrow> [] | Fence_Arrives n f \<Rightarrow> [(n, f)]) es)"

fun counted_event :: "PartialWriteKey \<Rightarrow> 'm arrival \<Rightarrow> rw_event" where
  "counted_event k (Arrives x) = Write_Handled k"
| "counted_event k (Fence_Arrives n f) = Fence_Handled k n f"

lemma arrived_simps [simp]:
  "arrived [] = []" "arrived (Arrives x # es) = x # arrived es" "arrived (Fence_Arrives n f # es) = arrived es"
  by (simp_all add: arrived_def)

lemma arrived_fences_simps [simp]:
  "arrived_fences [] = []" "arrived_fences (Arrives x # es) = arrived_fences es"
  "arrived_fences (Fence_Arrives n f # es) = (n, f) # arrived_fences es"
  by (simp_all add: arrived_fences_def)

lemma counted_events:
  "event_key ` set (map (counted_event k) es) \<subseteq> {k}"
  "writes_of k (map (counted_event k) es) = length (arrived es)"
  "fences_of k (map (counted_event k) es) = arrived_fences es"
proof -
  have "event_key (counted_event k e) = k" for e :: "'m arrival" by (cases e) auto
  then show "event_key ` set (map (counted_event k) es) \<subseteq> {k}" by auto
  show "writes_of k (map (counted_event k) es) = length (arrived es)"
  proof (induction es)
    case (Cons e es)
    then show ?case by (cases e) (auto simp: writes_of_def)
  qed (simp add: writes_of_def)
  show "fences_of k (map (counted_event k) es) = arrived_fences es"
  proof (induction es)
    case (Cons e es)
    then show ?case by (cases e) (auto simp: fences_of_def)
  qed (simp add: fences_of_def)
qed

section \<open>The contract of a counted request\<close>

locale counted_request =
  fixes data_part :: "'m \<Rightarrow> 'e list outcome"
    and request :: "PartialWriteMap \<Rightarrow> nat \<Rightarrow> nat \<Rightarrow> 'm \<Rightarrow> ('e list \<times> PartialWriteMap \<times> (PartialWriteKey \<times> nat) list) outcome"
  assumes request_counts: "request pw s q x = obind (data_part x) (\<lambda>d. Inr (d, count_write pw s q))"
begin

lemma receive_splits:
  assumes "\<forall>x \<in> set (arrived es). data_part x = Inr (g x)"
    and "rw_run (pw, acks) (map (counted_event k) es) = Inr (pw', acks')"
  shows "receive_transfer request k (ds, pw, acks) es = Inr (ds @ concat (map g (arrived es)), pw', acks')"
  using assms
proof (induction es arbitrary: ds pw acks)
  case (Cons e es)
  show ?case
  proof (cases e)
    case (Arrives x)
    obtain pw1 a where c: "count_write pw (sender k) (sequence_id k) = (pw1, a)" by (metis surj_pair)
    with Cons.prems Cons.IH [of pw1 "acks @ a" "ds @ g x"] show ?thesis by (simp add: Arrives request_counts)
  next
    case (Fence_Arrives n f)
    with Cons.prems(2) obtain pw1 a where
      "handle_fence pw (sender k) (sequence_id k) n f = Inr (pw1, a)"
      "rw_run (pw1, acks @ a) (map (counted_event k) es) = Inr (pw', acks')" by auto
    with Cons.prems(1) Cons.IH [of pw1 "acks @ a" ds] show ?thesis by (simp add: Fence_Arrives)
  qed
qed simp

text \<open>In whatever order messages and fence arrive, everything is done once and the fence is acknowledged once.\<close>

lemma transfer_any_order:
  assumes "sequence_id k \<noteq> 0" and "f \<noteq> 0" and "0 < length ms" and "length ms < 2 ^ 31"
    and "mset (arrived es) = mset ms" and "arrived_fences es = [(of_nat (length ms), f)]"
    and "\<forall>x \<in> set ms. data_part x = Inr (g x)"
  shows "\<exists>ds. receive_transfer request k ([], [], []) es = Inr (ds, [], [(k, f)]) \<and> mset ds = mset (concat (map g ms))"
proof -
  have len: "length (arrived es) = length ms" using assms(5) by (rule mset_eq_length)
  have "rw_run ([], []) (map (counted_event k) es) = Inr ([], [(k, f)])"
    by (rule one_transfer [OF assms(1) counted_events(1) _ assms(3,4) _ assms(2)])
      (simp_all add: counted_events(2,3) len assms(6))
  moreover have "\<forall>x \<in> set (arrived es). data_part x = Inr (g x)"
    using assms(7) mset_eq_setD [OF assms(5)] by simp
  ultimately have "receive_transfer request k ([], [], []) es = Inr (concat (map g (arrived es)), [], [(k, f)])"
    using receive_splits [of es g "[]" "[]" k] by fastforce
  moreover have "mset (concat (map g (arrived es))) = mset (concat (map g ms))"
    using assms(5) by (simp add: mset_concat) (metis mset_map sum_mset_sum_list)
  ultimately show ?thesis by blast
qed

end

interpretation reduce_req: counted_request
  "\<lambda>x. handle_remote_reduce base rhs_size (rd_redop x) (rd_offset x) (rd_stride x) (payload_data m (rd_src x))"
  "handle_reduce_request base rhs_size m" for base rhs_size m
  by unfold_locales (simp add: handle_reduce_request_def)

interpretation serdez_req: counted_request
  "handle_remote_serdez deser field_size base" "handle_serdez_request deser field_size base" for deser field_size base
  by unfold_locales (simp add: handle_serdez_request_def)

section \<open>Properties\<close>

text \<open>A handler run over a list of messages gives what it gives on each of them.\<close>

lemma parts_collected:
  assumes "h [] = Inr []" and "\<And>x xs. h (x # xs) = obind (part x) (\<lambda>a. obind (h xs) (\<lambda>b. Inr (a @ b)))"
    and "h ms = Inr es"
  shows "(\<forall>x \<in> set ms. part x = Inr (projr (part x))) \<and> es = concat (map (projr \<circ> part) ms)"
  using assms(3)
proof (induction ms arbitrary: es)
  case Nil
  then show ?case by (simp add: assms(1))
next
  case (Cons x xs)
  then obtain a b where "part x = Inr a" "h xs = Inr b" "es = a @ b" by (auto simp: assms(2))
  with Cons.IH [of b] show ?case by simp
qed

text \<open>
  C2. A remote reduction with its fence, end to end: the messages that \<^verbatim>\<open>do_remote_reduce\<close> made and the
  fence that announces their number arrive in any order.  Then no assertion fails, the operator has
  been applied (or folded) to every element exactly once with the bytes of its source element, the
  fence has been acknowledged exactly once and the table of partial writes is empty.
\<close>

theorem reduction_complete:
  assumes "0 < rhs_size" and "rhs_size \<le> lmb" and "0 < redop_id" and "base \<noteq> 0" and "0 < n"
    and "- (2 ^ 31) \<le> dst_stride" and "dst_stride < 2 ^ 31"
    and "\<forall>i < n. 0 \<le> int data + int i * src_stride"
    and "do_remote_reduce lmb rhs_size off redop_id red_fold data n src_stride dst_stride mode = Some (Inr ms)"
    and "sequence_id k \<noteq> 0" and "f \<noteq> 0" and "length ms < 2 ^ 31"
    and "mset (arrived es) = mset ms" and "arrived_fences es = [(of_nat (length ms), f)]"
  shows "\<exists>ds. receive_transfer (handle_reduce_request base rhs_size m) k ([], [], []) es = Inr (ds, [], [(k, f)]) \<and>
    mset ds = mset (map (\<lambda>i. (redop_id, red_fold, int base + off + int i * dst_stride,
                      read_bytes m (nat (int data + int i * src_stride)) rhs_size)) [0 ..< n])"
proof -
  have h: "handle_reductions base rhs_size m ms = Inr (map (\<lambda>i. (redop_id, red_fold, int base + off + int i * dst_stride,
                      read_bytes m (nat (int data + int i * src_stride)) rhs_size)) [0 ..< n])" (is "_ = Inr ?r")
    using reduce_every_element_once [OF assms(1-8), of off red_fold mode m] assms(9) by auto
  note p = parts_collected [of "handle_reductions base rhs_size m", OF handle_reductions.simps(1,2) h]
  have "ms \<noteq> []" using h assms(5) by auto
  then have "0 < length ms" by simp
  from reduce_req.transfer_any_order [OF assms(10,11) this assms(12-14) conjunct1 [OF p]] conjunct2 [OF p]
  show ?thesis by (simp only: comp_def)
qed

text \<open>
  C3. A write of serialised fields with its fence, end to end: the messages and the fence arrive in
  any order; then exactly the elements that were sent have been stored, each at its field, the
  fence has been acknowledged exactly once and the table of partial writes is empty.
\<close>

theorem serdez_complete:
  assumes "\<And>e rest. deser (ser e @ rest) = (e, length (ser e))"
    and "\<forall>e \<in> set xs. 0 < length (ser e) \<and> length (ser e) \<le> lmb" and "xs \<noteq> []"
    and "do_remote_serdez ser field_size lmb off xs = Inr ms"
    and "sequence_id k \<noteq> 0" and "f \<noteq> 0" and "length ms < 2 ^ 31"
    and "mset (arrived es) = mset ms" and "arrived_fences es = [(of_nat (length ms), f)]"
  shows "\<exists>ds. receive_transfer (handle_serdez_request deser field_size base) k ([], [], []) es = Inr (ds, [], [(k, f)]) \<and>
    mset ds = mset (at_fields (base + off) field_size xs)"
proof -
  have h: "handle_serdezs deser field_size base ms = Inr (at_fields (base + off) field_size xs)"
    using serdez_sent [OF assms(1,2), of field_size off base] assms(4) by auto
  note p = parts_collected [of "handle_serdezs deser field_size base", OF handle_serdezs.simps(1,2) h]
  have "ms \<noteq> []" using h assms(3) by (cases xs) auto
  then have "0 < length ms" by simp
  from serdez_req.transfer_any_order [OF assms(5,6) this assms(7-9) conjunct1 [OF p]] conjunct2 [OF p]
  show ?thesis by (simp only: comp_def)
qed

text \<open>Examples: three elements in two messages and three fields in two messages, with the fence in between.\<close>

theorem reduction_complete_witness:
  "\<exists>ms ds. do_remote_reduce 16 8 40 5 True 1000 3 8 16 PAYLOAD_KEEP = Some (Inr ms) \<and>
     receive_transfer (handle_reduce_request 4096 8 (\<lambda>x. of_nat x)) (PartialWriteKey 3 7) ([], [], [])
       [Arrives (ms ! 1), Fence_Arrives 2 64, Arrives (ms ! 0)] = Inr (ds, [], [(PartialWriteKey 3 7, 64)]) \<and> length ds = 3"
proof -
  obtain a b where ms: "do_remote_reduce 16 8 40 5 True 1000 3 8 16 PAYLOAD_KEEP = Some (Inr [a, b])"
    by (simp add: do_remote_reduce_def split_reduce.simps)
  have "\<exists>ds. receive_transfer (handle_reduce_request 4096 8 (\<lambda>x. of_nat x)) (PartialWriteKey 3 7) ([], [], [])
       [Arrives b, Fence_Arrives 2 64, Arrives a] = Inr (ds, [], [(PartialWriteKey 3 7, 64)]) \<and>
     mset ds = mset (map (\<lambda>i. (5, True, int 4096 + 40 + int i * 16, read_bytes (\<lambda>x. of_nat x) (nat (int 1000 + int i * 8)) 8)) [0 ..< 3])"
    by (rule reduction_complete [OF _ _ _ _ _ _ _ _ ms]) (simp_all add: add_mset_commute)
  then have "\<exists>ds. receive_transfer (handle_reduce_request 4096 8 (\<lambda>x. of_nat x)) (PartialWriteKey 3 7) ([], [], [])
       [Arrives b, Fence_Arrives 2 64, Arrives a] = Inr (ds, [], [(PartialWriteKey 3 7, 64)]) \<and> length ds = 3"
    by (metis (no_types, lifting) length_map length_upt mset_eq_length diff_zero)
  with ms show ?thesis by (intro exI [of _ "[a, b]"]) simp
qed

theorem serdez_complete_witness:
  "\<exists>ms ds. do_remote_serdez (\<lambda>b. [b, b + 1]) 8 5 40 [1, 2, 3 :: byte] = Inr ms \<and>
     receive_transfer (handle_serdez_request (\<lambda>bs. (hd bs, 2)) 8 4096) (PartialWriteKey 3 7) ([], [], [])
       [Arrives (ms ! 1), Fence_Arrives 2 64, Arrives (ms ! 0)] = Inr (ds, [], [(PartialWriteKey 3 7, 64)]) \<and>
     mset ds = {#(4136, 1), (4144, 2), (4152, 3)#}"
proof -
  obtain a b where ms: "do_remote_serdez (\<lambda>b. [b, b + 1]) 8 5 40 [1, 2, 3 :: byte] = Inr [a, b]"
    by (simp add: do_remote_serdez.simps)
  have "\<exists>ds. receive_transfer (handle_serdez_request (\<lambda>bs. (hd bs, 2)) 8 4096) (PartialWriteKey 3 7) ([], [], [])
       [Arrives b, Fence_Arrives 2 64, Arrives a] = Inr (ds, [], [(PartialWriteKey 3 7, 64)]) \<and>
     mset ds = mset (at_fields (4096 + 40) 8 [1, 2, 3])"
    by (rule serdez_complete [OF _ _ _ ms]) (simp_all add: add_mset_commute)
  with ms show ?thesis by (intro exI [of _ "[a, b]"]) simp
qed

end
