(* ===== verification/Remote_Memory.thy ===== *)
theory Remote_Memory
  imports Remote_Write
begin

text \<open>
  \<^verbatim>\<open>RemoteMemory\<close>, the view a node has of a memory of another node, and the messages by which it
  allocates there (\<^verbatim>\<open>RemoteMemAllocRequest\<close>): a request carries the address of a future on the
  stack of the caller, the owner allocates and answers, and the answer sets the future.
\<close>

section \<open>Operations\<close>

record RemoteMemory =
  rem_owner :: node_id
  rem_size :: nat
  rem_kind :: MemoryKind
  rem_regbase :: addr

definition RemoteMemory_construct :: "node_id \<Rightarrow> nat \<Rightarrow> addr \<Rightarrow> RemoteMemory" where
  "RemoteMemory_construct own sz regbase0 =
     \<lparr>rem_owner = own, rem_size = sz, rem_kind = (if regbase0 \<noteq> 0 then MKIND_RDMA else MKIND_REMOTE), rem_regbase = regbase0\<rparr>"

text \<open>A put is a remote write without a sequence number, so that no fence can wait for it.\<close>

definition rem_put_bytes :: "nat \<Rightarrow> RemoteMemory \<Rightarrow> nat \<Rightarrow> addr \<Rightarrow> nat \<Rightarrow> rw_msg list outcome option" where
  "rem_put_bytes lmb rm offset src sz =
     do_remote_write lmb (if rem_kind rm = MKIND_RDMA then rem_regbase rm else 0) offset (ContiguousPayload src sz PAYLOAD_COPY)"

text \<open>A get is a read from the registered segment of the owner: \<open>mems n\<close> is the memory of node \<open>n\<close>.\<close>

definition rem_get_bytes ::
  "node_id \<Rightarrow> RemoteMemory \<Rightarrow> (node_id \<Rightarrow> memory) \<Rightarrow> nat \<Rightarrow> addr \<Rightarrow> nat \<Rightarrow> (node_id \<Rightarrow> memory) outcome" where
  "rem_get_bytes my rm mems offset dst sz =
     obind (cassert (rem_kind rm = MKIND_RDMA)) (\<lambda>_.
       Inr (mems(my := write_bytes (mems my) dst (read_bytes (mems (rem_owner rm)) (rem_regbase rm + offset) sz))))"

definition rem_free_bytes :: "RemoteMemory \<Rightarrow> nat \<Rightarrow> nat \<Rightarrow> unit outcome" where
  "rem_free_bytes rm offset sz = Inl Assert_Failed"

definition rem_get_direct_ptr :: "RemoteMemory \<Rightarrow> nat \<Rightarrow> nat \<Rightarrow> addr" where
  "rem_get_direct_ptr rm offset sz = 0"

definition rem_get_home_node :: "RemoteMemory \<Rightarrow> nat \<Rightarrow> nat \<Rightarrow> node_id" where
  "rem_get_home_node rm offset sz = rem_owner rm"

section \<open>Remote allocation\<close>

text \<open>
  A future is named by the node that waits and its address; \<open>Some None\<close> is a future whose caller
  still waits.
\<close>

type_synonym future_id = "node_id \<times> addr"

datatype alloc_message =
    AllocRequest future_id nat
  | AllocResponse future_id int

definition send_alloc_request ::
  "(future_id \<Rightarrow> int option option) \<Rightarrow> future_id \<Rightarrow> nat \<Rightarrow> (future_id \<Rightarrow> int option option) \<times> alloc_message" where
  "send_alloc_request futures fut sz = (futures(fut := Some None), AllocRequest fut sz)"

definition handle_alloc_request :: "MemoryImpl \<Rightarrow> future_id \<Rightarrow> nat \<Rightarrow> MemoryImpl \<times> alloc_message" where
  "handle_alloc_request m fut sz = (let (offset, m') = alloc_bytes_local m sz in (m', AllocResponse fut offset))"

definition handle_alloc_response ::
  "(future_id \<Rightarrow> int option option) \<Rightarrow> future_id \<Rightarrow> int \<Rightarrow> (future_id \<Rightarrow> int option option)" where
  "handle_alloc_response futures fut offset = futures(fut := Some (Some offset))"

text \<open>
  The system: the memory of the owner, the messages under way, the futures of all nodes; \<open>as_asked\<close>
  and \<open>as_log\<close> record what was asked for and what the owner has answered.
\<close>

record alloc_system =
  as_mem :: MemoryImpl
  as_net :: "alloc_message list"
  as_futures :: "future_id \<Rightarrow> int option option"
  as_asked :: "future_id \<Rightarrow> nat"
  as_log :: "(future_id \<times> int) list"

inductive alloc_step :: "alloc_system \<Rightarrow> alloc_system \<Rightarrow> bool" where
  ask: "as_futures s fut = None \<Longrightarrow> send_alloc_request (as_futures s) fut sz = (fs, msg) \<Longrightarrow>
    alloc_step s (s\<lparr>as_futures := fs, as_net := as_net s @ [msg], as_asked := (as_asked s)(fut := sz)\<rparr>)"
| grant: "as_net s = xs @ AllocRequest fut sz # ys \<Longrightarrow> handle_alloc_request (as_mem s) fut sz = (m', AllocResponse fut offset) \<Longrightarrow>
    alloc_step s (s\<lparr>as_mem := m', as_net := xs @ ys @ [AllocResponse fut offset], as_log := as_log s @ [(fut, offset)]\<rparr>)"
| answer: "as_net s = xs @ AllocResponse fut offset # ys \<Longrightarrow>
    alloc_step s (s\<lparr>as_net := xs @ ys, as_futures := handle_alloc_response (as_futures s) fut offset\<rparr>)"

definition alloc_init :: "MemoryImpl \<Rightarrow> alloc_system \<Rightarrow> bool" where
  "alloc_init m s \<longleftrightarrow> mem_ok m [] \<and> s = \<lparr>as_mem = m, as_net = [], as_futures = (\<lambda>_. None), as_asked = (\<lambda>_. 0), as_log = []\<rparr>"

section \<open>Invariant\<close>

fun msg_future :: "alloc_message \<Rightarrow> future_id" where
  "msg_future (AllocRequest fut sz) = fut"
| "msg_future (AllocResponse fut o') = fut"

text \<open>The ranges granted so far, and that they are what the memory regards as in use.\<close>

definition granted_range :: "alloc_system \<Rightarrow> future_id \<times> int \<Rightarrow> addr \<times> nat" where
  "granted_range s e = (nat (snd e), pad_size (mi_alignment (as_mem s)) (as_asked s (fst e)))"

definition is_grant :: "alloc_system \<Rightarrow> future_id \<times> int \<Rightarrow> bool" where
  "is_grant s e \<longleftrightarrow> snd e \<noteq> - 1 \<and> 0 < as_asked s (fst e)"

definition grants :: "alloc_system \<Rightarrow> (addr \<times> nat) list" where
  "grants s = map (granted_range s) (filter (is_grant s) (as_log s))"

definition alloc_inv :: "MemoryImpl \<Rightarrow> alloc_system \<Rightarrow> bool" where
  "alloc_inv m s \<longleftrightarrow>
     mi_size (as_mem s) = mi_size m \<and> mi_alignment (as_mem s) = mi_alignment m \<and>
     (\<exists>live. mem_ok (as_mem s) live \<and> set live = set (grants s)) \<and>
     sorted_wrt (\<lambda>x y. span x \<inter> span y = {}) (grants s) \<and>
     distinct (map msg_future (as_net s)) \<and>
     (\<forall>fut. fut \<in> msg_future ` set (as_net s) \<longleftrightarrow> as_futures s fut = Some None) \<and>
     (\<forall>fut sz. AllocRequest fut sz \<in> set (as_net s) \<longrightarrow> as_asked s fut = sz \<and> fut \<notin> fst ` set (as_log s)) \<and>
     (\<forall>fut off. AllocResponse fut off \<in> set (as_net s) \<longrightarrow> (fut, off) \<in> set (as_log s)) \<and>
     (\<forall>fut off. as_futures s fut = Some (Some off) \<longrightarrow> (fut, off) \<in> set (as_log s)) \<and>
     (\<forall>e \<in> set (as_log s). as_futures s (fst e) \<noteq> None) \<and> distinct (map fst (as_log s))"

lemma grants_ask:
  assumes "fut \<notin> fst ` set (as_log s)"
  shows "grants (s\<lparr>as_futures := fs, as_net := net, as_asked := (as_asked s)(fut := sz)\<rparr>) = grants s"
proof -
  let ?s = "s\<lparr>as_futures := fs, as_net := net, as_asked := (as_asked s)(fut := sz)\<rparr>"
  have "\<forall>e \<in> set (as_log s). is_grant ?s e = is_grant s e \<and> granted_range ?s e = granted_range s e"
    using assms by (auto simp: is_grant_def granted_range_def)
  then show ?thesis by (auto simp: grants_def cong: filter_cong map_cong)
qed

text \<open>The owner answers one request.\<close>

lemma alloc_cases:
  assumes "mem_ok m live" and "handle_alloc_request m fut sz = (m', AllocResponse fut off)"
  shows "mi_size m' = mi_size m \<and> mi_alignment m' = mi_alignment m \<and>
    (if off \<noteq> - 1 \<and> 0 < sz
     then mem_ok m' (om_put (nat off) (pad_size (mi_alignment m) sz) live) \<and>
       bytes_of live \<inter> span (nat off, pad_size (mi_alignment m) sz) = {} \<and> 0 \<le> off
     else mem_ok m' live)"
proof (cases "0 < sz")
  case True
  with assms(1) show ?thesis
  proof (cases rule: alloc_bytes_local_cases)
    case full
    then show ?thesis using assms by (simp add: handle_alloc_request_def)
  next
    case (got p m1 fi se k)
    have "off = int p" "m1 = m'" using got(2) assms(2) by (simp_all add: handle_alloc_request_def)
    moreover have "bytes_of live \<inter> {p ..< p + k} = {}" using assms(1) got(7) unfolding mem_ok_def tiled_def by blast
    ultimately show ?thesis using got(1,8-10) True by (simp add: span_pair)
  qed
next
  case False
  then show ?thesis using assms by (simp add: handle_alloc_request_def alloc_bytes_local_def)
qed

lemma set_put_fresh:
  assumes "apart live" and "0 < k" and "bytes_of live \<inter> span (p, k) = {}"
  shows "set (om_put p k live) = insert (p, k) (set live)"
proof -
  have "p \<notin> fst ` set live"
  proof
    assume "p \<in> fst ` set live"
    then obtain n where "(p, n) \<in> set live" by force
    then have "p \<in> bytes_of live" using apart_key_in_bytes [OF assms(1)] by blast
    then show False using assms(2,3) by (auto simp: span_pair)
  qed
  then have "{e \<in> set live. fst e \<noteq> p} = set live" by force
  then show ?thesis using assms(1) by (simp add: set_om_put apart_def)
qed

lemma grants_grant:
  assumes "as_asked s fut = sz" and "mi_alignment m' = mi_alignment (as_mem s)"
  shows "grants (s\<lparr>as_mem := m', as_net := net, as_log := as_log s @ [(fut, off)]\<rparr>) =
    grants s @ (if off \<noteq> - 1 \<and> 0 < sz then [(nat off, pad_size (mi_alignment (as_mem s)) sz)] else [])"
proof -
  let ?s = "s\<lparr>as_mem := m', as_net := net, as_log := as_log s @ [(fut, off)]\<rparr>"
  have "is_grant ?s = is_grant s" "granted_range ?s = granted_range s"
    using assms(2) by (auto simp: is_grant_def granted_range_def fun_eq_iff)
  then show ?thesis using assms(1) by (simp add: grants_def is_grant_def granted_range_def)
qed

lemma step_ask:
  assumes "alloc_inv m s" and "as_futures s fut = None"
  shows "alloc_inv m (s\<lparr>as_futures := (as_futures s)(fut := Some None), as_net := as_net s @ [AllocRequest fut sz],
    as_asked := (as_asked s)(fut := sz)\<rparr>)"
proof -
  have l: "fut \<notin> fst ` set (as_log s)" using assms unfolding alloc_inv_def by force
  have "fut \<in> msg_future ` set (as_net s) \<longleftrightarrow> as_futures s fut = Some None" using assms(1) unfolding alloc_inv_def by blast
  then have n: "fut \<notin> msg_future ` set (as_net s)" using assms(2) by simp
  have r: "\<forall>f z. AllocRequest f z \<in> set (as_net s) \<longrightarrow> f \<noteq> fut" using n by force
  show ?thesis using assms l n r unfolding alloc_inv_def grants_ask [OF l] by (auto simp del: split_paired_All)
qed

lemma step_grant:
  assumes "alloc_inv m s" and net: "as_net s = xs @ AllocRequest fut sz # ys"
    and h: "handle_alloc_request (as_mem s) fut sz = (m', AllocResponse fut off)"
  shows "alloc_inv m (s\<lparr>as_mem := m', as_net := xs @ ys @ [AllocResponse fut off], as_log := as_log s @ [(fut, off)]\<rparr>)"
proof -
  let ?s = "s\<lparr>as_mem := m', as_net := xs @ ys @ [AllocResponse fut off], as_log := as_log s @ [(fut, off)]\<rparr>"
  let ?k = "pad_size (mi_alignment (as_mem s)) sz"
  from assms(1) obtain live where live: "mem_ok (as_mem s) live" "set live = set (grants s)" by (auto simp: alloc_inv_def)
  note a = alloc_cases [OF live(1) h]
  have "AllocRequest fut sz \<in> set (as_net s)" using net by simp
  then have ask: "as_asked s fut = sz" "fut \<notin> fst ` set (as_log s)" using assms(1) unfolding alloc_inv_def by blast+
  note g = grants_grant [OF ask(1), where m' = m' and net = "xs @ ys @ [AllocResponse fut off]" and off = off]
  have mem: "(\<exists>live'. mem_ok m' live' \<and> set live' = set (grants ?s)) \<and> sorted_wrt (\<lambda>x y. span x \<inter> span y = {}) (grants ?s)"
  proof (cases "off \<noteq> - 1 \<and> 0 < sz")
    case True
    have "apart live" using live(1) by (simp add: mem_ok_def tiled_def)
    then have "set (om_put (nat off) ?k live) = insert (nat off, ?k) (set live)"
      using True a set_put_fresh [of live ?k "nat off"] pad_size_pos by simp
    moreover have "\<forall>x \<in> set (grants s). span x \<inter> span (nat off, ?k) = {}"
      using True a live(2) span_subset_bytes [of _ live] by (simp add: disjoint_iff) blast
    ultimately show ?thesis using True a g live(2) assms(1) by (auto simp: alloc_inv_def sorted_wrt_append)
  next
    case False
    then show ?thesis using a g live assms(1) by (auto simp: alloc_inv_def)
  qed
  have "fut \<in> msg_future ` set (as_net s)" using net by simp
  then have pend: "as_futures s fut = Some None" and d: "distinct (map msg_future (as_net s))"
    using assms(1) unfolding alloc_inv_def by blast+
  have "msg_future ` set (as_net ?s) = msg_future ` set (as_net s)" "distinct (map msg_future (as_net ?s))"
    using net d by auto
  moreover have "\<forall>f z. AllocRequest f z \<in> set (xs @ ys) \<longrightarrow> f \<noteq> fut" using d net by force
  ultimately show ?thesis using assms(1) mem a ask(2) pend net by (auto simp: alloc_inv_def simp del: split_paired_All)
qed

lemma step_answer:
  assumes "alloc_inv m s" and net: "as_net s = xs @ AllocResponse fut off # ys"
  shows "alloc_inv m (s\<lparr>as_net := xs @ ys, as_futures := (as_futures s)(fut := Some (Some off))\<rparr>)"
proof -
  let ?s = "s\<lparr>as_net := xs @ ys, as_futures := (as_futures s)(fut := Some (Some off))\<rparr>"
  have "is_grant ?s = is_grant s" "granted_range ?s = granted_range s"
    by (auto simp: is_grant_def granted_range_def fun_eq_iff)
  then have "grants ?s = grants s" by (simp add: grants_def)
  moreover have "AllocResponse fut off \<in> set (as_net s)" using net by simp
  then have "(fut, off) \<in> set (as_log s)" using assms(1) unfolding alloc_inv_def by blast
  moreover have "distinct (map msg_future (as_net s))" using assms(1) unfolding alloc_inv_def by blast
  then have "fut \<notin> msg_future ` set (xs @ ys)" "distinct (map msg_future (xs @ ys))" using net by auto
  moreover have "f \<in> msg_future ` set (xs @ ys) \<longleftrightarrow> f \<noteq> fut \<and> as_futures s f = Some None" for f
    using assms(1) net \<open>fut \<notin> msg_future ` set (xs @ ys)\<close> unfolding alloc_inv_def by (metis (no_types, lifting) Un_iff image_Un image_insert insert_iff list.simps(15) msg_future.simps(2) set_append)
  ultimately show ?thesis using assms(1) net by (auto simp: alloc_inv_def simp del: split_paired_All)
qed

interpretation rem_alloc: step_system "alloc_init m" alloc_step "alloc_inv m" for m
proof
  fix s
  assume "alloc_init m s"
  then show "alloc_inv m s" by (auto simp: alloc_init_def alloc_inv_def grants_def)
next
  fix s t
  assume "alloc_inv m s" "alloc_step s t"
  from this(2,1) show "alloc_inv m t"
    by cases (auto simp: send_alloc_request_def handle_alloc_response_def intro: step_ask step_grant step_answer)
qed

lemma grants_disjoint:
  assumes "alloc_inv m s" and "(f1, o1) \<in> set (as_log s)" and "(f2, o2) \<in> set (as_log s)" and "f1 \<noteq> f2"
    and "is_grant s (f1, o1)" and "is_grant s (f2, o2)"
  shows "span (granted_range s (f1, o1)) \<inter> span (granted_range s (f2, o2)) = {}"
proof -
  let ?l = "filter (is_grant s) (as_log s)"
  have "(f1, o1) \<in> set ?l" "(f2, o2) \<in> set ?l" using assms by simp_all
  then obtain i j where i: "i < length ?l" "?l ! i = (f1, o1)" and j: "j < length ?l" "?l ! j = (f2, o2)" by (meson in_set_conv_nth)
  have w: "sorted_wrt (\<lambda>x y. span x \<inter> span y = {}) (grants s)" using assms(1) by (simp add: alloc_inv_def)
  have "i \<noteq> j" using i j assms(4) by auto
  then show ?thesis
  proof (cases "i < j")
    case True
    then show ?thesis using sorted_wrt_nth_less [OF w True] i j by (simp add: grants_def)
  next
    case False
    with \<open>i \<noteq> j\<close> have "j < i" by simp
    then show ?thesis using sorted_wrt_nth_less [OF w \<open>j < i\<close>] i j by (auto simp: grants_def)
  qed
qed

lemma grant_inside:
  assumes "alloc_inv m s" and "e \<in> set (as_log s)" and "is_grant s e"
  shows "span (granted_range s e) \<subseteq> {..< mi_size m}"
proof -
  from assms(1) obtain live where live: "mem_ok (as_mem s) live" "set live = set (grants s)" "mi_size (as_mem s) = mi_size m"
    by (auto simp: alloc_inv_def)
  have "granted_range s e \<in> set live" using assms(2,3) live(2) by (simp add: grants_def)
  then have "span (granted_range s e) \<subseteq> bytes_of live" by (rule span_subset_bytes)
  then show ?thesis using mem.ok_inside [OF live(1)] live(3) by simp
qed

section \<open>Properties\<close>


text \<open>Example: one node asks for 100 bytes of a memory of 1024 bytes and is answered.\<close>

definition rem_demo_mem :: MemoryImpl where
  "rem_demo_mem = \<lparr>mi_size = 1024, mi_alignment = 256, free_blocks = [(0, 1024)], usage = 0, peak_usage = 0, peak_footprint = 0\<rparr>"

definition rem_demo :: alloc_system where
  "rem_demo = \<lparr>as_mem = rem_demo_mem, as_net = [AllocRequest (3, 40) 100], as_futures = (\<lambda>_. None)((3, 40) := Some None),
     as_asked = (\<lambda>_. 0)((3, 40) := 100), as_log = []\<rparr>"

lemma rem_demo_reached: "reaches (alloc_init rem_demo_mem) alloc_step rem_demo"
proof -
  let ?s = "\<lparr>as_mem = rem_demo_mem, as_net = [], as_futures = (\<lambda>_. None), as_asked = (\<lambda>_. 0), as_log = []\<rparr> :: alloc_system"
  have "mem_ok rem_demo_mem []"
    by (auto simp: mem_ok_def tiled_def rem_demo_mem_def gapped_def apart_def span_pair)
  then have "alloc_init rem_demo_mem ?s" by (simp add: alloc_init_def)
  moreover have "alloc_step ?s rem_demo"
    using alloc_step.ask [of ?s "(3, 40)" 100] by (simp add: send_alloc_request_def rem_demo_def)
  ultimately show ?thesis by (meson reaches_init reaches_step)
qed


end
