(* ===== verification/Object_Tables.thy ===== *)
theory Object_Tables
  imports Registry
begin

text \<open>
  The leaves of the tables of runtime objects and their free lists (\<^verbatim>\<open>DynamicTableAllocator\<close> of
  \<^verbatim>\<open>runtime_impl.h\<close>), the tables of sparsity maps, which are created on demand and whose entries
  learn their creator late, and the registration of reduction operators and serialisers.
\<close>

section \<open>Leaves and free lists\<close>

text \<open>
  The elements of a table are named by their index.  \<open>elem_me\<close> is the identifier an element was
  initialised with, \<open>next_free\<close> its link, \<open>first_free\<close> the head of the free list.
\<close>

record leaf_table =
  elem_me :: "nat \<Rightarrow> ID option"
  next_free :: "nat \<Rightarrow> nat option"
  first_free :: "nat option"

definition init_elems :: "(node_id \<Rightarrow> nat \<Rightarrow> ID) \<Rightarrow> nat \<Rightarrow> nat \<Rightarrow> node_id \<Rightarrow> (nat \<Rightarrow> ID option) \<Rightarrow> nat \<Rightarrow> ID option" where
  "init_elems make_id last_ofs first_index own em =
     fold (\<lambda>i f. f(first_index + i \<mapsto> make_id own (first_index + i))) [0 ..< Suc last_ofs] em"

definition stitch :: "nat \<Rightarrow> nat \<Rightarrow> nat option \<Rightarrow> (nat \<Rightarrow> nat option) \<Rightarrow> nat \<Rightarrow> nat option" where
  "stitch last_ofs first_index old nf =
     fold (\<lambda>i f. f(first_index + i := (if i < last_ofs then Some (first_index + i + 1) else old))) [0 ..< Suc last_ofs] nf"

definition new_leaf_node ::
  "nat \<Rightarrow> (node_id \<Rightarrow> nat \<Rightarrow> ID) \<Rightarrow> nat \<Rightarrow> node_id \<Rightarrow> bool \<Rightarrow> leaf_table \<Rightarrow> leaf_table" where
  "new_leaf_node LEAF_BITS make_id first_index own free_list t =
     (let last_ofs = 2 ^ LEAF_BITS - 1;
          t1 = t\<lparr>elem_me := init_elems make_id last_ofs first_index own (elem_me t)\<rparr>
      in if free_list then
           t1\<lparr>next_free := stitch last_ofs first_index (first_free t1) (next_free t1),
              first_free := Some (first_index + (if first_index \<noteq> 0 then 0 else 1))\<rparr>
         else t1)"

text \<open>The elements on the free list, in order: the list that following the links from the head gives.\<close>

fun chain :: "(nat \<Rightarrow> nat option) \<Rightarrow> nat option \<Rightarrow> nat list \<Rightarrow> bool" where
  "chain nf p [] \<longleftrightarrow> p = None"
| "chain nf p (x # xs) \<longleftrightarrow> p = Some x \<and> chain nf (nf x) xs"

lemma chain_cong: "(\<And>x. x \<in> set xs \<Longrightarrow> nf x = nf' x) \<Longrightarrow> chain nf p xs \<longleftrightarrow> chain nf' p xs"
  by (induction xs arbitrary: p) auto

lemma fold_updates:
  "distinct is \<Longrightarrow> fold (\<lambda>i f. f(b + i := g i)) is f (x :: nat) = (if b \<le> x \<and> x - b \<in> set is then g (x - b) else f x)"
  by (induction "is" arbitrary: f) auto

lemma stitch_eq:
  "stitch n b old nf x = (if b \<le> x \<and> x \<le> b + n then if x < b + n then Some (x + 1) else old else nf x)"
proof -
  have "x - b \<in> set [0 ..< Suc n] \<longleftrightarrow> x \<le> b + n" by auto
  then show ?thesis
    unfolding stitch_def using fold_updates [of "[0 ..< Suc n]" b "\<lambda>i. if i < n then Some (b + i + 1) else old" nf x]
    by (auto simp del: upt_Suc)
qed

lemma init_elems_eq:
  "init_elems mk n b own em x = (if b \<le> x \<and> x \<le> b + n then Some (mk own x) else em x)"
proof -
  have "x - b \<in> set [0 ..< Suc n] \<longleftrightarrow> x \<le> b + n" by auto
  then show ?thesis
    unfolding init_elems_def using fold_updates [of "[0 ..< Suc n]" b "\<lambda>i. Some (mk own (b + i))" em x]
    by (auto simp del: upt_Suc)
qed

lemma chain_run:
  assumes "\<And>x. a \<le> x \<Longrightarrow> x < b \<Longrightarrow> nf x = (if x + 1 < b then Some (x + 1) else old)" and "a < b" and "chain nf old xs"
  shows "chain nf (Some a) ([a ..< b] @ xs)"
  using assms
proof (induction "b - a" arbitrary: a)
  case (Suc k)
  then show ?case
  proof (cases "a + 1 < b")
    case True
    then have "chain nf (Some (a + 1)) ([a + 1 ..< b] @ xs)" using Suc by auto
    moreover have "[a ..< b] = a # [a + 1 ..< b]" using True by (simp add: upt_conv_Cons)
    ultimately show ?thesis using Suc.prems(1) [of a] True by simp
  next
    case False
    then have "b = a + 1" using Suc.prems(2) by simp
    then show ?thesis using Suc.prems(1) [of a] Suc.prems(3) by simp
  qed
qed simp

section \<open>Sparsity maps\<close>

text \<open>
  \<open>sparsity_maps own c\<close> is the table of the maps that node \<open>c\<close> has created on node \<open>own\<close>, if there is
  one; a table gives the identifier in each of its entries.  A new table comes from the leaves above,
  whose identifiers have creator \<open>0\<close>.
\<close>

type_synonym sparsity_tables = "node_id \<Rightarrow> node_id \<Rightarrow> (nat \<Rightarrow> ID) option"

definition sparsity_make_id :: "node_id \<Rightarrow> nat \<Rightarrow> ID" where
  "sparsity_make_id own idx = ID_sparsity own 0 idx"

definition get_sparsity_impl :: "RuntimeImpl \<Rightarrow> sparsity_tables \<Rightarrow> ID \<Rightarrow> (ID \<times> sparsity_tables) outcome" where
  "get_sparsity_impl rt sm i =
     (case i of
        ID_sparsity own c idx \<Rightarrow>
          obind (node_check rt own) (\<lambda>_. obind (node_check rt c) (\<lambda>_.
            let m = (case sm own c of None \<Rightarrow> sparsity_make_id own | Some m \<Rightarrow> m);
                me = m idx;
                me' = (if me \<noteq> i \<and> creator me = 0 then ID_sparsity (owner me) c (index me) else me)
            in if me' = i then Inr (me', sm(own := (sm own)(c \<mapsto> m(idx := me')))) else Inl Assert_Failed))
      | _ \<Rightarrow> Inl Assert_Failed)"

text \<open>A new local sparsity map on a node: \<open>idx\<close> is the entry the free list gives.\<close>

definition get_available_sparsity_impl :: "RuntimeImpl \<Rightarrow> sparsity_tables \<Rightarrow> node_id \<Rightarrow> nat \<Rightarrow> (ID \<times> sparsity_tables) outcome" where
  "get_available_sparsity_impl rt sm target_node idx =
     (case sm target_node (my_node_id rt) of
        None \<Rightarrow> Inl Undefined_Behaviour
      | Some m \<Rightarrow>
          let me = ID_sparsity (owner (m idx)) (my_node_id rt) (index (m idx))
          in Inr (me, sm(target_node := (sm target_node)(my_node_id rt \<mapsto> m(idx := me)))))"

definition sparsity_ok :: "sparsity_tables \<Rightarrow> bool" where
  "sparsity_ok sm \<longleftrightarrow> (\<forall>own c m i. sm own c = Some m \<longrightarrow> m i = ID_sparsity own 0 i \<or> m i = ID_sparsity own c i)"

lemma get_sparsity_ok:
  assumes "sparsity_ok sm" and "own \<le> max_node_id rt" and "c \<le> max_node_id rt"
  shows "\<exists>sm'. get_sparsity_impl rt sm (ID_sparsity own c idx) = Inr (ID_sparsity own c idx, sm') \<and> sparsity_ok sm'"
proof -
  define m where "m = (case sm own c of None \<Rightarrow> sparsity_make_id own | Some m \<Rightarrow> m)"
  have m: "m i = ID_sparsity own 0 i \<or> m i = ID_sparsity own c i" for i
    using assms(1) by (auto simp: m_def sparsity_make_id_def sparsity_ok_def split: option.splits)
  let ?sm = "sm(own := (sm own)(c \<mapsto> m(idx := ID_sparsity own c idx)))"
  have "get_sparsity_impl rt sm (ID_sparsity own c idx) = Inr (ID_sparsity own c idx, ?sm)"
    using m [of idx] assms(2,3) by (auto simp: get_sparsity_impl_def node_check_def m_def [symmetric] Let_def)
  moreover have "sparsity_ok ?sm" using assms(1) m by (auto simp: sparsity_ok_def)
  ultimately show ?thesis by blast
qed

lemma get_available_ok:
  assumes "sparsity_ok sm" and "sm target (my_node_id rt) = Some m"
  shows "\<exists>sm'. get_available_sparsity_impl rt sm target idx = Inr (ID_sparsity target (my_node_id rt) idx, sm') \<and> sparsity_ok sm'"
proof -
  have m: "m i = ID_sparsity target 0 i \<or> m i = ID_sparsity target (my_node_id rt) i" for i
    using assms by (auto simp: sparsity_ok_def)
  have "sparsity_ok (sm(target := (sm target)(my_node_id rt \<mapsto> m(idx := ID_sparsity target (my_node_id rt) idx))))"
    using assms(1) m by (auto simp: sparsity_ok_def)
  then show ?thesis using m [of idx] assms(2) by (auto simp: get_available_sparsity_impl_def Let_def)
qed

section \<open>Registered operators\<close>

text \<open>\<^verbatim>\<open>register_reduction\<close> and \<^verbatim>\<open>register_custom_serdez\<close>: the first registration of a number counts.\<close>

definition register_reduction :: "(nat \<Rightarrow> 'op option) \<Rightarrow> nat \<Rightarrow> 'op \<Rightarrow> bool \<times> (nat \<Rightarrow> 'op option)" where
  "register_reduction reduce_op_table redop_id redop =
     (if reduce_op_table redop_id \<noteq> None then (False, reduce_op_table)
      else (True, reduce_op_table(redop_id \<mapsto> redop)))"

definition register_custom_serdez :: "(nat \<Rightarrow> 'op option) \<Rightarrow> nat \<Rightarrow> 'op \<Rightarrow> bool \<times> (nat \<Rightarrow> 'op option)" where
  "register_custom_serdez custom_serdez_table serdez_id serdez =
     (if custom_serdez_table serdez_id \<noteq> None then (False, custom_serdez_table)
      else (True, custom_serdez_table(serdez_id \<mapsto> serdez)))"

lemma register_first_wins:
  "register_reduction tbl k op = (b, tbl') \<Longrightarrow> tbl j = Some x \<Longrightarrow> tbl' j = Some x"
  "register_custom_serdez tbl k op = (b, tbl') \<Longrightarrow> tbl j = Some x \<Longrightarrow> tbl' j = Some x"
  by (auto simp: register_reduction_def register_custom_serdez_def split: if_splits)

text \<open>Runs of creations and look-ups on one node; the tables of the maps the node creates itself exist from the start.\<close>

datatype sparsity_op = Lookup node_id node_id nat | Create node_id nat

fun sparsity_run :: "RuntimeImpl \<Rightarrow> sparsity_tables \<Rightarrow> sparsity_op list \<Rightarrow> ID list outcome" where
  "sparsity_run rt sm [] = Inr []"
| "sparsity_run rt sm (Lookup own c idx # ops) =
     obind (get_sparsity_impl rt sm (ID_sparsity own c idx)) (\<lambda>(i, sm').
       obind (sparsity_run rt sm' ops) (\<lambda>is. Inr (i # is)))"
| "sparsity_run rt sm (Create target idx # ops) =
     obind (get_available_sparsity_impl rt sm target idx) (\<lambda>(i, sm').
       obind (sparsity_run rt sm' ops) (\<lambda>is. Inr (i # is)))"

definition initial_sparsity :: "RuntimeImpl \<Rightarrow> sparsity_tables" where
  "initial_sparsity rt own c = (if own \<le> max_node_id rt \<and> c = my_node_id rt then Some (sparsity_make_id own) else None)"

fun op_id :: "RuntimeImpl \<Rightarrow> sparsity_op \<Rightarrow> ID" where
  "op_id rt (Lookup own c idx) = ID_sparsity own c idx"
| "op_id rt (Create target idx) = ID_sparsity target (my_node_id rt) idx"

fun op_ok :: "RuntimeImpl \<Rightarrow> sparsity_op \<Rightarrow> bool" where
  "op_ok rt (Lookup own c idx) \<longleftrightarrow> own \<le> max_node_id rt \<and> c \<le> max_node_id rt"
| "op_ok rt (Create target idx) \<longleftrightarrow> target \<le> max_node_id rt"

definition own_tables :: "RuntimeImpl \<Rightarrow> sparsity_tables \<Rightarrow> bool" where
  "own_tables rt sm \<longleftrightarrow> (\<forall>own \<le> max_node_id rt. sm own (my_node_id rt) \<noteq> None)"

lemma get_sparsity_keeps: "get_sparsity_impl rt sm i = Inr (j, sm') \<Longrightarrow> own_tables rt sm \<Longrightarrow> own_tables rt sm'"
  by (auto simp: get_sparsity_impl_def own_tables_def Let_def split: ID.splits if_splits)

lemma get_available_keeps: "get_available_sparsity_impl rt sm t i = Inr (j, sm') \<Longrightarrow> own_tables rt sm \<Longrightarrow> own_tables rt sm'"
  by (auto simp: get_available_sparsity_impl_def own_tables_def Let_def split: option.splits)

lemma sparsity_run_ids:
  assumes "sparsity_ok sm" and "own_tables rt sm" and "\<forall>x \<in> set ops. op_ok rt x"
  shows "sparsity_run rt sm ops = Inr (map (op_id rt) ops)"
  using assms
proof (induction ops arbitrary: sm)
  case (Cons x ops)
  show ?case
  proof (cases x)
    case (Lookup own c idx)
    then obtain sm' where e: "get_sparsity_impl rt sm (ID_sparsity own c idx) = Inr (ID_sparsity own c idx, sm')" "sparsity_ok sm'"
      using get_sparsity_ok [OF Cons.prems(1), of own rt c idx] Cons.prems(3) by auto
    with Cons.IH [OF e(2) get_sparsity_keeps [OF e(1) Cons.prems(2)]] Cons.prems(3) Lookup show ?thesis by simp
  next
    case (Create target idx)
    then obtain m where "sm target (my_node_id rt) = Some m" using Cons.prems(2,3) by (auto simp: own_tables_def)
    then obtain sm' where e: "get_available_sparsity_impl rt sm target idx = Inr (ID_sparsity target (my_node_id rt) idx, sm')" "sparsity_ok sm'"
      using get_available_ok [OF Cons.prems(1)] by blast
    with Cons.IH [OF e(2) get_available_keeps [OF e(1) Cons.prems(2)]] Cons.prems(3) Create show ?thesis by simp
  qed
qed simp

section \<open>Properties\<close>

text \<open>
  A new leaf goes onto the free list whole.  Following the links from the new head one meets every
  element of the leaf in order, except the element of index \<open>0\<close>, which is never handed out, and then
  the elements that were free before; every element of the leaf carries the identifier of its
  index.  A leaf has at least two elements, and none of its elements is on the list already.
\<close>

theorem leaf_on_free_list:
  assumes "chain (next_free t) (first_free t) xs" and "0 < LEAF_BITS"
    and "\<forall>x \<in> set xs. x \<notin> {first_index ..< first_index + 2 ^ LEAF_BITS}"
    and "t' = new_leaf_node LEAF_BITS make_id first_index own True t"
  shows "chain (next_free t') (first_free t') ([(if first_index = 0 then 1 else first_index) ..< first_index + 2 ^ LEAF_BITS] @ xs) \<and>
    (\<forall>x. elem_me t' x = (if x \<in> {first_index ..< first_index + 2 ^ LEAF_BITS} then Some (make_id own x) else elem_me t x))"
proof -
  let ?n = "(2::nat) ^ LEAF_BITS"
  have n: "2 \<le> ?n" using assms(2) by (cases LEAF_BITS) auto
  have nf: "next_free t' x = (if first_index \<le> x \<and> x < first_index + ?n
      then if x + 1 < first_index + ?n then Some (x + 1) else first_free t else next_free t x)" for x
    using n by (auto simp: assms(4) new_leaf_node_def Let_def stitch_eq)
  have "next_free t' x = next_free t x" if "x \<in> set xs" for x using assms(3) that by (auto simp: nf)
  then have "chain (next_free t') (first_free t) xs" using assms(1) chain_cong by blast
  then have "chain (next_free t') (Some a) ([a ..< first_index + ?n] @ xs)" if "first_index \<le> a" "a < first_index + ?n" for a
    using that by (intro chain_run) (auto simp: nf)
  moreover have "first_free t' = Some (if first_index = 0 then 1 else first_index)" by (simp add: assms(4) new_leaf_node_def Let_def)
  moreover have "elem_me t' x = (if x \<in> {first_index ..< first_index + ?n} then Some (make_id own x) else elem_me t x)" for x
    using n by (auto simp: assms(4) new_leaf_node_def Let_def init_elems_eq)
  ultimately show ?thesis using n by auto
qed

theorem leaf_on_free_list_witness:
  "let t0 = \<lparr>elem_me = (\<lambda>_. None), next_free = (\<lambda>_. None), first_free = None\<rparr>;
       t' = new_leaf_node 2 sparsity_make_id 0 5 True t0
   in chain (next_free t') (first_free t') [1, 2, 3] \<and> elem_me t' 2 = Some (ID_sparsity 5 0 2)"
proof -
  let ?t = "\<lparr>elem_me = (\<lambda>_. None), next_free = (\<lambda>_. None), first_free = None\<rparr>"
  have c: "chain (next_free ?t) (first_free ?t) []" by simp
  have u: "[1 ..< 4] = [1, 2, 3 :: nat]" by (simp add: upt_rec)
  show ?thesis
    using leaf_on_free_list [OF c, of 2 0 "new_leaf_node 2 sparsity_make_id 0 5 True ?t" sparsity_make_id 5]
    by (simp add: u sparsity_make_id_def Let_def del: chain.simps One_nat_def)
qed

text \<open>
  Sparsity maps.  On any sequence of creations and look-ups of sparsity maps of nodes of the
  machine, tables that do not exist yet are made, entries that do not know their creator learn it, no
  assertion fails, and every operation returns the object with the identifier asked for or created.
\<close>

theorem sparsity_lookups_succeed:
  assumes "\<forall>x \<in> set ops. op_ok rt x"
  shows "sparsity_run rt (initial_sparsity rt) ops = Inr (map (op_id rt) ops)"
proof (rule sparsity_run_ids [OF _ _ assms])
  show "sparsity_ok (initial_sparsity rt)" by (simp add: sparsity_ok_def initial_sparsity_def sparsity_make_id_def)
  show "own_tables rt (initial_sparsity rt)" by (simp add: own_tables_def initial_sparsity_def)
qed

theorem sparsity_lookups_succeed_witness:
  "sparsity_run (RuntimeImpl_init 1 3 8 12) (initial_sparsity (RuntimeImpl_init 1 3 8 12)) [Lookup 2 3 7, Create 0 4, Lookup 0 1 4, Lookup 2 3 7] =
     Inr [ID_sparsity 2 3 7, ID_sparsity 0 1 4, ID_sparsity 0 1 4, ID_sparsity 2 3 7]"
proof -
  let ?rt = "RuntimeImpl_init 1 3 8 12"
  let ?ops = "[Lookup 2 3 7, Create 0 4, Lookup 0 1 4, Lookup 2 3 7]"
  have f: "my_node_id ?rt = 1" "max_node_id ?rt = 3" by (simp_all add: RuntimeImpl_init_def)
  have "\<forall>x \<in> set ?ops. op_ok ?rt x" by (simp add: f del: One_nat_def)
  from sparsity_lookups_succeed [OF this] show ?thesis by (simp add: f del: sparsity_run.simps One_nat_def)
qed

end
