(* ===== verification/Spec2Isabelle.thy ===== *)
theory Spec2Isabelle
  imports Handler_Threads Message_Timing Status_Reports Monitor Stub_Layer Flip_Protocol Spill
    Gasnet_Memory Instances Transfer_Completion Remote_Memory Collectives Object_Tables
begin

text \<open>
  This library verifies the parts of the Realm runtime (the low-level runtime of Legion) whose C++
  sources are kept in \<^verbatim>\<open>src/templates\<close>: the active message layer over GASNet
  (\<^verbatim>\<open>activemsg.cc\<close>, \<^verbatim>\<open>activemsg.h\<close>), the memories (\<^verbatim>\<open>mem_impl.cc\<close>, \<^verbatim>\<open>mem_impl.h\<close>) and the
  runtime object (\<^verbatim>\<open>runtime_impl.cc\<close>, \<^verbatim>\<open>runtime_impl.h\<close>).  The files
  \<^verbatim>\<open>activemsg_*.cc\<close> beside them are pieces and older copies of \<^verbatim>\<open>activemsg.cc\<close>.

  \<^bold>\<open>How the parts interact.\<close>  A node sends by handing an \<^verbatim>\<open>OutgoingMessage\<close> to the
  \<^verbatim>\<open>EndpointManager\<close>, which queues it at the \<^verbatim>\<open>ActiveMessageEndpoint\<close> of the target.  A payload
  is copied into the source data pool of the registered segment, or into spill memory when the pool
  is full.  Polling pushes messages: short ones directly, long ones in chunks into the long message
  buffers of the target, which the two sides hand back and forth with flip requests and
  acknowledgements.  The receiver reassembles chunks, queues messages per sender in the
  \<^verbatim>\<open>IncomingMessageManager\<close> and releases the source range with a message of its own.  The
  memories send remote writes, reductions and serialised fields through this layer, count the pieces
  of a transfer and acknowledge its fence.  Instances are slots of a memory with storage allocated by
  the owner.  The runtime object creates memories and processors, looks up every object by its
  identifier, starts a program with collective spawns and shuts all nodes down.  The application owns a
  \<^verbatim>\<open>Runtime\<close>, which creates that object, configures it from the command line, announces the node to
  all others and deletes it after the shutdown.

  \<^bold>\<open>Theories and sources.\<close>  A C++ class is a record, an enumeration a datatype, a
  \<^verbatim>\<open>std::map\<close> an ordered association list, a failure (assertion, exit, undefined
  behaviour) a value of \<^typ>\<open>am_error\<close> on the left of a sum; names follow the code.

  \<^item> \<open>Legion_Prelude\<close>: failures, ordered maps (locale \<open>std_map\<close>), byte ranges and memory, the contract of
    range allocators (locale \<open>range_allocator\<close>) and step systems (locale \<open>step_system\<close>).
  \<^item> \<open>Source_Pool\<close>: \<^verbatim>\<open>SrcDataPool\<close>.  Allocation and release keep the free list merged and the ranges
    in use disjoint; the last release serves the waiting message.
  \<^item> \<open>Spill\<close>: spill accounting with 64-bit counters; the count is exact and no wake-up is lost.
  \<^item> \<open>Payload\<close>: \<^verbatim>\<open>PayloadSource\<close> and its subclasses, the ring of deferred frees.
  \<^item> \<open>Outgoing_Message\<close>: \<^verbatim>\<open>OutgoingMessage\<close> from construction to destruction with the pool, the spill
    memory and the waiting queue; a release delivers the ranges, every spill byte comes back.
  \<^item> \<open>Todo_Ring\<close>, \<open>Incoming_Manager\<close>: the ring of nodes with work (locale \<open>bounded_fifo\<close>) and
    \<^verbatim>\<open>IncomingMessageManager\<close>; messages of a sender are taken in order, nobody gets stuck.
  \<^item> \<open>Handler_Threads\<close>: any number of threads in \<^verbatim>\<open>handler_thread_loop\<close>; every message is handled exactly once, no
    wake-up is lost, and all threads return after the shutdown; a single thread handles in order, two may not.
  \<^item> \<open>Endpoint\<close>, \<open>Reassembly\<close>, \<open>Flip_Protocol\<close>, \<open>Endpoint_Manager\<close>: \<^verbatim>\<open>ActiveMessageEndpoint\<close>,
    \<^verbatim>\<open>EndpointManager\<close> and the public entry points.  Chunks in any order put the payload in place and
    complete the message once; no buffer is overwritten or lost.
  \<^item> \<open>Message_Handlers\<close>: the message classes of \<^verbatim>\<open>activemsg.h\<close> from \<^verbatim>\<open>request\<close> to
    \<^verbatim>\<open>run_handler\<close>.  A long message is queued once, whole, and its source data are released
    once; handled messages are counted per buffer.
  \<^item> \<open>Segment_Layout\<close>: \<^verbatim>\<open>init_endpoints\<close>, the options and the layout of the segment.
  \<^item> \<open>Local_Alloc\<close>, \<open>Gasnet_Memory\<close>, \<open>Remote_Memory\<close>: \<^verbatim>\<open>MemoryImpl\<close> with its allocator,
    \<^verbatim>\<open>LocalCPUMemory\<close>, the striped \<^verbatim>\<open>GASNetMemory\<close>, \<^verbatim>\<open>RemoteMemory\<close> with remote allocation.
  \<^item> \<open>Instances\<close>: slots, proxies and the storage protocol of region instances.
  \<^item> \<open>Remote_Fence\<close>, \<open>Remote_Write\<close>, \<open>Remote_Ops\<close>: \<^verbatim>\<open>do_remote_write\<close> in its three forms,
    \<^verbatim>\<open>do_remote_reduce\<close>, \<^verbatim>\<open>do_remote_serdez\<close>, their handlers and the table of partial writes.
  \<^item> \<open>Transfer_Completion\<close>: reductions and serialised fields with their fence, in any order of arrival:
    every element once, one acknowledgement (locale \<open>counted_request\<close>).
  \<^item> \<open>Registry\<close>, \<open>Object_Tables\<close>, \<open>Affinities\<close>: \<^verbatim>\<open>RuntimeImpl\<close> as a registry, from start-up to look-up,
    leaves of the object tables, sparsity maps, affinities.
  \<^item> \<open>Remote_IDs\<close>, \<open>Command_Line\<close>, \<open>Shutdown\<close>, \<open>Collectives\<close>: \<^verbatim>\<open>RemoteIDAllocator\<close>,
    \<^verbatim>\<open>REALM_DEFAULT_ARGS\<close>, \<^verbatim>\<open>RuntimeImpl::shutdown\<close> over all nodes, collective spawns and
    \<^verbatim>\<open>RuntimeImpl::run\<close>.
  \<^item> \<open>Environment\<close>: the environment variables \<^verbatim>\<open>network_init\<close> sets and reads, and the error signals.
  \<^item> \<open>Announcements\<close>, \<open>Configuration\<close>: \<^verbatim>\<open>configure_from_command_line\<close> from the options to the
    announcement of the node; when a node comes up, and what has been checked when it has.
  \<^item> \<open>Runtime_Interface\<close>: the class \<^verbatim>\<open>Runtime\<close> over an explicit heap (locale \<open>process_invariant\<close>): one runtime at
    a time, its life from \<^verbatim>\<open>init\<close> to \<^verbatim>\<open>wait_for_shutdown\<close>, and why a second one cannot be shut down.
  \<^item> \<open>Stub_Layer\<close>: the message layer of a build without GASNet; one node sends nothing.
  \<^item> \<open>Monitor\<close>: \<^verbatim>\<open>GASNetHSL\<close>, \<^verbatim>\<open>GASNetCondVar\<close>, \<^verbatim>\<open>AutoLock\<close> and the sections that wait for a flag, with the steps of
    threads interleaved: mutual exclusion, and no wake-up is lost.
  \<^item> \<open>Message_Timing\<close>: \<^verbatim>\<open>DetailedMessageTiming\<close> and the handler statistics; what threads record is what the file holds.
  \<^item> \<open>Status_Reports\<close>: \<^verbatim>\<open>report_activemsg_status\<close>, the messages left when the polling threads are stopped, and
    \<^verbatim>\<open>show_event_waiters\<close>; the reports list everything there is, once.
  \<^item> this theory: properties of several components together.

  \<^bold>\<open>Interfaces.\<close>  \<open>range_allocator\<close> is interpreted on the source data pool and on \<^verbatim>\<open>MemoryImpl\<close>,
  \<open>bounded_fifo\<close> on the todo ring, \<open>std_map\<close> on ordered maps, and \<open>step_system\<close> on the spill
  accounting, the incoming manager, the flip protocol, the endpoint manager, the instance slots, remote
  allocation, the handler threads and the threads at a monitor; \<open>counted_request\<close> on the handlers of reductions and of serialised fields, and
  \<open>process_invariant\<close> on the two invariants of a process.  The properties use the facts of these
  interpretations.

  \<^bold>\<open>Concurrency.\<close>  A critical section of the code is one step, except in \<open>Monitor\<close>, which shows that sections exclude
  each other.  Protocols between nodes are step
  relations or runs over lists of events in which messages are delivered in any order.

  \<^bold>\<open>Bounds and fuel.\<close>  Counters that can wrap are words of their width: spill counters and
  identifiers 64 bits, fence counters and the count of shutdown calls 32 bits; the theorems about
  them, and those about the number of chunks of a message, which travels in a signed 32-bit word,
  stay below two to the power of 31.  Addresses, offsets and sizes are
  natural numbers where the code cannot get near the end of its types, and 64-bit words with 32-bit
  shifts in the segment layout, where it can.  \<open>handle_chain\<close> follows pointers and takes fuel; the
  length of the chain is shown to be enough.  The protocol of instance storage settles within the
  deliveries its theorems name.  \<open>em_push_messages\<close> and \<open>polling_worker_loop\<close> go on as long as an
  endpoint waits for its peer, so they have fuel for the number of rounds and no claim that they
  end.  \<open>split_write\<close> and its relatives may run for ever when a buffer has no room: they are partial
  functions, with a theorem on when they return.  \<open>drain_todo\<close> is a partial function too, and shown to end on
  every ring the endpoint manager can have.

  \<^bold>\<open>Arguments for code that is not in the repository.\<close>  GASNet collectives, events and task spawning,
  the layout of identifiers, the tables behind their leaves, the machine model, reduction operators,
  serialisers, the range allocator of instances, the parser of the command line, loggers, further modules,
  core reservations and \<^verbatim>\<open>malloc\<close> are arguments; what the code relies on
  is a named hypothesis (\<open>coll_laws\<close>, \<open>event_laws\<close>, \<open>table_laws\<close>, \<open>affinity_laws\<close>), and each has an
  instance that satisfies it.

  \<^bold>\<open>Not modelled.\<close>  The creation of operating system threads; the variant of
  \<^verbatim>\<open>push_messages\<close> that sleeps; message tracing and logging; clock synchronisation;
  the calls of the GASNet start-up; the text of backtraces; the printf formats of reports; destructors that only free
  memory; the handler of node
  announcements, which is not in the repository; the MPI variant, which is made of template calls; disk and file
  memories and \<^verbatim>\<open>BasicRangeAllocator\<close>, which are only declared.
\<close>

section \<open>Properties that span components\<close>

text \<open>
  C1. A remote write with its fence, end to end.  The sender cuts the payload into messages and announces
  their number in the fence; the network delivers messages and fence in any order, putting the bytes at
  the destination a message names or into a buffer outside the memory; the receiver handles each.  Then
  no assertion fails, the memory of the receiver holds the payload at the offset of the call and is
  otherwise unchanged, and the fence has been acknowledged exactly once.
\<close>

theorem remote_transfer_complete:
  assumes "0 < lmb" and "sendable lmb (local_reg_base c) src" and "sequence_id k \<noteq> 0" and "f \<noteq> 0"
    and "off + length (payload_data smem src) \<le> mi_size (cpu_impl c)"
    and "do_remote_write lmb (local_reg_base c) off src = Some (Inr ms)" and "length ms < 2 ^ 31"
    and "mset (map fst (arrival_msgs es)) = mset ms" and "\<forall>(x, ptr) \<in> set (arrival_msgs es). placed c x ptr"
    and "concat (map (\<lambda>e. case e of Fence n f \<Rightarrow> [(n, f)] | Data x p \<Rightarrow> []) es) = [(of_nat (length ms), f)]"
  shows "\<exists>mem'. arrive_all c smem k (mem, [], []) es = Inr (mem', [], [(k, f)]) \<and>
    (\<forall>y \<in> cpu_region c. mem' y = write_bytes mem (cpu_base c + off) (payload_data smem src) y)"
proof -
  have g: "good_cut lmb (local_reg_base c) smem off (payload_data smem src) ms"
    using do_remote_write_good [OF assms(1,2), of off smem] assms(6) by auto
  have set: "set (map fst (arrival_msgs es)) = set ms" using assms(8) by (rule mset_eq_setD)
  have len: "length (arrival_msgs es) = length ms" using assms(8) by (metis length_map size_mset)
  have ne: "0 < length ms" using g by (auto simp: good_cut_def)
  have run: "rw_run ([], []) (map (arrival_event k) es) = Inr ([], [(k, f)])"
    using transfer_events [OF assms(3) len ne assms(7,10,4)] .
  have "\<forall>(x, ptr) \<in> set (arrival_msgs es). rm_size x = length (payload_data smem (rm_src x)) \<and> placed c x ptr \<and>
      rm_dstptr x = (if local_reg_base c \<noteq> 0 then local_reg_base c + rm_offset x else 0) \<and>
      rm_offset x + rm_size x \<le> mi_size (cpu_impl c)"
  proof (intro ballI case_prodI2)
    fix y x ptr assume y: "y \<in> set (arrival_msgs es)" "y = (x, ptr)"
    then have x: "x \<in> set ms" unfolding set [symmetric] by force
    have "rm_offset x + rm_size x \<le> mi_size (cpu_impl c)" using good_cut_bounds [OF g x] assms(5) by simp
    with g x assms(9) y show "rm_size x = length (payload_data smem (rm_src x)) \<and> placed c x ptr \<and>
      rm_dstptr x = (if local_reg_base c \<noteq> 0 then local_reg_base c + rm_offset x else 0) \<and>
      rm_offset x + rm_size x \<le> mi_size (cpu_impl c)" by (auto simp: good_cut_def)
  qed
  from arrive_all_splits [OF this run] obtain mem' where
    m: "arrive_all c smem k (mem, [], []) es = Inr (mem', [], [(k, f)])"
      "\<forall>y \<in> cpu_region c. mem' y = fold (put_piece (cpu_base c)) (pieces smem (map fst (arrival_msgs es))) mem y" by blast
  have "set (pieces smem (map fst (arrival_msgs es))) = set (pieces smem ms)"
    unfolding pieces_def by (simp only: set_map [where xs = "map fst (arrival_msgs es)"] set_map [where xs = ms] set)
  from fold_put_laid_out [OF _ this, of off] g m show ?thesis by (auto simp: good_cut_def)
qed

theorem remote_transfer_complete_witness:
  "\<exists>mem'. arrive_all (projr (LocalCPUMemory_construct (\<lambda>_. 4096) 1024 0 False)) (\<lambda>x. of_nat x) (PartialWriteKey 3 7)
      ((\<lambda>_. 0), [], [])
      [Data \<lparr>rm_offset = 164, rm_src = ContiguousPayload 564 36 PAYLOAD_KEEP, rm_size = 36, rm_dstptr = 0\<rparr> 0,
       Fence 2 64,
       Data \<lparr>rm_offset = 100, rm_src = ContiguousPayload 500 64 PAYLOAD_KEEP, rm_size = 64, rm_dstptr = 0\<rparr> 0] =
      Inr (mem', [], [(PartialWriteKey 3 7, 64)])"
proof -
  define c where "c = projr (LocalCPUMemory_construct (\<lambda>_. 4096) 1024 0 False)"
  have c: "cpu_base c = 4096" "local_reg_base c = 0" "mi_size (cpu_impl c) = 1024"
    by (simp_all add: c_def LocalCPUMemory_construct_def MemoryImpl_construct_def Let_def local_reg_base_def CPU_ALIGNMENT_def)
  let ?a = "\<lparr>rm_offset = 100, rm_src = ContiguousPayload 500 64 PAYLOAD_KEEP, rm_size = 64, rm_dstptr = 0\<rparr>"
  let ?b = "\<lparr>rm_offset = 164, rm_src = ContiguousPayload 564 36 PAYLOAD_KEEP, rm_size = 36, rm_dstptr = 0\<rparr>"
  have d: "do_remote_write 64 0 100 (ContiguousPayload 500 100 PAYLOAD_KEEP) = Some (Inr [?a, ?b])"
    by (simp add: split_write.simps)
  have p: "placed c ?a 0" "placed c ?b 0" by (auto simp: placed_def cpu_region_def c)
  from remote_transfer_complete [of 64 c "ContiguousPayload 500 100 PAYLOAD_KEEP" "PartialWriteKey 3 7" 64 100 "\<lambda>x. of_nat x"
      "[?a, ?b]" "[Data ?b 0, Fence 2 64, Data ?a 0]" "\<lambda>_. 0"]
  show ?thesis unfolding c_def [symmetric] using d p by (auto simp: c add_mset_commute)
qed

end
